(* ===== verification/Prelude.thy ===== *)
theory Prelude
  imports Main "HOL-Library.Word"
begin

unbundle bit_operations_syntax

text \<open>
  Shared vocabulary of the development: pointers and machine integers, the outcomes of
  C code that has no defined meaning, the error-or-value result every stateful
  operation returns, and the generic list and search lemmas the components use.
\<close>

section \<open>Machine types\<close>

text \<open>
  The integer names of \<^verbatim>\<open>src/src/common.h\<close>. Unsigned types whose wrap-around
  matters are words; a signed C \<^verbatim>\<open>int\<close> that the code keeps in a small range is
  an \<^typ>\<open>int\<close>, and the range is proved where it is used. A pointer is an address
  (\<^verbatim>\<open>NULL\<close> is 0).
\<close>

type_synonym u8 = "8 word"
type_synonym u16 = "16 word"
type_synonym u32 = "32 word"
type_synonym u64 = "64 word"
type_synonym ptr = nat

abbreviation NULL :: ptr where
  "NULL \<equiv> 0"

section \<open>Results\<close>

text \<open>
  What C leaves undefined is a value of the model: every read through a pointer, every
  array access and every copy is a branch between the defined result \<open>Inr\<close> and the
  reason \<open>Inl\<close> why the program has none.
\<close>

datatype ub =
    BadPtr ptr          \<comment> \<open>a dereference of NULL, of a freed block or of no object\<close>
  | OutOfBounds         \<comment> \<open>an access past the end of an array or buffer\<close>
  | BadFree ptr         \<comment> \<open>free of an address that is not an allocated block\<close>
  | IntOverflow         \<comment> \<open>a signed operation out of the range of its type\<close>
  | Uninitialised       \<comment> \<open>a read of a value never written\<close>

type_synonym 'a res = "ub + 'a"

primrec bindR :: "'a res \<Rightarrow> ('a \<Rightarrow> 'b res) \<Rightarrow> 'b res" where
  "bindR (Inl e) f = Inl e"
| "bindR (Inr x) f = f x"

lemma bindR_Inr_iff: "bindR m f = Inr y \<longleftrightarrow> (\<exists>x. m = Inr x \<and> f x = Inr y)"
  by (cases m) auto

lemma bindR_Inl_iff: "bindR m f = Inl e \<longleftrightarrow> m = Inl e \<or> (\<exists>x. m = Inr x \<and> f x = Inl e)"
  by (cases m) auto

lemma bindR_assoc: "bindR (bindR m f) g = bindR m (\<lambda>x. bindR (f x) g)"
  by (cases m) auto

lemma bindR_Inr_right [simp]: "bindR m Inr = m"
  by (cases m) auto

lemma bindR_cong [fundef_cong]:
  "m = m' \<Longrightarrow> (\<And>x. m' = Inr x \<Longrightarrow> f x = f' x) \<Longrightarrow> bindR m f = bindR m' f'"
  by (cases m') auto

definition guardR :: "bool \<Rightarrow> ub \<Rightarrow> unit res" where
  "guardR b e = (if b then Inr () else Inl e)"

lemma guardR_simps [simp]:
  "guardR True e = Inr ()" "guardR False e = Inl e"
  "guardR b e = Inr u \<longleftrightarrow> b" "guardR b e = Inl e' \<longleftrightarrow> \<not> b \<and> e' = e"
  by (auto simp: guardR_def)

text \<open>A signed 32-bit result: \<open>IntOverflow\<close> outside the range of \<^verbatim>\<open>int\<close>.\<close>

definition INT_MAX :: int where "INT_MAX = 2147483647"
definition INT_MIN :: int where "INT_MIN = -2147483648"

definition to_int :: "int \<Rightarrow> int res" where
  "to_int i = (if INT_MIN \<le> i \<and> i \<le> INT_MAX then Inr i else Inl IntOverflow)"

lemma to_int_in_range: "INT_MIN \<le> i \<Longrightarrow> i \<le> INT_MAX \<Longrightarrow> to_int i = Inr i"
  by (simp add: to_int_def)

text \<open>
  A call that may block: \<open>Wait\<close> is the state inside \<^verbatim>\<open>pthread_cond_wait\<close>, where the
  mutex is released and the call has no result yet.
\<close>

datatype 'a outcome = Done 'a | Wait

section \<open>Lists\<close>

lemma distinct_remove1_append:
  "distinct (xs @ e # ys) \<Longrightarrow> remove1 e (xs @ e # ys) = xs @ ys"
  by (simp add: remove1_append)

lemma in_butlast_distinct:
  "x \<in> set (butlast xs) \<Longrightarrow> distinct xs \<Longrightarrow> x \<in> set xs \<and> x \<noteq> last xs"
  by (induction xs) (auto split: if_splits dest: in_set_butlastD)

end
