(* ===== verification/Bytes.thy ===== *)
theory Bytes
  imports Prelude
begin

text \<open>
  Memory as the parsers see it: an object is a list of bytes, a pointer into it is an
  offset, and every read is checked against the end of the object. The reads of 16 and 32
  bits take the bytes in the order of the little-endian hosts the program is built for
  (\<^verbatim>\<open>ntohs\<close> swaps them back). Also the C strings, the decimal numbers and the record of
  what is printed.
\<close>

section \<open>Reads\<close>

definition rd8 :: "u8 list \<Rightarrow> nat \<Rightarrow> u8 res" where
  "rd8 m i = (if i < length m then Inr (m ! i) else Inl OutOfBounds)"

definition rd16 :: "u8 list \<Rightarrow> nat \<Rightarrow> u16 res" where
  "rd16 m i = bindR (rd8 m i) (\<lambda>a. bindR (rd8 m (i + 1)) (\<lambda>b. Inr (word_cat b a)))"

definition rd32 :: "u8 list \<Rightarrow> nat \<Rightarrow> u32 res" where
  "rd32 m i = bindR (rd16 m i) (\<lambda>a. bindR (rd16 m (i + 2)) (\<lambda>b. Inr (word_cat b a)))"

definition ntohs :: "u16 \<Rightarrow> u16" where
  "ntohs w = word_cat (ucast w :: u8) (ucast (drop_bit 8 w) :: u8)"

text \<open>A copy of \<open>n\<close> bytes out of an object.\<close>

definition rd_bytes :: "u8 list \<Rightarrow> nat \<Rightarrow> nat \<Rightarrow> u8 list res" where
  "rd_bytes m i n = (if i + n \<le> length m then Inr (take n (drop i m)) else Inl OutOfBounds)"

lemma rd8_simps [simp]: "i < length m \<Longrightarrow> rd8 m i = Inr (m ! i)" "length m \<le> i \<Longrightarrow> rd8 m i = Inl OutOfBounds"
  by (simp_all add: rd8_def)

lemma rd8_Inr_iff: "rd8 m i = Inr b \<longleftrightarrow> i < length m \<and> b = m ! i"
  by (auto simp: rd8_def)

lemma rd16_ok: "i + 1 < length m \<Longrightarrow> rd16 m i = Inr (word_cat (m ! (i + 1)) (m ! i))"
  by (simp add: rd16_def)

lemma rd16_out: "length m \<le> i + 1 \<Longrightarrow> rd16 m i = Inl OutOfBounds"
  by (cases "i < length m") (simp_all add: rd16_def)

lemma rd32_ok: "i + 3 < length m \<Longrightarrow>
    rd32 m i = Inr (word_cat (word_cat (m ! (i + 3)) (m ! (i + 2)) :: u16) (word_cat (m ! (i + 1)) (m ! i) :: u16))"
  by (simp add: rd32_def rd16_ok numeral_3_eq_3)

text \<open>\<^verbatim>\<open>ntohs\<close> of two bytes in memory is their big-endian value.\<close>

lemma ntohs_bytes: "ntohs (word_cat b a) = (word_cat (a::u8) (b::u8) :: u16)"
  unfolding ntohs_def
  by (rule bit_word_eqI)
    (auto simp: bit_word_cat_iff bit_ucast_iff bit_drop_bit_eq not_less dest: bit_imp_le_length)

lemma ntohs_ntohs: "ntohs (ntohs w) = w"
  unfolding ntohs_def
  by (rule bit_word_eqI)
    (auto simp: bit_word_cat_iff bit_ucast_iff bit_drop_bit_eq not_less dest: bit_imp_le_length)

lemma be16_value: "unat (word_cat (a::u8) (b::u8) :: u16) = 256 * unat a + unat b"
proof -
  have "unat a < 256" "unat b < 256" using unsigned_less [of a] unsigned_less [of b] by simp_all
  then have "256 * unat a + unat b < 65536" by simp
  moreover have "word_cat a b = (word_of_nat (256 * unat a + unat b) :: u16)"
    by (simp add: word_cat_eq push_bit_eq_mult mult.commute)
  ultimately show ?thesis by (simp only: unat_of_nat mod_less len_num0 len_num1 len_bit0) simp
qed

text \<open>Values byte by byte.\<close>

lemma word_cat_eq8: "word_cat (x::u8) (y::u8) = (word_cat x' y' :: u16) \<longleftrightarrow> x = x' \<and> y = y'"
proof -
  have "ucast (word_cat x y :: u16) = y" for x y :: u8
    by (rule bit_word_eqI) (simp add: bit_word_cat_iff bit_ucast_iff)
  moreover have "ucast (drop_bit 8 (word_cat x y :: u16)) = x" for x y :: u8
    by (rule bit_word_eqI) (auto simp: bit_word_cat_iff bit_ucast_iff bit_drop_bit_eq dest: bit_imp_le_length)
  ultimately show ?thesis by metis
qed

lemma word_cat_eq16: "word_cat (x::u16) (y::u16) = (word_cat x' y' :: u32) \<longleftrightarrow> x = x' \<and> y = y'"
proof -
  have "ucast (word_cat x y :: u32) = y" for x y :: u16
    by (rule bit_word_eqI) (simp add: bit_word_cat_iff bit_ucast_iff)
  moreover have "ucast (drop_bit 16 (word_cat x y :: u32)) = x" for x y :: u16
    by (rule bit_word_eqI) (auto simp: bit_word_cat_iff bit_ucast_iff bit_drop_bit_eq dest: bit_imp_le_length)
  ultimately show ?thesis by metis
qed

lemma high_nibble: "unat (drop_bit 4 (b::u8)) = unat b div 16"
  by (simp only: unat_drop_bit_eq) (simp add: drop_bit_eq_div)

lemma low_nibble: "unat (b AND 15 :: u8) = unat b mod 16"
proof -
  have "(15::u8) = mask 4" by (simp add: mask_eq_exp_minus_1)
  then have "b AND 15 = take_bit 4 b" by (simp add: take_bit_eq_mask)
  then show ?thesis by (simp only: unsigned_take_bit_eq) (simp add: take_bit_eq_mod)
qed

lemma be16_eq_of_nat: "p < 65536 \<Longrightarrow> word_cat (a::u8) (b::u8) = (word_of_nat p :: u16) \<longleftrightarrow> 256 * unat a + unat b = p"
proof -
  assume p: "p < 65536"
  have "word_cat a b = (word_of_nat p :: u16) \<longleftrightarrow> unat (word_cat a b :: u16) = unat (word_of_nat p :: u16)"
    by (rule word_unat_eq_iff)
  then show ?thesis using p by (simp add: be16_value unat_of_nat)
qed

lemma take4: "i + 4 \<le> length xs \<Longrightarrow> take 4 (drop i xs) = [xs ! i, xs ! (i + 1), xs ! (i + 2), xs ! (i + 3)]"
  by (auto simp: take_Suc_conv_app_nth numeral_eq_Suc)

section \<open>C strings\<close>

text \<open>The bytes from \<open>i\<close> up to the first NUL; without one the reader leaves the object.\<close>

definition c_str :: "u8 list \<Rightarrow> nat \<Rightarrow> u8 list res" where
  "c_str m i = (if 0 \<in> set (drop i m) then Inr (takeWhile (\<lambda>b. b \<noteq> 0) (drop i m)) else Inl OutOfBounds)"

definition strlen :: "u8 list \<Rightarrow> nat \<Rightarrow> nat res" where
  "strlen m i = bindR (c_str m i) (\<lambda>s. Inr (length s))"

lemma c_str_no_nul: "c_str m i = Inr s \<Longrightarrow> 0 \<notin> set s"
  by (auto simp: c_str_def dest: set_takeWhileD split: if_splits)

lemma c_str_append: "0 \<notin> set s \<Longrightarrow> c_str (s @ 0 # r) 0 = Inr s"
  by (induction s) (auto simp: c_str_def split: if_splits)

lemma c_str_bounds:
  assumes "c_str m i = Inr s"
  shows "i + length s < length m \<and> take (length s) (drop i m) = s \<and> m ! (i + length s) = 0"
proof -
  let ?d = "drop i m"
  from assms have s: "s = takeWhile (\<lambda>b. b \<noteq> 0) ?d" and z: "0 \<in> set ?d"
    by (auto simp: c_str_def split: if_splits)
  then have "dropWhile (\<lambda>b. b \<noteq> 0) ?d \<noteq> []" by (auto simp: dropWhile_eq_Nil_conv)
  then obtain r where r: "dropWhile (\<lambda>b. b \<noteq> 0) ?d = 0 # r"
    by (metis (mono_tags, lifting) dropWhile_eq_Cons_conv list.exhaust)
  have d: "?d = s @ 0 # r" using takeWhile_dropWhile_id [of "\<lambda>b. b \<noteq> 0" ?d] r s by simp
  then have "length m - i = length s + Suc (length r)" by (metis length_drop length_append length_Cons)
  moreover have "?d ! length s = 0" using d by (metis nth_append_length)
  then have "m ! (i + length s) = 0" if "i < length m" using that by simp
  moreover have "i < length m" using d by (metis drop_all leI list.distinct(1) append_is_Nil_conv)
  ultimately show ?thesis using d by (simp add: nth_drop)
qed

section \<open>Text\<close>

definition bytes_of :: "string \<Rightarrow> u8 list" where
  "bytes_of s = map of_char s"

lemma bytes_of_simps [simp]:
  "bytes_of [] = []" "bytes_of (c # s) = of_char c # bytes_of s" "bytes_of (s @ t) = bytes_of s @ bytes_of t"
  "length (bytes_of s) = length s"
  by (simp_all add: bytes_of_def)

text \<open>\<^verbatim>\<open>%u\<close> and \<^verbatim>\<open>%d\<close> of a number that is not negative.\<close>

fun decimal :: "nat \<Rightarrow> u8 list" where
  "decimal n = (if n < 10 then [of_nat (48 + n)] else decimal (n div 10) @ [of_nat (48 + n mod 10)])"

declare decimal.simps [simp del]

lemma decimal_length: "n < 10 ^ k \<Longrightarrow> 0 < k \<Longrightarrow> length (decimal n) \<le> k"
proof (induction n arbitrary: k rule: decimal.induct)
  case (1 n)
  show ?case
  proof (cases "n < 10")
    case True
    with 1 show ?thesis by (subst decimal.simps) simp
  next
    case False
    with 1 obtain j where k: "k = Suc j" by (cases k) auto
    with 1 False have "n div 10 < 10 ^ j" by (simp add: less_mult_imp_div_less mult.commute)
    moreover from this False have "0 < j" by (cases j) auto
    ultimately show ?thesis using 1(1) [of j] False k by (subst decimal.simps) simp
  qed
qed

text \<open>One call of \<^verbatim>\<open>printf\<close>: the format and what was passed for it.\<close>

datatype parg = Str "u8 list" | Num int

type_synonym printed = "(string \<times> parg list) list"

end
