(* ===== verification/Socket.thy ===== *)
theory Socket
  imports Bytes
begin

text \<open>
  The capture socket, \<^verbatim>\<open>src/src/socket.c\<close>: creating the packet socket, bringing the
  interface up in promiscuous mode and making a socket non-blocking. The system calls are
  parameters, a record of functions on a kernel state of any type; what the manual page
  netdevice(7) says of the three requests on an interface is the predicate \<open>netdevice\<close>.
\<close>

section \<open>The system interface\<close>

text \<open>
  \<^verbatim>\<open>struct ifreq\<close>: the name, and the first four bytes of the union that follows it,
  which are both \<^verbatim>\<open>ifr_flags\<close> (16 bits) and \<^verbatim>\<open>ifr_ifindex\<close> (32 bits).
\<close>

record ifreq =
  ifr_name :: "u8 list"
  ifr_ifru :: u32

definition ifr_flags :: "ifreq \<Rightarrow> u16" where "ifr_flags r = ucast (ifr_ifru r)"

definition set_ifr_flags :: "ifreq \<Rightarrow> u16 \<Rightarrow> ifreq" where
  "set_ifr_flags r f = r\<lparr>ifr_ifru := word_cat (ucast (drop_bit 16 (ifr_ifru r)) :: u16) f\<rparr>"

definition ifr_ifindex :: "ifreq \<Rightarrow> int" where "ifr_ifindex r = sint (ifr_ifru r)"

definition set_ifr_ifindex :: "ifreq \<Rightarrow> int \<Rightarrow> ifreq" where
  "set_ifr_ifindex r i = r\<lparr>ifr_ifru := word_of_int i\<rparr>"

text \<open>The constants of the system's headers that the code names.\<close>

definition PF_PACKET :: int where "PF_PACKET = 17"
definition SOCK_RAW :: int where "SOCK_RAW = 3"
definition ETH_P_ALL :: u16 where "ETH_P_ALL = 3"
definition SIOCGIFFLAGS :: u32 where "SIOCGIFFLAGS = 0x8913"
definition SIOCSIFFLAGS :: u32 where "SIOCSIFFLAGS = 0x8914"
definition SIOCGIFINDEX :: u32 where "SIOCGIFINDEX = 0x8933"
definition FIONBIO :: u32 where "FIONBIO = 0x5421"
definition IFF_UP :: u16 where "IFF_UP = 1"
definition IFF_PROMISC :: u16 where "IFF_PROMISC = 0x100"
definition F_GETFL :: int where "F_GETFL = 3"
definition F_SETFL :: int where "F_SETFL = 4"
definition O_NONBLOCK :: int where "O_NONBLOCK = 0x800"

text \<open>
  The system calls: \<^verbatim>\<open>socket\<close>, \<^verbatim>\<open>ioctl\<close> with a request on an \<^verbatim>\<open>ifreq\<close> and on a
  long, and \<^verbatim>\<open>fcntl\<close>. Each gives the new kernel state and the return value.
\<close>

record 'k os =
  os_socket :: "'k \<Rightarrow> int \<Rightarrow> int \<Rightarrow> u16 \<Rightarrow> 'k \<times> int"
  os_ioctl :: "'k \<Rightarrow> int \<Rightarrow> u32 \<Rightarrow> ifreq \<Rightarrow> 'k \<times> ifreq \<times> int"
  os_ioctl_long :: "'k \<Rightarrow> int \<Rightarrow> u32 \<Rightarrow> u64 \<Rightarrow> 'k \<times> int"
  os_fcntl :: "'k \<Rightarrow> int \<Rightarrow> int \<Rightarrow> int \<Rightarrow> 'k \<times> int"

section \<open>State\<close>

text \<open>\<^verbatim>\<open>handles\<close> are the allocated \<^verbatim>\<open>eth_handle\<close>s, \<open>console\<close> is what was printed.\<close>

record eth_handle =
  eh_fd :: int

record 'k host =
  kern :: 'k
  g_netif_index :: int
  handles :: "ptr \<rightharpoonup> eth_handle"
  console :: printed

definition print :: "'k host \<Rightarrow> printed \<Rightarrow> 'k host" where
  "print s out = s\<lparr>console := console s @ out\<rparr>"

section \<open>Operations\<close>

text \<open>\<^verbatim>\<open>strncpy\<close>: at most \<open>n\<close> bytes of the string, filled up with NULs.\<close>

definition strncpy :: "u8 list \<Rightarrow> nat \<Rightarrow> u8 list" where
  "strncpy s n = take n (s @ replicate n 0)"

definition IFNAMSIZ :: nat where "IFNAMSIZ = 16"

definition NETIF_NAME :: "u8 list" where
  "NETIF_NAME = bytes_of ''docker0''"

text \<open>
  \<^verbatim>\<open>active_dev\<close>: what is stored through \<^verbatim>\<open>index\<close> is the second part of the result, the
  old value when nothing is stored. The result of the third \<^verbatim>\<open>ioctl\<close> is not looked at.
\<close>

definition active_dev :: "'k os \<Rightarrow> 'k host \<Rightarrow> int \<Rightarrow> u8 list \<Rightarrow> int \<Rightarrow> ('k host \<times> int \<times> int) res" where
  "active_dev os s sockFd dev index =
     (let req = \<lparr>ifr_name = strncpy dev IFNAMSIZ, ifr_ifru = 0\<rparr>;
          (k, req, ret) = os_ioctl os (kern s) sockFd SIOCGIFFLAGS req;
          s = s\<lparr>kern := k\<rparr> in
      if ret = -1 then Inr (s, index, -1)
      else
        let req = set_ifr_flags req (ifr_flags req OR IFF_UP);
            req = set_ifr_flags req (ifr_flags req OR IFF_PROMISC);
            (k, req, ret) = os_ioctl os (kern s) sockFd SIOCSIFFLAGS req;
            s = s\<lparr>kern := k\<rparr> in
        if ret = -1 then Inr (s, index, -1)
        else
          let (k, req, ret) = os_ioctl os (kern s) sockFd SIOCGIFINDEX req;
              s = s\<lparr>kern := k\<rparr> in
          bindR (c_str (ifr_name req) 0) (\<lambda>name.
          let s = print s [(''****   if name %s, if index %d   *****'', [Str name, Num (ifr_ifindex req)])];
              index = ifr_ifindex req in
          Inr (s, index, 0)))"

definition send_via_dev :: "int \<Rightarrow> u8 list \<Rightarrow> int \<Rightarrow> int" where
  "send_via_dev sockFd data len = 0"

definition creat_sock :: "'k os \<Rightarrow> 'k host \<Rightarrow> ('k host \<times> int) res" where
  "creat_sock os s =
     (let (k, fd) = os_socket os (kern s) PF_PACKET SOCK_RAW (ntohs ETH_P_ALL);
          s = s\<lparr>kern := k\<rparr> in
      bindR (if fd < 0 then Inr (print s [(''ethernet:cant get SOCK_PACKET socket'', [])])
             else bindR (active_dev os s fd NETIF_NAME (g_netif_index s)) (\<lambda>(s, index, ret).
                  Inr (s\<lparr>g_netif_index := index\<rparr>))) (\<lambda>s.
      let s = print s [(''**** NETIF_NAME %s, g_netif_index %d   *****'', [Str NETIF_NAME, Num (g_netif_index s)])] in
      Inr (s, fd)))"

definition set_sock_nonblock :: "'k os \<Rightarrow> 'k host \<Rightarrow> int \<Rightarrow> 'k host" where
  "set_sock_nonblock os s sockFd =
     (let (k, flags) = os_fcntl os (kern s) sockFd F_GETFL 0;
          s = print (s\<lparr>kern := k\<rparr>) [(''ethernet get flag is %08x'', [Num flags])];
          (k, ret) = os_fcntl os (kern s) sockFd F_SETFL (flags OR O_NONBLOCK);
          s = print (s\<lparr>kern := k\<rparr>) [(''ethernet set flag is %08x'', [Num flags])];
          has = 1;
          (k, ret) = os_ioctl_long os (kern s) sockFd FIONBIO has in
      s\<lparr>kern := k\<rparr>)"

section \<open>The requests on an interface\<close>

text \<open>
  netdevice(7): each request names an interface and fails with -1 when there is none;
  SIOCGIFFLAGS gives its flags, SIOCSIFFLAGS sets them, which takes a privilege, and
  SIOCGIFINDEX gives its index. \<open>flags\<close>, \<open>index\<close> and \<open>priv\<close> are views of the kernel state;
  the name is the field of 16 bytes.
\<close>

definition netdevice :: "'k os \<Rightarrow> ('k \<Rightarrow> u8 list \<Rightarrow> u16 option) \<Rightarrow> (u8 list \<Rightarrow> int) \<Rightarrow> ('k \<Rightarrow> bool) \<Rightarrow> bool" where
  "netdevice os flags index priv \<longleftrightarrow>
     (\<forall>k fd req.
        os_ioctl os k fd SIOCGIFFLAGS req =
          (case flags k (ifr_name req) of None \<Rightarrow> (k, req, -1) | Some f \<Rightarrow> (k, set_ifr_flags req f, 0)) \<and>
        os_ioctl os k fd SIOCGIFINDEX req =
          (case flags k (ifr_name req) of None \<Rightarrow> (k, req, -1)
           | Some f \<Rightarrow> (k, set_ifr_ifindex req (index (ifr_name req)), 0)) \<and>
        (if flags k (ifr_name req) = None \<or> \<not> priv k
         then os_ioctl os k fd SIOCSIFFLAGS req = (k, req, -1)
         else \<exists>k'. os_ioctl os k fd SIOCSIFFLAGS req = (k', req, 0) \<and>
           flags k' = (flags k)(ifr_name req \<mapsto> ifr_flags req)))"

lemma ifreq_flags [simp]:
  "ifr_flags (set_ifr_flags r f) = f" "ifr_name (set_ifr_flags r f) = ifr_name r"
  "ifr_name (set_ifr_ifindex r i) = ifr_name r"
proof -
  show "ifr_flags (set_ifr_flags r f) = f"
    by (rule bit_word_eqI)
      (simp add: ifr_flags_def set_ifr_flags_def bit_word_cat_iff bit_ucast_iff)
qed (simp_all add: set_ifr_flags_def set_ifr_ifindex_def)

lemma set_ifr_flags_twice [simp]: "set_ifr_flags (set_ifr_flags r f) g = set_ifr_flags r g"
proof -
  have "drop_bit 16 (word_cat (ucast (drop_bit 16 w) :: u16) f :: u32) = drop_bit 16 w" for w :: u32
    by (rule bit_word_eqI) (auto simp: bit_drop_bit_eq bit_word_cat_iff bit_ucast_iff dest: bit_imp_le_length)
  then show ?thesis by (simp add: set_ifr_flags_def)
qed

lemma ifindex_value: "INT_MIN \<le> i \<Longrightarrow> i \<le> INT_MAX \<Longrightarrow> ifr_ifindex (set_ifr_ifindex r i) = i"
  by (simp add: ifr_ifindex_def set_ifr_ifindex_def INT_MIN_def INT_MAX_def sint_sbintrunc' signed_take_bit_int_eq_self_iff)

text \<open>The name of the interface as it stands in the \<^verbatim>\<open>ifreq\<close>.\<close>

definition capture_if :: "u8 list" where
  "capture_if = strncpy NETIF_NAME IFNAMSIZ"

lemma capture_if_str: "c_str capture_if 0 = Inr NETIF_NAME"
  by code_simp

text \<open>The three requests of \<^verbatim>\<open>active_dev\<close> on the capture interface.\<close>

lemma netdevice_get:
  "netdevice os flags index priv \<Longrightarrow> os_ioctl os k fd SIOCGIFFLAGS req =
     (case flags k (ifr_name req) of None \<Rightarrow> (k, req, -1) | Some f \<Rightarrow> (k, set_ifr_flags req f, 0))"
  unfolding netdevice_def by blast

lemma netdevice_index:
  "netdevice os flags index priv \<Longrightarrow> flags k (ifr_name req) = Some f \<Longrightarrow>
   os_ioctl os k fd SIOCGIFINDEX req = (k, set_ifr_ifindex req (index (ifr_name req)), 0)"
  unfolding netdevice_def by simp

lemma netdevice_set:
  "netdevice os flags index priv \<Longrightarrow>
   if flags k (ifr_name req) = None \<or> \<not> priv k
   then os_ioctl os k fd SIOCSIFFLAGS req = (k, req, -1)
   else \<exists>k'. os_ioctl os k fd SIOCSIFFLAGS req = (k', req, 0) \<and> flags k' = (flags k)(ifr_name req \<mapsto> ifr_flags req)"
  unfolding netdevice_def by blast

lemma active_dev_fails:
  assumes os: "netdevice os flags index priv" and "flags (kern s) capture_if = None \<or> \<not> priv (kern s)"
  shows "active_dev os s fd NETIF_NAME i = Inr (s, i, -1)"
proof (cases "flags (kern s) capture_if")
  case None
  then show ?thesis
    by (simp add: active_dev_def netdevice_get [OF os] Let_def flip: capture_if_def)
next
  case (Some f)
  with assms(2) have "\<not> priv (kern s)" by simp
  with Some netdevice_set [OF os, of "kern s"] show ?thesis
    by (simp add: active_dev_def netdevice_get [OF os] Let_def flip: capture_if_def)
qed

lemma active_dev_succeeds:
  assumes os: "netdevice os flags index priv" and f: "flags (kern s) capture_if = Some f" and p: "priv (kern s)"
    and i: "INT_MIN \<le> index capture_if" "index capture_if \<le> INT_MAX"
  shows "\<exists>s'. active_dev os s fd NETIF_NAME i = Inr (s', index capture_if, 0) \<and>
    flags (kern s') = (flags (kern s))(capture_if \<mapsto> f OR IFF_UP OR IFF_PROMISC) \<and> handles s' = handles s \<and>
    g_netif_index s' = g_netif_index s"
proof -
  define r where "r = set_ifr_flags \<lparr>ifr_name = capture_if, ifr_ifru = 0\<rparr> f"
  define r' where "r' = set_ifr_flags r (f OR IFF_UP OR IFF_PROMISC)"
  have r: "ifr_name r = capture_if" "ifr_flags r = f" "ifr_name r' = capture_if" "ifr_flags r' = f OR IFF_UP OR IFF_PROMISC"
    by (simp_all add: r_def r'_def)
  from netdevice_set [OF os, of "kern s" r' fd] f p r obtain k'
    where k': "os_ioctl os (kern s) fd SIOCSIFFLAGS r' = (k', r', 0)"
      "flags k' = (flags (kern s))(capture_if \<mapsto> f OR IFF_UP OR IFF_PROMISC)" by auto
  have "os_ioctl os k' fd SIOCGIFINDEX r' = (k', set_ifr_ifindex r' (index capture_if), 0)"
    using netdevice_index [OF os, of k' r'] k'(2) r(3) by simp
  moreover have "os_ioctl os (kern s) fd SIOCGIFFLAGS \<lparr>ifr_name = capture_if, ifr_ifru = 0\<rparr> = (kern s, r, 0)"
    using netdevice_get [OF os] f by (simp add: r_def)
  ultimately show ?thesis using k' r i
    by (simp add: active_dev_def Let_def or.assoc r'_def [symmetric] print_def capture_if_str ifindex_value flip: capture_if_def)
qed

lemma creat_sock_run:
  assumes os: "netdevice os flags index priv" and i: "INT_MIN \<le> index capture_if" "index capture_if \<le> INT_MAX"
    and sock: "os_socket os (kern s) PF_PACKET SOCK_RAW (ntohs ETH_P_ALL) = (k, fd)"
  shows "\<exists>s'. creat_sock os s = Inr (s', fd) \<and> handles s' = handles s \<and>
    (if 0 \<le> fd \<and> flags k capture_if \<noteq> None \<and> priv k
     then g_netif_index s' = index capture_if \<and>
       flags (kern s') = (flags k)(capture_if \<mapsto> the (flags k capture_if) OR IFF_UP OR IFF_PROMISC)
     else kern s' = k \<and> g_netif_index s' = g_netif_index s)"
proof -
  let ?s = "s\<lparr>kern := k\<rparr>"
  consider "fd < 0" | "0 \<le> fd" "flags k capture_if = None \<or> \<not> priv k"
    | f where "0 \<le> fd" "flags k capture_if = Some f" "priv k" by fastforce
  then show ?thesis
  proof cases
    case 1
    then show ?thesis by (simp add: creat_sock_def sock print_def Let_def)
  next
    case 2
    with active_dev_fails [OF os, of ?s fd] show ?thesis by (auto simp: creat_sock_def sock print_def Let_def)
  next
    case 3
    then have "flags (kern ?s) capture_if = Some f" "priv (kern ?s)" by simp_all
    from active_dev_succeeds [OF os this i, of fd "g_netif_index s"] obtain s'
      where "active_dev os ?s fd NETIF_NAME (g_netif_index s) = Inr (s', index capture_if, 0)"
        "flags (kern s') = (flags k)(capture_if \<mapsto> f OR IFF_UP OR IFF_PROMISC)" "handles s' = handles s" by auto
    with 3 show ?thesis by (simp add: creat_sock_def sock print_def Let_def)
  qed
qed

section \<open>Properties\<close>

text \<open>A machine with an interface eth0 and the interface docker0, of index 7, and a process that may set their flags.\<close>

definition ex_os :: "(u8 list \<Rightarrow> u16 option) os" where
  "ex_os = \<lparr>os_socket = (\<lambda>k d t p. (k, 5)),
     os_ioctl = (\<lambda>k fd r req. case k (ifr_name req) of
         None \<Rightarrow> (k, req, -1)
       | Some f \<Rightarrow> if r = SIOCGIFFLAGS then (k, set_ifr_flags req f, 0)
           else if r = SIOCSIFFLAGS then (k(ifr_name req \<mapsto> ifr_flags req), req, 0)
           else (k, set_ifr_ifindex req 7, 0)),
     os_ioctl_long = (\<lambda>k fd r n. (k, 0)), os_fcntl = (\<lambda>k fd c n. (k, 0))\<rparr>"

definition ex_host :: "(u8 list \<Rightarrow> u16 option) host" where
  "ex_host = \<lparr>kern = [capture_if \<mapsto> 0x1002, strncpy (bytes_of ''eth0'') IFNAMSIZ \<mapsto> 0x1003], g_netif_index = 0,
     handles = Map.empty, console = []\<rparr>"

lemma ex_os_netdevice: "netdevice ex_os (\<lambda>k. k) (\<lambda>_. 7) (\<lambda>_. True)"
  by (simp add: netdevice_def ex_os_def SIOCGIFFLAGS_def SIOCSIFFLAGS_def SIOCGIFINDEX_def split: option.splits)



text \<open>
  What is reported when the third request fails: the index is read out of the union that
  still holds the flags.
\<close>

lemma active_dev_reports_flags:
  assumes "\<And>k req. os_ioctl os k fd SIOCGIFFLAGS req = (k, set_ifr_flags req f, 0)"
    and "\<And>k req. os_ioctl os k fd SIOCSIFFLAGS req = (k, req, 0)"
    and "\<And>k req. os_ioctl os k fd SIOCGIFINDEX req = (k, req, -1)"
  shows "\<exists>s'. active_dev os s fd NETIF_NAME i = Inr (s', uint (f OR IFF_UP OR IFF_PROMISC), 0)"
proof -
  have "ifr_ifindex (set_ifr_flags \<lparr>ifr_name = n, ifr_ifru = 0\<rparr> g) = uint g" for n and g :: u16
  proof -
    have "word_cat (0 :: u16) g = (ucast g :: u32)" by (rule bit_word_eqI) (auto simp: bit_word_cat_iff bit_ucast_iff)
    moreover have "signed_take_bit 31 (uint g) = uint g"
      using uint_lt2p [of g] by (simp add: signed_take_bit_int_eq_self_iff order.trans [OF _ uint_ge_0])
    then have "sint (ucast g :: u32) = uint g" by (simp add: sint_uint uint_up_ucast is_up)
    ultimately show ?thesis by (simp add: ifr_ifindex_def set_ifr_flags_def)
  qed
  then show ?thesis
    by (simp add: active_dev_def assms Let_def capture_if_str or.assoc flip: capture_if_def)
qed

end
