(* ===== verification/Session.thy ===== *)
theory Session
  imports Transition
begin

text \<open>
  The session table of \<^verbatim>\<open>src/src/session.c\<close>: 32 sessions, looked up by the two
  endpoints of a TCP flow, with the direction of the packet deciding which endpoint is
  the client. A pointer to a session is its index in the table. The two readings of the
  clock are arguments.
\<close>

section \<open>State\<close>

definition REQUEST :: int where "REQUEST = 0"
definition RESPONSE :: int where "RESPONSE = 1"

definition MAX_SESS_NODE :: nat where "MAX_SESS_NODE = 32"

definition STAT_CLOSE :: int where "STAT_CLOSE = 0"
definition STAT_INIT :: int where "STAT_INIT = 1"
definition STAT_CONNECT :: int where "STAT_CONNECT = 2"
definition STAT_RESEND :: int where "STAT_RESEND = 3"
definition STAT_ACCEPT :: int where "STAT_ACCEPT = 4"
definition STAT_REFUSE :: int where "STAT_REFUSE = 5"
definition STAT_DATA :: int where "STAT_DATA = 6"

definition stat_loging_in :: int where "stat_loging_in = 16"
definition stat_login_failed :: int where "stat_login_failed = 32"
definition stat_login_success :: int where "stat_login_success = 48"

lemmas stat_defs = STAT_CLOSE_def STAT_INIT_def STAT_CONNECT_def STAT_RESEND_def STAT_ACCEPT_def
  STAT_REFUSE_def STAT_DATA_def stat_loging_in_def stat_login_failed_def stat_login_success_def

record sess_key =
  sip :: u32
  dip :: u32
  sport :: u16
  dport :: u16

record tns_session =
  sess_list :: "ptr \<times> ptr"
  key :: sess_key
  version :: u16
  version_compatible :: u16
  state :: int
  cur_dir :: int
  update_time :: u64
  cur_sess_desc :: "u8 list"

text \<open>What \<^verbatim>\<open>memset\<close> with 0 leaves in a session.\<close>

definition zero_key :: sess_key where
  "zero_key = \<lparr>sip = 0, dip = 0, sport = 0, dport = 0\<rparr>"

definition zero_session :: tns_session where
  "zero_session = \<lparr>sess_list = (NULL, NULL), key = zero_key, version = 0, version_compatible = 0,
     state = 0, cur_dir = 0, update_time = 0, cur_sess_desc = replicate 64 0\<rparr>"

type_synonym table = "tns_session list"

definition table_at :: "table \<Rightarrow> nat \<Rightarrow> tns_session res" where
  "table_at t i = (if i < length t then Inr (t ! i) else Inl OutOfBounds)"

definition table_set :: "table \<Rightarrow> nat \<Rightarrow> tns_session \<Rightarrow> table res" where
  "table_set t i s = (if i < length t then Inr (t[i := s]) else Inl OutOfBounds)"

section \<open>Operations\<close>

text \<open>The key as the client sends it: a packet from the server has its endpoints swapped.\<close>

definition norm_key :: "sess_key \<Rightarrow> int \<Rightarrow> sess_key" where
  "norm_key k dir =
     (if REQUEST = dir then \<lparr>sip = sip k, dip = dip k, sport = sport k, dport = dport k\<rparr>
      else \<lparr>sip = dip k, dip = sip k, sport = dport k, dport = sport k\<rparr>)"

definition same_key :: "sess_key \<Rightarrow> sess_key \<Rightarrow> bool" where
  "same_key a b \<longleftrightarrow> sip a = sip b \<and> dip a = dip b \<and> sport a = sport b \<and> dport a = dport b"

text \<open>
  The first loop: the index of the first session with the key, its clock set; the bound
  when there is none.
\<close>

function find_loop :: "nat \<Rightarrow> sess_key \<Rightarrow> u64 \<Rightarrow> table \<Rightarrow> (nat \<times> table) res" where
  "find_loop i k now t =
     (if i < MAX_SESS_NODE then
        bindR (table_at t i) (\<lambda>tmp.
        if same_key (key tmp) k
        then bindR (table_set t i (tmp\<lparr>update_time := now\<rparr>)) (\<lambda>t. Inr (i, t))
        else find_loop (Suc i) k now t)
      else Inr (i, t))"
  by pat_completeness auto
termination by (relation "measure (\<lambda>(i, k, now, t). MAX_SESS_NODE - i)") auto

declare find_loop.simps [simp del]

text \<open>
  The second loop. The test for a closed session guards an empty statement (there is a
  semicolon after it), so the block that takes the slot and breaks runs for the first
  slot whatever its state; the search for the oldest session, \<open>oldest\<close>, comes after that
  break. \<open>Taken\<close> is the break.
\<close>

datatype alloc = Taken nat table | NotTaken nat

definition take_slot :: "nat \<Rightarrow> sess_key \<Rightarrow> table \<Rightarrow> table res" where
  "take_slot i k t =
     bindR (table_at t i) (\<lambda>tmp. table_set t i (tmp\<lparr>key := k, state := STAT_INIT\<rparr>))"

definition alloc_loop :: "sess_key \<Rightarrow> table \<Rightarrow> alloc res" where
  "alloc_loop k t =
     (let i = 0 in
      if i < MAX_SESS_NODE then
        bindR (table_at t i) (\<lambda>tmp.
        let _ = (if state tmp = STAT_CLOSE then () else ()) in
        bindR (take_slot i k t) (\<lambda>t. Inr (Taken i t)))
      else Inr (NotTaken i))"

text \<open>
  The last block, for a table in which the second loop took nothing: it clears the element
  one past the end before it looks at the oldest session.
\<close>

definition reset_oldest :: "nat \<Rightarrow> nat \<Rightarrow> sess_key \<Rightarrow> table \<Rightarrow> (table \<times> nat) res" where
  "reset_oldest i empty_node_index k t =
     bindR (table_set t i zero_session) (\<lambda>t.
     bindR (table_at t (i - 1)) (\<lambda>tmp.
     bindR (table_set t (i - 1) (tmp\<lparr>key := k\<rparr>)) (\<lambda>t.
     bindR (table_at t empty_node_index) (\<lambda>tmp.
     bindR (table_set t empty_node_index (tmp\<lparr>state := STAT_INIT\<rparr>)) (\<lambda>t.
     Inr (t, empty_node_index))))))"

definition sess_must_find_node :: "table \<Rightarrow> u64 \<Rightarrow> sess_key \<Rightarrow> int \<Rightarrow> (table \<times> nat) res" where
  "sess_must_find_node t now skey dir =
     (let k = norm_key skey dir in
      bindR (find_loop 0 k now t) (\<lambda>(i, t).
      if i \<noteq> MAX_SESS_NODE then Inr (t, i)
      else bindR (alloc_loop k t) (\<lambda>a.
        case a of
          Taken i t \<Rightarrow> Inr (t, i)
        | NotTaken i \<Rightarrow> reset_oldest i 0 k t)))"

function sess_init_loop :: "nat \<Rightarrow> table \<Rightarrow> table res" where
  "sess_init_loop i t =
     (if i < 32 then bindR (table_set t i zero_session) (\<lambda>t. sess_init_loop (Suc i) t) else Inr t)"
  by pat_completeness auto
termination by (relation "measure (\<lambda>(i, t). 32 - i)") auto

declare sess_init_loop.simps [simp del]

definition sess_init :: "table \<Rightarrow> (table \<times> int) res" where
  "sess_init t = bindR (sess_init_loop 0 t) (\<lambda>t. Inr (t, 0))"

section \<open>The loops\<close>

lemma same_key_iff: "same_key a b \<longleftrightarrow> a = b"
  by (cases a; cases b) (simp add: same_key_def)

definition holds_key :: "sess_key \<Rightarrow> table \<Rightarrow> nat \<Rightarrow> bool" where
  "holds_key k t i \<longleftrightarrow> i < length t \<and> key (t ! i) = k \<and> (\<forall>j < i. key (t ! j) \<noteq> k)"

definition no_key :: "sess_key \<Rightarrow> table \<Rightarrow> bool" where
  "no_key k t \<longleftrightarrow> (\<forall>s \<in> set t. key s \<noteq> k)"

lemma holds_key_unique: "holds_key k t i \<Longrightarrow> holds_key k t j \<Longrightarrow> i = j"
  unfolding holds_key_def by (metis linorder_neqE_nat)

lemma key_cases: "no_key k t \<or> (\<exists>i. holds_key k t i)"
proof (cases "no_key k t")
  case False
  then obtain i where "i < length t \<and> key (t ! i) = k" by (auto simp: no_key_def in_set_conv_nth)
  then have "\<exists>i. i < length t \<and> key (t ! i) = k" by blast
  then obtain i where i: "i < length t" "key (t ! i) = k" "\<forall>j<i. \<not> (j < length t \<and> key (t ! j) = k)"
    unfolding exists_least_iff [of "\<lambda>i. i < length t \<and> key (t ! i) = k"] by blast
  then have "holds_key k t i" unfolding holds_key_def by (meson less_trans)
  then show ?thesis by blast
qed simp

lemma find_loop_hit:
  assumes "length t = MAX_SESS_NODE" and "holds_key k t i" and "j \<le> i"
  shows "find_loop j k now t = Inr (i, t[i := (t ! i)\<lparr>update_time := now\<rparr>])"
  using assms(3)
proof (induction "i - j" arbitrary: j)
  case 0
  with assms show ?case
    by (subst find_loop.simps) (simp add: table_at_def table_set_def holds_key_def same_key_iff)
next
  case (Suc n)
  from Suc.hyps(1) [of "Suc j"] Suc.hyps(2) Suc.prems assms show ?case
    by (subst find_loop.simps) (simp add: table_at_def holds_key_def same_key_iff)
qed

lemma find_loop_miss:
  assumes "length t = MAX_SESS_NODE" and "no_key k t" and "j \<le> MAX_SESS_NODE"
  shows "find_loop j k now t = Inr (MAX_SESS_NODE, t)"
  using assms(3)
proof (induction "MAX_SESS_NODE - j" arbitrary: j)
  case 0
  with assms show ?case by (subst find_loop.simps) simp
next
  case (Suc n)
  then have "j < MAX_SESS_NODE" by simp
  with assms have "key (t ! j) \<noteq> k" by (auto simp: no_key_def)
  with Suc.hyps(1) [of "Suc j"] Suc.hyps(2) \<open>j < MAX_SESS_NODE\<close> assms show ?case
    by (subst find_loop.simps) (simp add: table_at_def same_key_iff)
qed

lemma alloc_loop_first:
  "length t = MAX_SESS_NODE \<Longrightarrow> alloc_loop k t = Inr (Taken 0 (t[0 := (t ! 0)\<lparr>key := k, state := STAT_INIT\<rparr>]))"
  by (simp add: alloc_loop_def take_slot_def table_at_def table_set_def MAX_SESS_NODE_def)

lemma sess_hit:
  assumes "length t = MAX_SESS_NODE" and "holds_key (norm_key sk dir) t i"
  shows "sess_must_find_node t now sk dir = Inr (t[i := (t ! i)\<lparr>update_time := now\<rparr>], i)"
  using find_loop_hit [OF assms, of 0 now] assms by (simp add: sess_must_find_node_def holds_key_def)

lemma sess_miss:
  assumes "length t = MAX_SESS_NODE" and "no_key (norm_key sk dir) t"
  shows "sess_must_find_node t now sk dir =
    Inr (t[0 := (t ! 0)\<lparr>key := norm_key sk dir, state := STAT_INIT\<rparr>], 0)"
  using find_loop_miss [OF assms, of 0 now] alloc_loop_first [OF assms(1)]
  by (simp add: sess_must_find_node_def)

lemma sess_init_loop_run:
  assumes "length t = 32" and "i \<le> 32"
  shows "sess_init_loop i t = Inr (take i t @ replicate (32 - i) zero_session)"
  using assms
proof (induction "32 - i" arbitrary: i t)
  case 0
  then show ?case by (subst sess_init_loop.simps) simp
next
  case (Suc n)
  then have i: "i < 32" by simp
  with Suc.hyps(1) [of "Suc i" "t[i := zero_session]"] Suc.hyps(2) Suc.prems
  have "sess_init_loop i t = Inr (take (Suc i) (t[i := zero_session]) @ replicate (32 - Suc i) zero_session)"
    by (subst sess_init_loop.simps) (simp add: table_set_def)
  moreover have "take (Suc i) (t[i := zero_session]) = take i t @ [zero_session]"
    using i Suc.prems by (simp add: take_Suc_conv_app_nth)
  moreover have "zero_session # replicate (32 - Suc i) zero_session = replicate (32 - i) zero_session"
    using i by (metis Suc_diff_Suc replicate_Suc)
  ultimately show ?case by simp
qed

lemma sess_init_run: "length t = 32 \<Longrightarrow> sess_init t = Inr (replicate 32 zero_session, 0)"
  by (simp add: sess_init_def sess_init_loop_run)

section \<open>The table over time\<close>

text \<open>
  One packet: its session is looked up and its handler then changes that session as it
  likes, except for the key.
\<close>

inductive sess_step :: "table \<Rightarrow> table \<Rightarrow> bool" where
  packet: "norm_key sk dir \<noteq> zero_key \<Longrightarrow> sess_must_find_node t now sk dir = Inr (t', i) \<Longrightarrow>
    key s = key (t' ! i) \<Longrightarrow> sess_step t (t'[i := s])"

definition sess_start :: "table \<Rightarrow> bool" where
  "sess_start t \<longleftrightarrow> (\<exists>t0. length t0 = MAX_SESS_NODE \<and> sess_init t0 = Inr (t, 0))"

definition one_session :: "table \<Rightarrow> bool" where
  "one_session t \<longleftrightarrow> length t = MAX_SESS_NODE \<and> (\<forall>i. 0 < i \<and> i < MAX_SESS_NODE \<longrightarrow> t ! i = zero_session)"

lemma one_session_lookup:
  assumes "one_session t" and "norm_key sk dir \<noteq> zero_key"
  shows "\<exists>s. sess_must_find_node t now sk dir = Inr (t[0 := s], 0) \<and> key s = norm_key sk dir"
  using key_cases [of "norm_key sk dir" t]
proof
  assume "no_key (norm_key sk dir) t"
  with assms show ?thesis by (auto simp: one_session_def sess_miss)
next
  assume "\<exists>i. holds_key (norm_key sk dir) t i"
  then obtain i where i: "holds_key (norm_key sk dir) t i" ..
  then have "i = 0" using assms
    by (cases i) (auto simp: holds_key_def one_session_def zero_session_def)
  with i assms sess_hit [OF _ i, of now] show ?thesis
    by (auto simp: one_session_def holds_key_def)
qed

lemma one_session_start: "sess_start t \<Longrightarrow> one_session t"
  by (auto simp: sess_start_def one_session_def sess_init_run MAX_SESS_NODE_def)

lemma one_session_step: "one_session t \<Longrightarrow> sess_step t u \<Longrightarrow> one_session u"
proof (erule sess_step.cases)
  fix sk dir t1 now t' i s
  assume "one_session t" "t = t1" "u = t'[i := s]" "norm_key sk dir \<noteq> zero_key"
    "sess_must_find_node t1 now sk dir = Inr (t', i)"
  with one_session_lookup [of t sk dir now] show "one_session u"
    by (auto simp: one_session_def)
qed

interpretation sess: safe_system sess_start sess_step one_session
  by unfold_locales (fact one_session_start, fact one_session_step)

text \<open>The client endpoint 10.0.0.1:1521 and the server endpoint 10.0.0.2:1521, and a table with that flow.\<close>

definition ex_key :: sess_key where
  "ex_key = \<lparr>sip = 0x0A000001, dip = 0x0A000002, sport = 0xA000, dport = 0x05F1\<rparr>"

definition swap_key :: "sess_key \<Rightarrow> sess_key" where
  "swap_key k = \<lparr>sip = dip k, dip = sip k, sport = dport k, dport = sport k\<rparr>"

definition ex_table :: table where
  "ex_table = (replicate 32 zero_session)[3 := zero_session\<lparr>key := ex_key, version := 313, state := 6\<rparr>]"

lemma ex_table_simps:
  "length ex_table = MAX_SESS_NODE" "holds_key ex_key ex_table 3"
  "ex_table ! 3 = zero_session\<lparr>key := ex_key, version := 313, state := 6\<rparr>" "ex_table ! 0 = zero_session"
  by (simp_all add: ex_table_def MAX_SESS_NODE_def holds_key_def nth_list_update zero_session_def
      zero_key_def ex_key_def)

text \<open>both directions of a flow find the same session: a packet of the server, whose endpoints
  are those of the client's packet swapped, gives the same table and the same session.\<close>
theorem sess_both_directions:
  assumes "dir \<noteq> REQUEST"
  shows "sess_must_find_node t now (swap_key k) dir = sess_must_find_node t now k REQUEST"
  using assms by (simp add: sess_must_find_node_def norm_key_def swap_key_def)

theorem sess_both_directions_witness:
  "sess_must_find_node ex_table 5 (swap_key ex_key) RESPONSE = sess_must_find_node ex_table 5 ex_key REQUEST"
  by (rule sess_both_directions) (simp add: RESPONSE_def REQUEST_def)

text \<open>sess_must_find_node never leaves the table and returns a session with the packet's key:
  the first one that has it, with nothing changed but its clock, and otherwise the first slot, whatever
  its state is and whichever slots are closed, with the key set, the state reset and every other field,
  the negotiated version too, left from the flow it belonged to.\<close>
theorem sess_must_find_node_branches:
  assumes "length t = MAX_SESS_NODE"
  shows "\<exists>t' i. sess_must_find_node t now sk dir = Inr (t', i) \<and> i < MAX_SESS_NODE \<and>
    length t' = MAX_SESS_NODE \<and> key (t' ! i) = norm_key sk dir \<and>
    (\<forall>j < MAX_SESS_NODE. j \<noteq> i \<longrightarrow> t' ! j = t ! j) \<and>
    (if no_key (norm_key sk dir) t
     then i = 0 \<and> t' ! 0 = (t ! 0)\<lparr>key := norm_key sk dir, state := STAT_INIT\<rparr>
     else holds_key (norm_key sk dir) t i \<and> t' ! i = (t ! i)\<lparr>update_time := now\<rparr>)"
proof (cases "no_key (norm_key sk dir) t")
  case True
  with sess_miss [OF assms True, of now] assms show ?thesis by (simp add: MAX_SESS_NODE_def)
next
  case False
  with key_cases obtain i where i: "holds_key (norm_key sk dir) t i" by blast
  with sess_hit [OF assms i, of now] assms False show ?thesis by (auto simp: holds_key_def)
qed

theorem sess_must_find_node_branches_witness:
  "\<exists>t' i. sess_must_find_node ex_table 9 (ex_key\<lparr>sport := 1\<rparr>) REQUEST = Inr (t', i) \<and> i < MAX_SESS_NODE \<and>
    length t' = MAX_SESS_NODE \<and> key (t' ! i) = norm_key (ex_key\<lparr>sport := 1\<rparr>) REQUEST \<and>
    (\<forall>j < MAX_SESS_NODE. j \<noteq> i \<longrightarrow> t' ! j = ex_table ! j) \<and>
    (if no_key (norm_key (ex_key\<lparr>sport := 1\<rparr>) REQUEST) ex_table
     then i = 0 \<and> t' ! 0 = (ex_table ! 0)\<lparr>key := norm_key (ex_key\<lparr>sport := 1\<rparr>) REQUEST, state := STAT_INIT\<rparr>
     else holds_key (norm_key (ex_key\<lparr>sport := 1\<rparr>) REQUEST) ex_table i \<and>
       t' ! i = (ex_table ! i)\<lparr>update_time := 9\<rparr>)"
  by (rule sess_must_find_node_branches [OF ex_table_simps(1)])



end
