(* ===== verification/ConnectData.thy ===== *)
theory ConnectData
  imports Bytes
begin

text \<open>
  The two text scanners of \<^verbatim>\<open>src/src/oracle_tns.c\<close>: the conversion of a connect
  descriptor, nested groups \<^verbatim>\<open>(NAME=value)\<close>, to JSON text, and the search for the
  longest run of visible characters. The output buffer is an object of its own that
  \<^verbatim>\<open>strcat\<close> can overrun.
\<close>

section \<open>Appending to a buffer\<close>

definition strcat :: "u8 list \<Rightarrow> u8 list \<Rightarrow> u8 list res" where
  "strcat out s =
     bindR (strlen out 0) (\<lambda>n.
     if n + length s < length out
     then Inr (take n out @ s @ [0] @ drop (n + length s + 1) out)
     else Inl OutOfBounds)"

text \<open>\<^verbatim>\<open>strncat (q, p, 1)\<close>: one character, or none if it is NUL.\<close>

definition strncat1 :: "u8 list \<Rightarrow> u8 \<Rightarrow> u8 list res" where
  "strncat1 out c = strcat out (if c = 0 then [] else [c])"

text \<open>A cleared buffer of \<open>cap\<close> bytes into which \<open>s\<close> was appended.\<close>

definition filled :: "nat \<Rightarrow> u8 list \<Rightarrow> u8 list" where
  "filled cap s = s @ replicate (cap - length s) 0"

lemma strlen_filled:
  assumes "0 \<notin> set s" and "length s < cap"
  shows "strlen (filled cap s) 0 = Inr (length s)"
proof -
  from assms(2) obtain k where "cap - length s = Suc k" by (metis Suc_diff_Suc)
  then have "filled cap s = s @ 0 # replicate k 0" by (simp add: filled_def)
  with c_str_append [OF assms(1)] show ?thesis by (simp add: strlen_def)
qed

lemma strcat_filled:
  assumes "0 \<notin> set s" and "length s < cap"
  shows "strcat (filled cap s) t =
    (if length s + length t < cap then Inr (filled cap (s @ t)) else Inl OutOfBounds)"
proof -
  have len: "length (filled cap s) = cap" using assms(2) by (simp add: filled_def)
  moreover have "take (length s) (filled cap s) @ t @ [0] @ drop (length s + length t + 1) (filled cap s) =
      filled cap (s @ t)" if "length s + length t < cap"
  proof -
    from that obtain k where k: "cap = length s + length t + Suc k"
      by (metis add_Suc_right less_iff_Suc_add)
    then show ?thesis by (simp add: filled_def)
  qed
  ultimately show ?thesis
    using strlen_filled [OF assms] by (simp add: strcat_def)
qed

section \<open>The conversion\<close>

abbreviation LPAREN :: u8 where "LPAREN \<equiv> 0x28"
abbreviation RPAREN :: u8 where "RPAREN \<equiv> 0x29"
abbreviation EQUALS :: u8 where "EQUALS \<equiv> 0x3D"
abbreviation QUOTE :: u8 where "QUOTE \<equiv> 0x22"
abbreviation COLON :: u8 where "COLON \<equiv> 0x3A"
abbreviation COMMA :: u8 where "COMMA \<equiv> 0x2C"
abbreviation LBRACE :: u8 where "LBRACE \<equiv> 0x7B"
abbreviation RBRACE :: u8 where "RBRACE \<equiv> 0x7D"

text \<open>The switch on one character; \<open>p\<close> is the offset of the text in the object \<open>m\<close>.\<close>

definition conv_char :: "u8 list \<Rightarrow> nat \<Rightarrow> u8 list \<Rightarrow> u8 list res" where
  "conv_char m k out =
     bindR (rd8 m k) (\<lambda>c.
     if c = LPAREN then
       bindR (rd8 m (k - 1)) (\<lambda>b.
       if b = RPAREN then Inr out else strcat out [LBRACE, QUOTE])
     else if c = EQUALS then
       bindR (rd8 m (k + 1)) (\<lambda>d.
       if d = LPAREN then strcat out [QUOTE, COLON] else strcat out [QUOTE, COLON, QUOTE])
     else if c = RPAREN then
       bindR (rd8 m (k + 1)) (\<lambda>d.
       bindR (rd8 m (k - 1)) (\<lambda>b.
       if d = LPAREN then
         if b = RPAREN then strcat out [COMMA, QUOTE] else strcat out [QUOTE, COMMA, QUOTE]
       else if b = RPAREN then strcat out [RBRACE] else strcat out [QUOTE, RBRACE]))
     else strncat1 out c)"

text \<open>
  The loop over the text after its first character. The write position \<open>q\<close> never moves, so
  the test that should keep the output inside the buffer is a test of the buffer's size.
\<close>

function conv_loop :: "u8 list \<Rightarrow> nat \<Rightarrow> nat \<Rightarrow> int \<Rightarrow> int \<Rightarrow> u8 list \<Rightarrow> (nat \<times> u8 list) res" where
  "conv_loop m p i inlen outlen out =
     (if int i < inlen - 2 then
        bindR (if 0 + 2 < outlen then conv_char m (p + i) out else Inr out) (\<lambda>out.
        conv_loop m p (Suc i) inlen outlen out)
      else Inr (i, out))"
  by pat_completeness auto
termination by (relation "measure (\<lambda>(m, p, i, inlen, outlen, out). nat (inlen - 2) - i)") auto

declare conv_loop.simps [simp del]

text \<open>
  \<^verbatim>\<open>parse_connect_data_to_json (bufin, inlen, bufout, &outlen)\<close> with the text at the
  offset \<open>bufin\<close> of \<open>m\<close>: the buffer, the new \<^verbatim>\<open>*outlen\<close> and the result. Neither
  pointer is NULL here, so the first test of the code does not apply.
\<close>

definition parse_connect_data_to_json ::
  "u8 list \<Rightarrow> nat \<Rightarrow> int \<Rightarrow> u8 list \<Rightarrow> int \<Rightarrow> (u8 list \<times> int \<times> int) res" where
  "parse_connect_data_to_json m bufin inlen bufout outlen =
     (if length bufout < nat outlen then Inl OutOfBounds
      else
        let out = replicate (nat outlen) 0 @ drop (nat outlen) bufout in
        bindR (rd8 m bufin) (\<lambda>c.
        if c \<noteq> LPAREN then Inr (out, outlen, -2)
        else bindR (strcat out [LBRACE, QUOTE]) (\<lambda>out.
        let p = bufin + 1 in
        bindR (conv_loop m p 0 inlen outlen out) (\<lambda>(i, out).
        bindR (rd8 m (p + i)) (\<lambda>c.
        if c \<noteq> RPAREN then Inr (out, outlen, -2)
        else bindR (rd8 m (p + i - 1)) (\<lambda>b.
        bindR (if b = RPAREN then strcat out [RBRACE] else strcat out [QUOTE, RBRACE]) (\<lambda>out.
        bindR (strlen out 0) (\<lambda>n. Inr (out, int n + 1, 0)))))))))"

section \<open>What the conversion writes\<close>

text \<open>One character is rewritten according to its two neighbours.\<close>

definition conv :: "u8 \<Rightarrow> u8 \<Rightarrow> u8 \<Rightarrow> u8 list" where
  "conv b c d =
     (if c = LPAREN then (if b = RPAREN then [] else [LBRACE, QUOTE])
      else if c = EQUALS then (if d = LPAREN then [QUOTE, COLON] else [QUOTE, COLON, QUOTE])
      else if c = RPAREN then
        (if d = LPAREN then (if b = RPAREN then [COMMA, QUOTE] else [QUOTE, COMMA, QUOTE])
         else if b = RPAREN then [RBRACE] else [QUOTE, RBRACE])
      else if c = 0 then [] else [c])"

fun convs :: "u8 \<Rightarrow> u8 list \<Rightarrow> u8 \<Rightarrow> u8 list" where
  "convs b [] d = []"
| "convs b (c # cs) d = conv b c (hd (cs @ [d])) @ convs c cs d"

lemma convs_append: "convs b (xs @ ys) d = convs b xs (hd (ys @ [d])) @ convs (last (b # xs)) ys d"
  by (induction xs arbitrary: b) (auto simp: hd_append)

lemma conv_no_nul: "0 \<notin> set (conv b c d)"
  by (simp add: conv_def)

lemma convs_no_nul: "0 \<notin> set (convs b cs d)"
  by (induction cs arbitrary: b) (auto simp: conv_no_nul)

lemma conv_char_run:
  assumes "0 < k" and "k + 1 < length m" and "0 \<notin> set s" and "length s < cap"
  shows "conv_char m k (filled cap s) =
    (let t = conv (m ! (k - 1)) (m ! k) (m ! (k + 1)) in
     if length s + length t < cap then Inr (filled cap (s @ t)) else Inl OutOfBounds)"
  using assms by (simp add: conv_char_def conv_def strncat1_def strcat_filled Let_def)

lemma take_drop_Suc: "j < length m \<Longrightarrow> take (Suc k) (drop j m) = m ! j # take k (drop (Suc j) m)"
  by (metis Cons_nth_drop_Suc take_Suc_Cons)

lemma hd_take_drop:
  "j + k < length m \<Longrightarrow> hd (take k (drop j m) @ [m ! (j + k)]) = m ! j"
  by (cases k) (simp_all add: take_drop_Suc)

lemma conv_loop_run:
  assumes "0 < p" and "p + k + i < length m" and "int (i + k) = inlen - 2" and "2 < outlen"
    and "0 \<notin> set s" and "length s < cap"
  shows "conv_loop m p i inlen outlen (filled cap s) =
    (let t = convs (m ! (p + i - 1)) (take k (drop (p + i) m)) (m ! (p + i + k)) in
     if length s + length t < cap then Inr (i + k, filled cap (s @ t)) else Inl OutOfBounds)"
  using assms
proof (induction k arbitrary: i s)
  case 0
  then show ?case by (subst conv_loop.simps) simp
next
  case (Suc k)
  let ?c = "conv (m ! (p + i - 1)) (m ! (p + i)) (m ! (p + i + 1))"
  have step: "conv_loop m p i inlen outlen (filled cap s) =
      bindR (if length s + length ?c < cap then Inr (filled cap (s @ ?c)) else Inl OutOfBounds)
        (conv_loop m p (Suc i) inlen outlen)"
    using Suc.prems conv_char_run [of "p + i" m s cap]
    by (subst conv_loop.simps) (simp add: Let_def add.assoc)
  have split: "convs (m ! (p + i - 1)) (take (Suc k) (drop (p + i) m)) (m ! (p + i + Suc k)) =
      ?c @ convs (m ! (p + i)) (take k (drop (p + Suc i) m)) (m ! (p + Suc i + k))"
    using Suc.prems hd_take_drop [of "p + Suc i" k m] by (simp add: take_drop_Suc)
  show ?case
  proof (cases "length s + length ?c < cap")
    case False
    then show ?thesis unfolding step split Let_def by simp
  next
    case True
    have "0 \<notin> set (s @ ?c)" using Suc.prems(5) by (simp add: conv_no_nul)
    from Suc.IH [of "Suc i" "s @ ?c", OF _ _ _ _ this] True Suc.prems show ?thesis
      unfolding step split Let_def by (simp add: add.assoc)
  qed
qed

lemma length_filled [simp]: "length s \<le> cap \<Longrightarrow> length (filled cap s) = cap"
  by (simp add: filled_def)

lemma parse_connect_steps:
  assumes "m ! bufin = LPAREN" and "bufin < length m" and "length out = cap" and "2 < cap"
    and loop: "conv_loop m (bufin + 1) 0 inlen (int cap) (filled cap [LBRACE, QUOTE]) =
      (if 2 + length u < cap then Inr (k, filled cap ([LBRACE, QUOTE] @ u)) else Inl OutOfBounds)"
    and "bufin + 1 + k < length m" and "m ! (bufin + 1 + k) = RPAREN"
    and v: "v = (if m ! (bufin + k) = RPAREN then [RBRACE] else [QUOTE, RBRACE])" and "0 \<notin> set u"
  shows "parse_connect_data_to_json m bufin inlen out (int cap) =
    (let t = [LBRACE, QUOTE] @ u @ v in
     if length t < cap then Inr (filled cap t, int (length t) + 1, 0) else Inl OutOfBounds)"
proof -
  have out: "replicate (nat (int cap)) 0 @ drop (nat (int cap)) out = filled cap []"
    using assms(3) by (simp add: filled_def)
  have start: "strcat (filled cap []) [LBRACE, QUOTE] = Inr (filled cap [LBRACE, QUOTE])"
    using assms(4) by (simp add: strcat_filled)
  have last: "bindR (rd8 m (bufin + k)) (\<lambda>b. bindR (if b = RPAREN then strcat o1 [RBRACE] else strcat o1 [QUOTE, RBRACE]) f) =
      bindR (strcat o1 v) f" for o1 and f :: "u8 list \<Rightarrow> (u8 list \<times> int \<times> int) res"
    using assms(6) v by simp
  have nul: "0 \<notin> set ([LBRACE, QUOTE] @ u)" "0 \<notin> set ([LBRACE, QUOTE] @ u @ v)"
    using assms(9) v by auto
  have prev: "bufin + 1 + i - 1 = bufin + i" for i by simp
  have run: "parse_connect_data_to_json m bufin inlen out (int cap) =
      bindR (conv_loop m (bufin + 1) 0 inlen (int cap) (filled cap [LBRACE, QUOTE])) (\<lambda>(i, out).
      bindR (rd8 m (bufin + 1 + i)) (\<lambda>c. if c \<noteq> RPAREN then Inr (out, int cap, -2)
        else bindR (rd8 m (bufin + i)) (\<lambda>b.
        bindR (if b = RPAREN then strcat out [RBRACE] else strcat out [QUOTE, RBRACE]) (\<lambda>out.
        bindR (strlen out 0) (\<lambda>n. Inr (out, int n + 1, 0))))))"
    using assms(1-3) start
    unfolding parse_connect_data_to_json_def Let_def out prev by simp
  show ?thesis
  proof (cases "2 + length u < cap")
    case True
    then have "parse_connect_data_to_json m bufin inlen out (int cap) =
        bindR (strcat (filled cap ([LBRACE, QUOTE] @ u)) v) (\<lambda>out. bindR (strlen out 0) (\<lambda>n. Inr (out, int n + 1, 0)))"
      unfolding run loop using assms(6,7) last by simp
    also have "\<dots> = (let t = [LBRACE, QUOTE] @ u @ v in
        if length t < cap then Inr (filled cap t, int (length t) + 1, 0) else Inl OutOfBounds)"
      using strcat_filled [OF nul(1), of cap v] strlen_filled [OF nul(2), of cap] True by (simp add: Let_def)
    finally show ?thesis .
  next
    case False
    then show ?thesis unfolding run loop by (simp add: Let_def)
  qed
qed

lemma parse_connect_run:
  assumes "bufin + n \<le> length m" and "take n (drop bufin m) = LPAREN # mid @ [RPAREN]"
    and "length out = 2 * n"
  shows "parse_connect_data_to_json m bufin (int n) out (int (2 * n)) =
    (let t = convs 0 (LPAREN # mid @ [RPAREN]) 0 in
     if length t < 2 * n then Inr (filled (2 * n) t, int (length t) + 1, 0) else Inl OutOfBounds)"
proof -
  let ?t = "[LBRACE, QUOTE]" and ?u = "convs LPAREN mid RPAREN"
  define k where "k = length mid"
  from arg_cong [OF assms(2), of length] assms(1) have n: "n = k + 2" by (simp add: k_def min_def split: if_splits)
  have at: "m ! (bufin + j) = (LPAREN # mid @ [RPAREN]) ! j" if "j < n" for j
    using assms(1) that by (simp add: assms(2) [symmetric])
  have mid: "take k (drop (bufin + 1) m) = mid"
  proof -
    from arg_cong [OF assms(2), of "drop 1"] have "take (k + 1) (drop (bufin + 1) m) = mid @ [RPAREN]"
      using n by (simp add: drop_take)
    from arg_cong [OF this, of "take k"] show ?thesis by (simp add: k_def min_def)
  qed
  have first: "m ! bufin = LPAREN" and end1: "m ! (bufin + 1 + k) = RPAREN"
    using at [of 0] at [of "k + 1"] n by (simp_all add: nth_append k_def)
  have prev: "m ! (bufin + k) = last (LPAREN # mid)"
    using at [of k] n by (cases mid rule: rev_cases) (simp_all add: nth_append k_def)
  have whole: "convs 0 (LPAREN # mid @ [RPAREN]) 0 =
      ?t @ ?u @ (if last (LPAREN # mid) = RPAREN then [RBRACE] else [QUOTE, RBRACE])"
    by (simp add: convs_append conv_def)
  have loop: "conv_loop m (bufin + 1) 0 (int n) (int (2 * n)) (filled (2 * n) ?t) =
      (if 2 + length ?u < 2 * n then Inr (k, filled (2 * n) (?t @ ?u)) else Inl OutOfBounds)"
    using conv_loop_run [of "bufin + 1" k 0 m "int n" "int (2 * n)" ?t "2 * n"] assms(1) n first mid end1
    by (simp add: Let_def)
  show ?thesis unfolding whole
    by (rule parse_connect_steps [OF first _ assms(3) _ loop _ end1])
      (use assms(1) n prev in \<open>simp_all add: convs_no_nul\<close>)
qed

section \<open>Descriptors\<close>

text \<open>
  What the text stands for: a group has a name and either a value or groups. Its JSON
  counterpart is a member of an object.
\<close>

datatype descr = Leaf "u8 list" "u8 list" | Group "u8 list" "descr list"

fun descr_text :: "descr \<Rightarrow> u8 list" where
  "descr_text (Leaf n v) = LPAREN # n @ EQUALS # v @ [RPAREN]"
| "descr_text (Group n ts) = LPAREN # n @ EQUALS # concat (map descr_text ts) @ [RPAREN]"

fun commas :: "u8 list list \<Rightarrow> u8 list" where
  "commas [] = []"
| "commas [j] = j"
| "commas (j # js) = j @ COMMA # commas js"

definition json_object :: "u8 list list \<Rightarrow> u8 list" where
  "json_object js = LBRACE # commas js @ [RBRACE]"

fun json_member :: "descr \<Rightarrow> u8 list" where
  "json_member (Leaf n v) = QUOTE # n @ [QUOTE, COLON, QUOTE] @ v @ [QUOTE]"
| "json_member (Group n ts) = QUOTE # n @ [QUOTE, COLON] @ json_object (map json_member ts)"

definition plain :: "u8 list \<Rightarrow> bool" where
  "plain s \<longleftrightarrow> (\<forall>c \<in> set s. c \<noteq> LPAREN \<and> c \<noteq> RPAREN \<and> c \<noteq> EQUALS \<and> c \<noteq> 0)"

text \<open>Well-formed: names and values without the special characters, no empty group.\<close>

fun wf_descr :: "descr \<Rightarrow> bool" where
  "wf_descr (Leaf n v) \<longleftrightarrow> plain n \<and> plain v"
| "wf_descr (Group n ts) \<longleftrightarrow> plain n \<and> ts \<noteq> [] \<and> (\<forall>t \<in> set ts. wf_descr t)"

text \<open>Every leaf has two characters between its name and its value.\<close>

fun roomy :: "descr \<Rightarrow> bool" where
  "roomy (Leaf n v) \<longleftrightarrow> 2 \<le> length n + length v"
| "roomy (Group n ts) \<longleftrightarrow> (\<forall>t \<in> set ts. roomy t)"

lemma conv_plain: "c \<noteq> LPAREN \<Longrightarrow> c \<noteq> RPAREN \<Longrightarrow> c \<noteq> EQUALS \<Longrightarrow> c \<noteq> 0 \<Longrightarrow> conv b c d = [c]"
  by (simp add: conv_def)

lemma convs_plain: "plain s \<Longrightarrow> convs b s d = s"
  by (induction s arbitrary: b) (auto simp: plain_def conv_plain)

lemma plain_last: "plain s \<Longrightarrow> c \<noteq> RPAREN \<Longrightarrow> last (c # s) \<noteq> RPAREN"
  by (cases s rule: rev_cases) (auto simp: plain_def)

lemma plain_hd: "plain s \<Longrightarrow> hd (s @ c # r) \<noteq> LPAREN \<longleftrightarrow> s \<noteq> [] \<or> c \<noteq> LPAREN"
  by (cases s) (auto simp: plain_def)

lemma descr_text_ends [simp]: "hd (descr_text t) = LPAREN" "last (descr_text t) = RPAREN" "descr_text t \<noteq> []"
  by (cases t; simp)+

lemma json_member_quote: "json_member t = QUOTE # tl (json_member t)"
  by (cases t) simp_all

lemma concat_ends: "ts \<noteq> [] \<Longrightarrow> hd (concat (map descr_text ts)) = LPAREN \<and>
    last (concat (map descr_text ts)) = RPAREN \<and> concat (map descr_text ts) \<noteq> []"
  by (induction ts) (auto simp: descr_text_ends hd_append last_append)

text \<open>A group in its context: what comes before decides how it opens, what comes after how it closes.\<close>

definition descr_conv :: "u8 \<Rightarrow> u8 list \<Rightarrow> u8 \<Rightarrow> u8 list" where
  "descr_conv b j d = (if b = RPAREN then [] else [LBRACE, QUOTE]) @ tl j @
     (if d = LPAREN then [COMMA, QUOTE] else [RBRACE])"

lemma convs_forest:
  assumes "\<And>t b d. t \<in> set ts \<Longrightarrow> convs b (descr_text t) d = descr_conv b (json_member t) d" and "ts \<noteq> []"
  shows "convs b (concat (map descr_text ts)) RPAREN =
    (if b = RPAREN then [] else [LBRACE, QUOTE]) @ tl (commas (map json_member ts)) @ [RBRACE]"
  using assms
proof (induction ts arbitrary: b)
  case (Cons t ts)
  show ?case
  proof (cases ts)
    case Nil
    with Cons.prems(1) [of t b RPAREN] show ?thesis by (simp add: descr_conv_def)
  next
    case (Cons u us)
    with Cons.IH [of RPAREN] Cons.prems(1)
    have rest: "convs RPAREN (concat (map descr_text ts)) RPAREN = tl (commas (map json_member ts)) @ [RBRACE]"
      by simp
    have "hd (concat (map descr_text ts) @ [RPAREN]) = LPAREN"
      using concat_ends [of ts] Cons by (simp add: hd_append)
    moreover have "last (b # descr_text t) = RPAREN" using descr_text_ends [of t] by simp
    moreover have "commas (map json_member ts) = QUOTE # tl (commas (map json_member ts))"
      using Cons json_member_quote [of u] by (cases us) (auto, metis append_Cons list.sel(3))
    moreover have "json_member t = QUOTE # tl (json_member t)" by (rule json_member_quote)
    ultimately show ?thesis
      using rest Cons.prems(1) [of t b LPAREN] Cons
      by (simp add: convs_append descr_conv_def) (metis (no_types) append_Cons list.sel(3) append_assoc)
  qed
qed simp

lemma convs_descr: "wf_descr t \<Longrightarrow> convs b (descr_text t) d = descr_conv b (json_member t) d"
proof (induction t arbitrary: b d)
  case (Leaf n v)
  then have p: "plain n" "plain v" by simp_all
  have "hd (v @ RPAREN # r) \<noteq> LPAREN" for r using plain_hd [OF p(2), of RPAREN r] by simp
  moreover have "last (EQUALS # v) \<noteq> RPAREN" by (rule plain_last [OF p(2)]) simp
  ultimately show ?case
    using p by (simp add: convs_append convs_plain descr_conv_def conv_def)
next
  case (Group n ts)
  then have p: "plain n" "ts \<noteq> []" by simp_all
  have kids: "convs EQUALS (concat (map descr_text ts)) RPAREN = [LBRACE, QUOTE] @ tl (commas (map json_member ts)) @ [RBRACE]"
    using convs_forest [of ts EQUALS] Group by simp
  have "commas (map json_member ts) = QUOTE # tl (commas (map json_member ts))"
    using p(2) json_member_quote by (cases ts rule: remdups_adj.cases) (auto, metis append_Cons list.sel(3))
  moreover note concat_ends [OF p(2)]
  ultimately show ?case
    using p kids by (simp add: convs_append convs_plain descr_conv_def conv_def json_object_def hd_append)
qed

lemma concat_text_last: "ts \<noteq> [] \<Longrightarrow> \<exists>us. concat (map descr_text ts) = us @ [RPAREN]"
  by (metis concat_ends append_butlast_last_id)

text \<open>The whole text: the JSON object with the one member.\<close>

lemma convs_whole: "wf_descr t \<Longrightarrow> convs 0 (descr_text t) 0 = json_object [json_member t]"
  using convs_descr [of t 0 0] json_member_quote [of t] by (simp add: descr_conv_def json_object_def)

lemma descr_text_shape: "\<exists>mid. descr_text t = LPAREN # mid @ [RPAREN]"
  by (cases t) auto

lemma commas_length: "length (commas js) + 1 \<le> sum_list (map length js) + length js" if "js \<noteq> []"
  using that by (induction js rule: commas.induct) auto

lemma members_length:
  "(\<And>t. t \<in> set ts \<Longrightarrow> length (json_member t) + 3 \<le> 2 * length (descr_text t)) \<Longrightarrow>
    sum_list (map length (map json_member ts)) + 3 * length ts \<le> 2 * length (concat (map descr_text ts))"
proof (induction ts)
  case (Cons t ts)
  from Cons.prems [of t] Cons.IH [OF Cons.prems] show ?case by simp
qed simp

lemma json_member_length:
  "wf_descr t \<Longrightarrow> roomy t \<Longrightarrow> length (json_member t) + 3 \<le> 2 * length (descr_text t)"
proof (induction t)
  case (Group n ts)
  have kids: "sum_list (map length (map json_member ts)) + 3 * length ts \<le>
      2 * length (concat (map descr_text ts))"
    using Group by (intro members_length) auto
  have "length (commas (map json_member ts)) + 1 \<le> sum_list (map length (map json_member ts)) + length ts"
    using commas_length [of "map json_member ts"] Group.prems by simp
  moreover have "1 \<le> length ts" using Group.prems by (cases ts) auto
  ultimately show ?case using kids by (simp add: json_object_def)
qed simp

lemma c_str_filled: "0 \<notin> set s \<Longrightarrow> length s < cap \<Longrightarrow> c_str (filled cap s) 0 = Inr s"
proof -
  assume s: "0 \<notin> set s" and "length s < cap"
  then obtain k where "cap - length s = Suc k" by (metis Suc_diff_Suc)
  then have "filled cap s = s @ 0 # replicate k 0" by (simp add: filled_def)
  with c_str_append [OF s] show ?thesis by simp
qed

definition ex_descr :: descr where
  "ex_descr = Group (bytes_of ''A'') [Leaf (bytes_of ''B'') (bytes_of ''x''),
     Group (bytes_of ''C'') [Leaf (bytes_of ''D'') (bytes_of ''y'')]]"

lemma ex_descr_text: "descr_text ex_descr = bytes_of ''(A=(B=x)(C=(D=y)))''"
  by (simp add: ex_descr_def)

text \<open>C6: a connect descriptor becomes its JSON object: for every well-formed descriptor whose leaves have
  two characters or more in name and value, the conversion stays inside the buffer, returns 0 and leaves there
  the C string of the object with the descriptor as its one member, of the length it reports.\<close>
theorem connect_descriptor_to_json:
  assumes "wf_descr t" and "roomy t" and "n = length (descr_text t)"
    and "bufin + n \<le> length m" and "take n (drop bufin m) = descr_text t" and "length out = 2 * n"
  shows "\<exists>out'. parse_connect_data_to_json m bufin (int n) out (int (2 * n)) =
      Inr (out', int (length (json_object [json_member t])) + 1, 0) \<and>
    length out' = 2 * n \<and> c_str out' 0 = Inr (json_object [json_member t])"
proof -
  from descr_text_shape obtain mid where mid: "descr_text t = LPAREN # mid @ [RPAREN]" by blast
  have "length (json_object [json_member t]) < 2 * n"
    using json_member_length [OF assms(1,2)] assms(3) by (simp add: json_object_def)
  moreover have "0 \<notin> set (json_object [json_member t])"
    using convs_no_nul convs_whole [OF assms(1)] by metis
  ultimately have "c_str (filled (2 * n) (json_object [json_member t])) 0 = Inr (json_object [json_member t])"
    by (rule c_str_filled [rotated])
  with parse_connect_run [OF assms(4) assms(5) [unfolded mid] assms(6), folded mid, unfolded convs_whole [OF assms(1)]]
    \<open>length (json_object [json_member t]) < 2 * n\<close>
  show ?thesis by (simp add: Let_def)
qed

lemma ex_descr_ok: "wf_descr ex_descr" "roomy ex_descr"
  by (simp_all add: ex_descr_def plain_def)

theorem connect_descriptor_to_json_witness:
  "\<exists>out'. parse_connect_data_to_json (bytes_of ''..(A=(B=x)(C=(D=y)))..'') 2 18 (replicate 36 0) 36 =
      Inr (out', int (length (json_object [json_member ex_descr])) + 1, 0) \<and>
    length out' = 36 \<and> c_str out' 0 = Inr (json_object [json_member ex_descr])"
  using connect_descriptor_to_json [OF ex_descr_ok, of 18 2 "bytes_of ''..(A=(B=x)(C=(D=y)))..''" "replicate 36 0"]
  by (simp add: ex_descr_text)

lemma json_ex_descr:
  "json_object [json_member ex_descr] = bytes_of ''{\"A\":{\"B\":\"x\",\"C\":{\"D\":\"y\"}}}''"
  by (simp add: ex_descr_def json_object_def)

lemma convs_equals: "convs b (replicate k EQUALS) RPAREN = concat (replicate k [QUOTE, COLON, QUOTE])"
proof (induction k arbitrary: b)
  case (Suc k)
  have "hd (replicate k EQUALS @ [RPAREN]) \<noteq> LPAREN" by (cases k) simp_all
  with Suc [of EQUALS] show ?case by (simp add: conv_def)
qed simp

text \<open>C37: the buffer does not hold every text: for a pair of parentheses around any number of equals signs,
  however few, the conversion writes past the end of its buffer, and by as many bytes as there are signs and
  one more.\<close>
theorem connect_data_to_json_overruns:
  assumes "bufin + (k + 2) \<le> length m" and "length out = 2 * (k + 2)"
    and "take (k + 2) (drop bufin m) = LPAREN # replicate k EQUALS @ [RPAREN]"
  shows "parse_connect_data_to_json m bufin (int (k + 2)) out (int (2 * (k + 2))) = Inl OutOfBounds \<and>
    length (convs 0 (LPAREN # replicate k EQUALS @ [RPAREN]) 0) = 2 * (k + 2) + k"
proof -
  have "last (LPAREN # replicate k EQUALS) \<noteq> RPAREN" by (cases k) simp_all
  moreover have "length (concat (replicate k [QUOTE, COLON, QUOTE])) = 3 * k" by (induction k) simp_all
  ultimately have "length (convs 0 (LPAREN # replicate k EQUALS @ [RPAREN]) 0) = 2 * (k + 2) + k"
    by (simp add: convs_append convs_equals conv_def)
  with parse_connect_run [OF assms(1,3,2)] show ?thesis by simp
qed

theorem connect_data_to_json_overruns_witness:
  "parse_connect_data_to_json (bytes_of ''(===)'') 0 5 (replicate 10 0) 10 = Inl OutOfBounds"
  using connect_data_to_json_overruns [of 0 3 "bytes_of ''(===)''" "replicate 10 0"]
  by (simp add: numeral_3_eq_3)

section \<open>The longest run of visible characters\<close>

definition visible :: "u8 \<Rightarrow> bool" where
  "visible c \<longleftrightarrow> 0x20 \<le> c \<and> c \<le> 0x7e"

text \<open>
  The loop of \<^verbatim>\<open>parse_continuous_visible_characters\<close>: the length \<open>tmp\<close> of the run that ends
  here, the longest length so far and where that run starts.
\<close>

function visible_loop :: "u8 list \<Rightarrow> nat \<Rightarrow> nat \<Rightarrow> nat \<Rightarrow> nat \<Rightarrow> nat \<Rightarrow> nat \<Rightarrow> (nat \<times> nat \<times> nat) res" where
  "visible_loop m bufin i inlen tmp most ptr =
     (if i < inlen then
        bindR (rd8 m (bufin + i)) (\<lambda>c.
        if visible c then visible_loop m bufin (Suc i) inlen (tmp + 1) most ptr
        else if tmp \<ge> most then visible_loop m bufin (Suc i) inlen 0 tmp (bufin + i - tmp)
        else visible_loop m bufin (Suc i) inlen 0 most ptr)
      else Inr (tmp, most, ptr))"
  by pat_completeness auto
termination by (relation "measure (\<lambda>(m, bufin, i, inlen, tmp, most, ptr). inlen - i)") auto

declare visible_loop.simps [simp del]

definition parse_continuous_visible_characters :: "u8 list \<Rightarrow> nat \<Rightarrow> nat \<Rightarrow> (nat \<times> nat) res" where
  "parse_continuous_visible_characters m bufin inlen =
     bindR (visible_loop m bufin 0 inlen 0 0 bufin) (\<lambda>(tmp, most, ptr).
     let (most, ptr) =
       (if tmp \<noteq> 0 \<and> tmp \<ge> most then (tmp, bufin + inlen - tmp) else (most, ptr)) in
     Inr (ptr, most + 1))"

text \<open>The bytes from \<open>a\<close> to \<open>b\<close>, counted from the start of the text, are visible.\<close>

definition run_at :: "u8 list \<Rightarrow> nat \<Rightarrow> nat \<Rightarrow> nat \<Rightarrow> bool" where
  "run_at m bufin a b \<longleftrightarrow> (\<forall>j. a \<le> j \<and> j < b \<longrightarrow> visible (m ! (bufin + j)))"

text \<open>\<open>best_run\<close>: the longest run up to \<open>i\<close>, and the last one of that length.\<close>

definition best_run :: "u8 list \<Rightarrow> nat \<Rightarrow> nat \<Rightarrow> nat \<Rightarrow> nat \<Rightarrow> bool" where
  "best_run m bufin i most ptr \<longleftrightarrow>
     (\<exists>q. ptr = bufin + q \<and> q + most \<le> i \<and> run_at m bufin q (q + most) \<and>
       (\<forall>a k. a + k \<le> i \<and> run_at m bufin a (a + k) \<longrightarrow> k \<le> most \<and> (k = most \<and> 0 < k \<longrightarrow> a \<le> q)))"

definition open_run :: "u8 list \<Rightarrow> nat \<Rightarrow> nat \<Rightarrow> nat \<Rightarrow> bool" where
  "open_run m bufin i tmp \<longleftrightarrow> tmp \<le> i \<and> run_at m bufin (i - tmp) i \<and>
     (tmp < i \<longrightarrow> \<not> visible (m ! (bufin + (i - tmp - 1))))"

lemma run_split:
  assumes "open_run m bufin i tmp" and "run_at m bufin a (a + k)" and "a + k \<le> i"
  shows "a + k \<le> i - tmp \<or> i - tmp \<le> a"
proof (rule ccontr)
  assume "\<not> ?thesis"
  then have "a \<le> i - tmp - 1" "i - tmp - 1 < a + k" "tmp < i" by auto
  with assms(1,2) show False unfolding open_run_def run_at_def by blast
qed

lemma best_run_close:
  assumes o: "open_run m bufin i tmp" and b: "best_run m bufin (i - tmp) most ptr"
  shows "if most \<le> tmp then best_run m bufin i tmp (bufin + i - tmp) else best_run m bufin i most ptr"
proof -
  from b obtain q where q: "ptr = bufin + q" "q + most \<le> i - tmp" "run_at m bufin q (q + most)"
    "\<forall>a k. a + k \<le> i - tmp \<and> run_at m bufin a (a + k) \<longrightarrow> k \<le> most \<and> (k = most \<and> 0 < k \<longrightarrow> a \<le> q)"
    by (auto simp: best_run_def)
  have tmp: "tmp \<le> i" "run_at m bufin (i - tmp) i" using o by (simp_all add: open_run_def)
  show ?thesis
  proof (cases "most \<le> tmp")
    case True
    have "k \<le> tmp \<and> (k = tmp \<and> 0 < k \<longrightarrow> a \<le> i - tmp)" if "a + k \<le> i" "run_at m bufin a (a + k)" for a k
      using run_split [OF o that(2,1)] q(4) that True by fastforce
    with True tmp show ?thesis by (auto simp: best_run_def intro!: exI [of _ "i - tmp"])
  next
    case False
    have "k \<le> most \<and> (k = most \<and> 0 < k \<longrightarrow> a \<le> q)" if "a + k \<le> i" "run_at m bufin a (a + k)" for a k
      using run_split [OF o that(2,1)] q(4) that False by fastforce
    with False q(1-3) show ?thesis by (auto simp: best_run_def intro!: exI [of _ q])
  qed
qed

lemma best_run_mono:
  assumes "best_run m bufin i most ptr" and "\<not> visible (m ! (bufin + i))"
  shows "best_run m bufin (Suc i) most ptr"
proof -
  from assms(1) obtain q where q: "ptr = bufin + q" "q + most \<le> i" "run_at m bufin q (q + most)"
    "\<forall>a k. a + k \<le> i \<and> run_at m bufin a (a + k) \<longrightarrow> k \<le> most \<and> (k = most \<and> 0 < k \<longrightarrow> a \<le> q)"
    by (auto simp: best_run_def)
  have "k = 0 \<or> a + k \<le> i" if "a + k \<le> Suc i" "run_at m bufin a (a + k)" for a k
  proof (rule ccontr)
    assume "\<not> ?thesis"
    with that have "a \<le> i" "i < a + k" by auto
    with that(2) assms(2) show False unfolding run_at_def by blast
  qed
  with q(4) have "k \<le> most \<and> (k = most \<and> 0 < k \<longrightarrow> a \<le> q)" if "a + k \<le> Suc i" "run_at m bufin a (a + k)" for a k
    using that by fastforce
  with q(1-3) show ?thesis by (auto simp: best_run_def intro!: exI [of _ q])
qed

lemma visible_loop_run:
  assumes "i \<le> inlen" and "bufin + inlen \<le> length m"
    and "open_run m bufin i tmp" and "best_run m bufin (i - tmp) most ptr"
  shows "\<exists>tmp' most' ptr'. visible_loop m bufin i inlen tmp most ptr = Inr (tmp', most', ptr') \<and>
    open_run m bufin inlen tmp' \<and> best_run m bufin (inlen - tmp') most' ptr'"
  using assms
proof (induction "inlen - i" arbitrary: i tmp most ptr)
  case 0
  then show ?case by (subst visible_loop.simps) simp
next
  case (Suc n)
  then have i: "i < inlen" by simp
  with Suc.prems have rd: "rd8 m (bufin + i) = Inr (m ! (bufin + i))" by simp
  show ?case
  proof (cases "visible (m ! (bufin + i))")
    case True
    have "open_run m bufin (Suc i) (Suc tmp)"
      using Suc.prems(3) True by (auto simp: open_run_def run_at_def less_Suc_eq)
    with Suc.hyps(1) [of "Suc i" "Suc tmp" most ptr] Suc.hyps(2) Suc.prems i rd True
    show ?thesis by (subst visible_loop.simps) simp
  next
    case False
    have "open_run m bufin (Suc i) 0" using False by (auto simp: open_run_def run_at_def)
    moreover have "if most \<le> tmp then best_run m bufin (Suc i) tmp (bufin + i - tmp)
        else best_run m bufin (Suc i) most ptr"
      using best_run_close [OF Suc.prems(3,4)] best_run_mono [OF _ False] by auto
    ultimately show ?thesis
      using Suc.hyps(1) [of "Suc i" 0 tmp "bufin + i - tmp"] Suc.hyps(1) [of "Suc i" 0 most ptr]
        Suc.hyps(2) Suc.prems(2) i rd False
      by (subst visible_loop.simps) (auto split: if_splits)
  qed
qed

lemma visible_characters_run:
  assumes "bufin + inlen \<le> length m"
  shows "\<exists>ptr most. parse_continuous_visible_characters m bufin inlen = Inr (ptr, most + 1) \<and>
    best_run m bufin inlen most ptr"
proof -
  have "open_run m bufin 0 0" "best_run m bufin (0 - 0) 0 bufin"
    by (simp_all add: open_run_def run_at_def best_run_def)
  from visible_loop_run [OF _ assms this] obtain tmp most ptr where
    r: "visible_loop m bufin 0 inlen 0 0 bufin = Inr (tmp, most, ptr)"
      "open_run m bufin inlen tmp" "best_run m bufin (inlen - tmp) most ptr" by auto
  from best_run_close [OF r(2,3)] r show ?thesis
    by (cases "tmp = 0") (auto simp: parse_continuous_visible_characters_def split: if_splits)
qed

text \<open>parse_continuous_visible_characters finds the longest run of visible characters of the
  text, the last one when several have that length, reads nothing outside the text, and
  reports its length plus one.\<close>
theorem longest_visible_run:
  assumes "bufin + inlen \<le> length m"
  shows "\<exists>q k. parse_continuous_visible_characters m bufin inlen = Inr (bufin + q, k + 1) \<and>
    q + k \<le> inlen \<and> (\<forall>j. q \<le> j \<and> j < q + k \<longrightarrow> visible (m ! (bufin + j))) \<and>
    (\<forall>a l. a + l \<le> inlen \<and> (\<forall>j. a \<le> j \<and> j < a + l \<longrightarrow> visible (m ! (bufin + j))) \<longrightarrow>
      l \<le> k \<and> (l = k \<and> 0 < l \<longrightarrow> a \<le> q))"
  using visible_characters_run [OF assms] by (auto simp: best_run_def run_at_def)

theorem longest_visible_run_witness:
  "\<exists>q k. parse_continuous_visible_characters ([1, 2] @ bytes_of ''ab'' @ [0] @ bytes_of ''select'' @ [3]) 1 11 =
      Inr (1 + q, k + 1) \<and> q + k \<le> 11"
  using longest_visible_run [of 1 11 "[1, 2] @ bytes_of ''ab'' @ [0] @ bytes_of ''select'' @ [3]"] by fastforce

end
