(* ===== verification/CJson.thy ===== *)
theory CJson
  imports Bytes
begin

text \<open>
  The JSON parser of \<^verbatim>\<open>src/src/cJSON.c\<close> and the lookup of an object's members. The
  text is a C string inside an object of memory, a position is an offset, and every read
  is checked; so are the writes into the buffer a string is unescaped to. An item is a
  tree: the chain of \<^verbatim>\<open>next\<close> pointers below \<^verbatim>\<open>child\<close> is the list of children. The
  \<^verbatim>\<open>double\<close> a number is converted to is kept as the exact decimal that was read.
\<close>

section \<open>Items and results\<close>

definition cJSON_False :: int where "cJSON_False = 0"
definition cJSON_True :: int where "cJSON_True = 1"
definition cJSON_NULL :: int where "cJSON_NULL = 2"
definition cJSON_Number :: int where "cJSON_Number = 3"
definition cJSON_String :: int where "cJSON_String = 4"
definition cJSON_Array :: int where "cJSON_Array = 5"
definition cJSON_Object :: int where "cJSON_Object = 6"

text \<open>A number \<open>m * 10 ^ e\<close>.\<close>

datatype decimal_number = Dec (mantissa: int) (exponent: int)

datatype cjson = Item
  (cj_type: int)
  (valuestring: "u8 list option")
  (number: "decimal_number option")
  (cj_name: "u8 list option")
  (children: "cjson list")

definition cJSON_New_Item :: cjson where
  "cJSON_New_Item = Item 0 None None None []"

text \<open>
  A parser returns what it read and the position after it; or NULL, with the error
  position \<^verbatim>\<open>ep\<close>; or it has no defined behaviour. \<open>NoFuel\<close> is the bound of the model on
  the nesting, shown below never to be reached.
\<close>

datatype 'a parse = Parsed 'a nat | Failed nat | Undef ub | NoFuel

primrec bindP :: "'a parse \<Rightarrow> ('a \<Rightarrow> nat \<Rightarrow> 'b parse) \<Rightarrow> 'b parse" where
  "bindP (Parsed x p) f = f x p"
| "bindP (Failed e) f = Failed e"
| "bindP (Undef u) f = Undef u"
| "bindP NoFuel f = NoFuel"

definition tryR :: "'a res \<Rightarrow> ('a \<Rightarrow> 'b parse) \<Rightarrow> 'b parse" where
  "tryR r f = (case r of Inl u \<Rightarrow> Undef u | Inr x \<Rightarrow> f x)"

lemma tryR_simps [simp]: "tryR (Inl u) f = Undef u" "tryR (Inr x) f = f x"
  by (simp_all add: tryR_def)

lemma tryR_cong [fundef_cong]:
  "r = r' \<Longrightarrow> (\<And>x. r' = Inr x \<Longrightarrow> f x = f' x) \<Longrightarrow> tryR r f = tryR r' f'"
  by (cases r') auto

section \<open>Characters\<close>

abbreviation CH_QUOTE :: u8 where "CH_QUOTE \<equiv> 0x22"
abbreviation CH_BACKSLASH :: u8 where "CH_BACKSLASH \<equiv> 0x5C"

definition is_digit :: "u8 \<Rightarrow> bool" where "is_digit c \<longleftrightarrow> 0x30 \<le> c \<and> c \<le> 0x39"

function skip :: "u8 list \<Rightarrow> nat \<Rightarrow> nat res" where
  "skip m p = bindR (rd8 m p) (\<lambda>c. if c \<noteq> 0 \<and> c \<le> 32 then skip m (p + 1) else Inr p)"
  by pat_completeness auto
termination by (relation "measure (\<lambda>(m, p). length m - p)") (auto simp: rd8_Inr_iff)

declare skip.simps [simp del]

text \<open>\<^verbatim>\<open>!strncmp (value, lit, strlen (lit))\<close>\<close>

fun starts_with :: "u8 list \<Rightarrow> nat \<Rightarrow> u8 list \<Rightarrow> bool res" where
  "starts_with m p [] = Inr True"
| "starts_with m p (l # ls) = bindR (rd8 m p) (\<lambda>c. if c = l then starts_with m (p + 1) ls else Inr False)"

section \<open>Numbers\<close>

text \<open>\<open>digits m p n\<close>: the digits from \<open>p\<close> on appended to \<open>n\<close>, how many, and the position after them.\<close>

function digits :: "u8 list \<Rightarrow> nat \<Rightarrow> int \<Rightarrow> nat \<Rightarrow> (int \<times> nat \<times> nat) res" where
  "digits m p n k =
     bindR (rd8 m p) (\<lambda>c.
     if is_digit c then digits m (p + 1) (n * 10 + (uint c - 0x30)) (k + 1) else Inr (n, k, p))"
  by pat_completeness auto
termination by (relation "measure (\<lambda>(m, p, n, k). length m - p)") (auto simp: rd8_Inr_iff)

text \<open>The exponent is an \<^verbatim>\<open>int\<close>, and every step of its loop can overflow.\<close>

function exponent_digits :: "u8 list \<Rightarrow> nat \<Rightarrow> int \<Rightarrow> (int \<times> nat) res" where
  "exponent_digits m p s =
     bindR (rd8 m p) (\<lambda>c.
     if is_digit c then bindR (to_int (s * 10)) (\<lambda>t. bindR (to_int (t + (uint c - 0x30))) (\<lambda>s.
       exponent_digits m (p + 1) s))
     else Inr (s, p))"
  by pat_completeness auto
termination by (relation "measure (\<lambda>(m, p, s). length m - p)") (auto simp: rd8_Inr_iff)

declare digits.simps [simp del] exponent_digits.simps [simp del]

text \<open>The parts of a number: its sign, its integer digits, its fraction and its exponent.\<close>

definition number_sign :: "u8 list \<Rightarrow> nat \<Rightarrow> (int \<times> nat) res" where
  "number_sign m p = bindR (rd8 m p) (\<lambda>c. Inr (if c = 0x2D then (-1, p + 1) else (1, p)))"

definition number_int :: "u8 list \<Rightarrow> nat \<Rightarrow> (int \<times> nat) res" where
  "number_int m p =
     bindR (rd8 m p) (\<lambda>c.
     let p = (if c = 0x30 then p + 1 else p) in
     bindR (rd8 m p) (\<lambda>c.
     bindR (if 0x31 \<le> c \<and> c \<le> 0x39 then digits m p 0 0 else Inr (0, 0, p)) (\<lambda>(n, _, p).
     Inr (n, p))))"

definition number_frac :: "u8 list \<Rightarrow> int \<Rightarrow> nat \<Rightarrow> (int \<times> int \<times> nat) res" where
  "number_frac m n p =
     bindR (rd8 m p) (\<lambda>c.
     bindR (if c = 0x2E then bindR (rd8 m (p + 1)) (\<lambda>d. Inr (is_digit d)) else Inr False) (\<lambda>frac.
     bindR (if frac then digits m (p + 1) n 0 else Inr (n, 0, p)) (\<lambda>(n, k, p).
     Inr (n, - int k, p))))"

definition number_exp :: "u8 list \<Rightarrow> nat \<Rightarrow> (int \<times> nat) res" where
  "number_exp m p =
     bindR (rd8 m p) (\<lambda>c.
     if c = 0x65 \<or> c = 0x45 then
       bindR (rd8 m (p + 1)) (\<lambda>c.
       let (sg, p) = (if c = 0x2B then (1, p + 2) else if c = 0x2D then (-1, p + 2) else (1, p + 1)) in
       bindR (exponent_digits m p 0) (\<lambda>(s, p). Inr (sg * s, p)))
     else Inr (0, p))"

definition parse_number :: "u8 list \<Rightarrow> nat \<Rightarrow> (decimal_number \<times> nat) res" where
  "parse_number m p =
     bindR (number_sign m p) (\<lambda>(sign, p).
     bindR (number_int m p) (\<lambda>(n, p).
     bindR (number_frac m n p) (\<lambda>(n, scale, p).
     bindR (number_exp m p) (\<lambda>(e, p).
     Inr (Dec (sign * n) (scale + e), p)))))"

section \<open>Strings\<close>

text \<open>The first pass of \<^verbatim>\<open>parse_string\<close> counts the characters; it skips the one after a backslash.\<close>

function count_string :: "u8 list \<Rightarrow> nat \<Rightarrow> nat \<Rightarrow> nat res" where
  "count_string m p len =
     bindR (rd8 m p) (\<lambda>c.
     if c \<noteq> CH_QUOTE \<and> c \<noteq> 0 then
       (if c = CH_BACKSLASH then count_string m (p + 2) (len + 1) else count_string m (p + 1) (len + 1))
     else Inr len)"
  by pat_completeness auto
termination by (relation "measure (\<lambda>(m, p, len). length m - p)") (auto simp: rd8_Inr_iff)

declare count_string.simps [simp del]

definition is_space :: "u8 \<Rightarrow> bool" where
  "is_space c \<longleftrightarrow> c = 0x20 \<or> (9 \<le> c \<and> c \<le> 13)"

definition hex_value :: "u8 \<Rightarrow> nat option" where
  "hex_value c =
     (if is_digit c then Some (unat c - 0x30)
      else if 0x61 \<le> c \<and> c \<le> 0x66 then Some (unat c - 0x57)
      else if 0x41 \<le> c \<and> c \<le> 0x46 then Some (unat c - 0x37)
      else None)"

function skip_spaces :: "u8 list \<Rightarrow> nat \<Rightarrow> nat res" where
  "skip_spaces m p = bindR (rd8 m p) (\<lambda>c. if is_space c then skip_spaces m (p + 1) else Inr p)"
  by pat_completeness auto
termination by (relation "measure (\<lambda>(m, p). length m - p)") (auto simp: rd8_Inr_iff)

declare skip_spaces.simps [simp del]

fun hex_digits :: "nat \<Rightarrow> u8 list \<Rightarrow> nat \<Rightarrow> nat \<Rightarrow> nat \<Rightarrow> (nat \<times> nat) res" where
  "hex_digits 0 m p n k = Inr (n, k)"
| "hex_digits (Suc w) m p n k =
     bindR (rd8 m p) (\<lambda>c.
     case hex_value c of None \<Rightarrow> Inr (n, k) | Some d \<Rightarrow> hex_digits w m (p + 1) (n * 16 + d) (k + 1))"

text \<open>
  \<^verbatim>\<open>sscanf (p, "%4x", &uc)\<close>: white space, then at most four characters of an optional sign,
  an optional 0x and hexadecimal digits. \<open>None\<close>: no conversion, the variable is left alone.
\<close>

definition sscanf_4x :: "u8 list \<Rightarrow> nat \<Rightarrow> u32 option res" where
  "sscanf_4x m p =
     bindR (skip_spaces m p) (\<lambda>p.
     bindR (rd8 m p) (\<lambda>c.
     let (neg, p, w) = (if c = 0x2D then (True, p + 1, 3) else if c = 0x2B then (False, p + 1, 3)
       else (False, p, 4 :: nat)) in
     bindR (rd8 m p) (\<lambda>c.
     bindR (if c = 0x30 then bindR (rd8 m (p + 1)) (\<lambda>d. Inr (d = 0x78 \<or> d = 0x58)) else Inr False) (\<lambda>prefix.
     bindR (hex_digits (if prefix then w - 2 else w) m (if prefix then p + 2 else p) 0 0) (\<lambda>(n, k).
     Inr (if k = 0 then None else Some (if neg then - of_nat n else of_nat n)))))))"

text \<open>The character \<open>uc\<close> in UTF-8.\<close>

definition firstByteMark :: "nat \<Rightarrow> u8" where
  "firstByteMark len = [0x00, 0x00, 0xC0, 0xE0, 0xF0, 0xF8, 0xFC] ! len"

definition utf8_len :: "u32 \<Rightarrow> nat" where
  "utf8_len uc = (if uc < 0x80 then 1 else if uc < 0x800 then 2 else if uc < 0x10000 then 3 else 4)"

fun utf8_tail :: "nat \<Rightarrow> u32 \<Rightarrow> u8 list \<Rightarrow> u32 \<times> u8 list" where
  "utf8_tail 0 uc bs = (uc, bs)"
| "utf8_tail (Suc k) uc bs = utf8_tail k (drop_bit 6 uc) (ucast ((uc OR 0x80) AND 0xBF) # bs)"

definition utf8 :: "u32 \<Rightarrow> u8 list" where
  "utf8 uc = (let len = utf8_len uc; (u, bs) = utf8_tail (len - 1) uc [] in
     (ucast u OR firstByteMark len) # bs)"

text \<open>A write of some bytes at the write position of a buffer of \<open>cap\<close> bytes.\<close>

definition put_bytes :: "nat \<Rightarrow> u8 list \<Rightarrow> u8 list \<Rightarrow> u8 list res" where
  "put_bytes cap w bs = (if length w + length bs \<le> cap then Inr (w @ bs) else Inl OutOfBounds)"

text \<open>
  \<^verbatim>\<open>case 'u'\<close> of the second pass, with \<open>p\<close> at the backslash: what is written, whether a
  second escape was read too, and the variables \<open>uc\<close> and \<open>uc2\<close>, which keep their old value when \<^verbatim>\<open>sscanf\<close> finds no digits.
\<close>

definition unicode_escape ::
  "u8 list \<Rightarrow> nat \<Rightarrow> u32 option \<Rightarrow> u32 option \<Rightarrow> (u8 list \<times> bool \<times> u32 option \<times> u32 option) res" where
  "unicode_escape m p uc uc2 =
     bindR (sscanf_4x m (p + 2)) (\<lambda>r.
     let uc = (case r of None \<Rightarrow> uc | Some u \<Rightarrow> Some u) in
     case uc of
       None \<Rightarrow> Inl Uninitialised
     | Some u \<Rightarrow>
         if (u \<ge> 0xDC00 \<and> u \<le> 0xDFFF) \<or> u = 0 then Inr ([], False, uc, uc2)
         else if u \<ge> 0xD800 \<and> u \<le> 0xDBFF then
           bindR (rd8 m (p + 6)) (\<lambda>a.
           bindR (if a \<noteq> CH_BACKSLASH then Inr True else bindR (rd8 m (p + 7)) (\<lambda>b. Inr (b \<noteq> 0x75))) (\<lambda>missing.
           if missing then Inr ([], False, uc, uc2)
           else bindR (sscanf_4x m (p + 8)) (\<lambda>r.
             let uc2 = (case r of None \<Rightarrow> uc2 | Some u \<Rightarrow> Some u) in
             case uc2 of
               None \<Rightarrow> Inl Uninitialised
             | Some v \<Rightarrow>
                 if v < 0xDC00 \<or> v > 0xDFFF then Inr ([], True, uc, uc2)
                 else (let x = 0x10000 + ((push_bit 10 (u AND 0x3FF)) OR (v AND 0x3FF)) in
                   Inr (utf8 x, True, Some (drop_bit (6 * (utf8_len x - 1)) x), uc2)))))
         else Inr (utf8 u, False, Some (drop_bit (6 * (utf8_len u - 1)) u), uc2))"

definition simple_escape :: "u8 \<Rightarrow> u8" where
  "simple_escape e =
     (if e = 0x62 then 8 else if e = 0x66 then 12 else if e = 0x6E then 10
      else if e = 0x72 then 13 else if e = 0x74 then 9 else e)"

text \<open>The second pass: \<open>w\<close> is what was written so far.\<close>

function unescape :: "u8 list \<Rightarrow> nat \<Rightarrow> nat \<Rightarrow> u8 list \<Rightarrow> u32 option \<Rightarrow> u32 option \<Rightarrow> (u8 list \<times> nat) res" where
  "unescape m cap p w uc uc2 =
     bindR (rd8 m p) (\<lambda>c.
     if c = CH_QUOTE \<or> c = 0 then Inr (w, p)
     else if c \<noteq> CH_BACKSLASH then bindR (put_bytes cap w [c]) (\<lambda>w. unescape m cap (p + 1) w uc uc2)
     else bindR (rd8 m (p + 1)) (\<lambda>e.
       if e = 0x75 then
         bindR (unicode_escape m p uc uc2) (\<lambda>(bs, pair, uc, uc2).
         bindR (put_bytes cap w bs) (\<lambda>w. unescape m cap (p + (if pair then 12 else 6)) w uc uc2))
       else bindR (put_bytes cap w [simple_escape e]) (\<lambda>w. unescape m cap (p + 2) w uc uc2)))"
  by pat_completeness auto
termination by (relation "measure (\<lambda>(m, cap, p, w, uc, uc2). length m - p)") (auto simp: rd8_Inr_iff)

declare unescape.simps [simp del]

definition parse_string :: "u8 list \<Rightarrow> nat \<Rightarrow> u8 list parse" where
  "parse_string m p =
     tryR (rd8 m p) (\<lambda>c.
     if c \<noteq> CH_QUOTE then Failed p
     else tryR (count_string m (p + 1) 0) (\<lambda>len.
       tryR (unescape m (len + 1) (p + 1) [] None None) (\<lambda>(w, q).
       tryR (put_bytes (len + 1) w [0]) (\<lambda>_.
       tryR (rd8 m q) (\<lambda>c.
       Parsed w (if c = CH_QUOTE then q + 1 else q))))))"

section \<open>Values\<close>

text \<open>
  The members of an array and of an object. The parser of values is an argument, as is a
  bound \<open>k\<close> on the number of members, which the length of the text provides.
\<close>

primrec array_loop ::
  "nat \<Rightarrow> (nat \<Rightarrow> cjson parse) \<Rightarrow> u8 list \<Rightarrow> nat \<Rightarrow> cjson list \<Rightarrow> cjson list parse" where
  "array_loop 0 pv m p cs = NoFuel"
| "array_loop (Suc k) pv m p cs =
     tryR (rd8 m p) (\<lambda>c.
     if c = 0x2C then
       tryR (skip m (p + 1)) (\<lambda>p.
       bindP (pv p) (\<lambda>x p.
       tryR (skip m p) (\<lambda>p. array_loop k pv m p (cs @ [x]))))
     else if c = 0x5D then Parsed cs (p + 1)
     else Failed p)"

definition parse_array :: "(nat \<Rightarrow> cjson parse) \<Rightarrow> u8 list \<Rightarrow> nat \<Rightarrow> cjson parse" where
  "parse_array pv m p =
     tryR (rd8 m p) (\<lambda>c.
     if c \<noteq> 0x5B then Failed p
     else tryR (skip m (p + 1)) (\<lambda>p.
       tryR (rd8 m p) (\<lambda>c.
       if c = 0x5D then Parsed (Item cJSON_Array None None None []) (p + 1)
       else tryR (skip m p) (\<lambda>p.
         bindP (pv p) (\<lambda>x p.
         tryR (skip m p) (\<lambda>p.
         bindP (array_loop (length m) pv m p [x]) (\<lambda>cs p.
         Parsed (Item cJSON_Array None None None cs) p)))))))"

definition set_name :: "u8 list \<Rightarrow> cjson \<Rightarrow> cjson" where
  "set_name s x = Item (cj_type x) (valuestring x) (number x) (Some s) (children x)"

text \<open>One member: its name, a colon and its value, with the white space after it skipped.\<close>

definition parse_member :: "(nat \<Rightarrow> cjson parse) \<Rightarrow> u8 list \<Rightarrow> nat \<Rightarrow> cjson parse" where
  "parse_member pv m p =
     tryR (skip m p) (\<lambda>p.
     bindP (parse_string m p) (\<lambda>s p.
     tryR (skip m p) (\<lambda>p.
     tryR (rd8 m p) (\<lambda>c.
     if c \<noteq> 0x3A then Failed p
     else tryR (skip m (p + 1)) (\<lambda>p.
       bindP (pv p) (\<lambda>x p.
       tryR (skip m p) (\<lambda>p. Parsed (set_name s x) p)))))))"

primrec object_loop ::
  "nat \<Rightarrow> (nat \<Rightarrow> cjson parse) \<Rightarrow> u8 list \<Rightarrow> nat \<Rightarrow> cjson list \<Rightarrow> cjson list parse" where
  "object_loop 0 pv m p cs = NoFuel"
| "object_loop (Suc k) pv m p cs =
     tryR (rd8 m p) (\<lambda>c.
     if c = 0x2C then bindP (parse_member pv m (p + 1)) (\<lambda>x p. object_loop k pv m p (cs @ [x]))
     else if c = 0x7D then Parsed cs (p + 1)
     else Failed p)"

definition parse_object :: "(nat \<Rightarrow> cjson parse) \<Rightarrow> u8 list \<Rightarrow> nat \<Rightarrow> cjson parse" where
  "parse_object pv m p =
     tryR (rd8 m p) (\<lambda>c.
     if c \<noteq> 0x7B then Failed p
     else tryR (skip m (p + 1)) (\<lambda>p.
       tryR (rd8 m p) (\<lambda>c.
       if c = 0x7D then Parsed (Item cJSON_Object None None None []) (p + 1)
       else bindP (parse_member pv m p) (\<lambda>x p.
         bindP (object_loop (length m) pv m p [x]) (\<lambda>cs p.
         Parsed (Item cJSON_Object None None None cs) p)))))"

text \<open>The first argument bounds the nesting: each level of it reads a bracket.\<close>

primrec parse_value :: "nat \<Rightarrow> u8 list \<Rightarrow> nat \<Rightarrow> cjson parse" where
  "parse_value 0 m p = NoFuel"
| "parse_value (Suc n) m p =
     tryR (starts_with m p (bytes_of ''null'')) (\<lambda>b.
     if b then Parsed (Item cJSON_NULL None None None []) (p + 4)
     else tryR (starts_with m p (bytes_of ''false'')) (\<lambda>b.
     if b then Parsed (Item cJSON_False None None None []) (p + 5)
     else tryR (starts_with m p (bytes_of ''true'')) (\<lambda>b.
     if b then Parsed (Item cJSON_True None None None []) (p + 4)
     else tryR (rd8 m p) (\<lambda>c.
     if c = CH_QUOTE then bindP (parse_string m p) (\<lambda>s p. Parsed (Item cJSON_String (Some s) None None []) p)
     else if c = 0x2D \<or> is_digit c then
       tryR (parse_number m p) (\<lambda>(d, p). Parsed (Item cJSON_Number None (Some d) None []) p)
     else if c = 0x5B then parse_array (parse_value n m) m p
     else if c = 0x7B then parse_object (parse_value n m) m p
     else Failed p))))"

definition cJSON_ParseWithOpts :: "u8 list \<Rightarrow> nat \<Rightarrow> bool \<Rightarrow> cjson parse" where
  "cJSON_ParseWithOpts m value require_null_terminated =
     tryR (skip m value) (\<lambda>p.
     bindP (parse_value (Suc (length m)) m p) (\<lambda>c q.
     if require_null_terminated then
       tryR (skip m q) (\<lambda>q. tryR (rd8 m q) (\<lambda>e. if e \<noteq> 0 then Failed q else Parsed c q))
     else Parsed c q))"

definition cJSON_Parse :: "u8 list \<Rightarrow> nat \<Rightarrow> cjson parse" where
  "cJSON_Parse m value = cJSON_ParseWithOpts m value False"

section \<open>Lookup\<close>

definition tolower :: "u8 \<Rightarrow> u8" where
  "tolower c = (if 0x41 \<le> c \<and> c \<le> 0x5A then c + 32 else c)"

text \<open>The comparison of two C strings, NUL included.\<close>

fun strcasecmp_loop :: "u8 list \<Rightarrow> u8 list \<Rightarrow> int" where
  "strcasecmp_loop [] [] = 0"
| "strcasecmp_loop (a # s) [] = uint (tolower a)"
| "strcasecmp_loop [] (b # t) = - uint (tolower b)"
| "strcasecmp_loop (a # s) (b # t) =
     (if tolower a = tolower b then strcasecmp_loop s t else uint (tolower a) - uint (tolower b))"

text \<open>What a C string is to its readers: it ends at the first NUL.\<close>

definition c_view :: "u8 list \<Rightarrow> u8 list" where
  "c_view s = takeWhile (\<lambda>b. b \<noteq> 0) s"

definition cJSON_strcasecmp :: "u8 list option \<Rightarrow> u8 list option \<Rightarrow> int" where
  "cJSON_strcasecmp s1 s2 =
     (case s1 of
        None \<Rightarrow> (if s2 = None then 0 else 1)
      | Some a \<Rightarrow> (case s2 of None \<Rightarrow> 1 | Some b \<Rightarrow> strcasecmp_loop (c_view a) (c_view b)))"

text \<open>Reading \<^verbatim>\<open>object->child\<close> through NULL has no defined behaviour.\<close>

definition cJSON_GetObjectItem :: "cjson option \<Rightarrow> u8 list \<Rightarrow> cjson option res" where
  "cJSON_GetObjectItem object name =
     (case object of
        None \<Rightarrow> Inl (BadPtr NULL)
      | Some x \<Rightarrow> Inr (find (\<lambda>c. cJSON_strcasecmp (cj_name c) (Some name) = 0) (children x)))"

definition cJSON_GetArraySize :: "cjson \<Rightarrow> int" where
  "cJSON_GetArraySize a = int (length (children a))"

definition cJSON_GetArrayItem :: "cjson \<Rightarrow> int \<Rightarrow> cjson option" where
  "cJSON_GetArrayItem a i =
     (let k = (if i > 0 then nat i else 0) in
      if k < length (children a) then Some (children a ! k) else None)"

section \<open>Progress: every parser moves forward and stays in the text\<close>

lemma bindP_Parsed_iff: "bindP r f = Parsed y q \<longleftrightarrow> (\<exists>x p. r = Parsed x p \<and> f x p = Parsed y q)"
  by (cases r) auto

lemma bindP_NoFuel_iff: "bindP r f = NoFuel \<longleftrightarrow> r = NoFuel \<or> (\<exists>x p. r = Parsed x p \<and> f x p = NoFuel)"
  by (cases r) auto

lemma tryR_Parsed_iff: "tryR r f = Parsed y q \<longleftrightarrow> (\<exists>x. r = Inr x \<and> f x = Parsed y q)"
  by (cases r) auto

lemma tryR_NoFuel_iff: "tryR r f = NoFuel \<longleftrightarrow> (\<exists>x. r = Inr x \<and> f x = NoFuel)"
  by (cases r) auto

lemmas parse_iffs = bindP_Parsed_iff bindP_NoFuel_iff tryR_Parsed_iff tryR_NoFuel_iff

lemma skip_bounds: "skip m p = Inr q \<Longrightarrow> p \<le> q \<and> q < length m"
  by (induction m p arbitrary: q rule: skip.induct)
    (subst (asm) skip.simps, fastforce simp: bindR_Inr_iff rd8_Inr_iff split: if_splits)

lemma starts_with_bounds: "starts_with m p l = Inr True \<Longrightarrow> p + length l \<le> length m \<or> l = []"
  by (induction m p l rule: starts_with.induct)
    (fastforce simp: bindR_Inr_iff rd8_Inr_iff split: if_splits)+

lemma digits_bounds: "digits m p n k = Inr (n', k', q) \<Longrightarrow> p \<le> q \<and> q < length m"
  by (induction m p n k arbitrary: n' k' q rule: digits.induct)
    (subst (asm) digits.simps, fastforce simp: bindR_Inr_iff rd8_Inr_iff split: if_splits)

lemma exponent_digits_bounds: "exponent_digits m p s = Inr (s', q) \<Longrightarrow> p \<le> q \<and> q < length m"
  by (induction m p s arbitrary: s' q rule: exponent_digits.induct)
    (subst (asm) exponent_digits.simps, fastforce simp: bindR_Inr_iff rd8_Inr_iff split: if_splits)

lemma unescape_bounds: "unescape m cap p w uc uc2 = Inr (w', q) \<Longrightarrow> p \<le> q \<and> q < length m"
proof (induction m cap p w uc uc2 arbitrary: w' q rule: unescape.induct)
  case (1 m cap p w uc uc2)
  from 1(4) obtain c where c: "rd8 m p = Inr c" by (subst (asm) unescape.simps) (auto simp: bindR_Inr_iff)
  then have p: "p < length m" by (simp add: rd8_Inr_iff)
  consider "c = CH_QUOTE \<or> c = 0" | "c \<noteq> CH_QUOTE \<and> c \<noteq> 0 \<and> c \<noteq> CH_BACKSLASH" | "c = CH_BACKSLASH" by blast
  then show ?case
  proof cases
    case 1
    with \<open>unescape m cap p w uc uc2 = Inr (w', q)\<close> c p show ?thesis
      by (subst (asm) unescape.simps) auto
  next
    case 2
    with 1(4) c obtain w1 where "unescape m cap (p + 1) w1 uc uc2 = Inr (w', q)" "put_bytes cap w [c] = Inr w1"
      by (subst (asm) unescape.simps) (auto simp: bindR_Inr_iff)
    with 1(1) [OF c _ _ this(2,1)] 2 show ?thesis by auto
  next
    case 3
    with 1(4) c obtain e where e: "rd8 m (p + 1) = Inr e"
      by (subst (asm) unescape.simps) (auto simp: bindR_Inr_iff)
    show ?thesis
    proof (cases "e = 0x75")
      case True
      with 1(4) c e 3 obtain bs pair v v2 w1 where
        u: "unicode_escape m p uc uc2 = Inr (bs, pair, v, v2)" "put_bytes cap w bs = Inr w1"
          "unescape m cap (p + (if pair then 12 else 6)) w1 v v2 = Inr (w', q)"
        by (subst (asm) unescape.simps) (auto simp: bindR_Inr_iff)
      from 1(2) [OF c _ _ e True u(1) refl refl refl u(2,3)] 3 show ?thesis by auto
    next
      case False
      with 1(4) c e 3 obtain w1 where "put_bytes cap w [simple_escape e] = Inr w1"
          "unescape m cap (p + 2) w1 uc uc2 = Inr (w', q)"
        by (subst (asm) unescape.simps) (auto simp: bindR_Inr_iff)
      from 1(3) [OF c _ _ e False this] 3 show ?thesis by auto
    qed
  qed
qed

lemma parse_string_bounds: "parse_string m p = Parsed s q \<Longrightarrow> p < q \<and> q \<le> length m"
  unfolding parse_string_def
  by (auto simp: parse_iffs dest!: unescape_bounds split: if_splits)

lemma number_sign_bounds: "number_sign m p = Inr (s, q) \<Longrightarrow> p \<le> q \<and> (m ! p = 0x2D \<longrightarrow> p < q) \<and> q \<le> length m \<and> (q = p \<or> q = p + 1)"
  by (auto simp: number_sign_def bindR_Inr_iff rd8_Inr_iff split: if_splits)

lemma digits_first:
  "digits m p n k = Inr (n', k', q) \<Longrightarrow> p \<le> q \<and> q < length m \<and> (is_digit (m ! p) \<longrightarrow> p < q)"
  by (subst (asm) digits.simps) (auto simp: bindR_Inr_iff rd8_Inr_iff split: if_splits dest!: digits_bounds)

lemma number_int_bounds:
  assumes "number_int m p = Inr (n, q)"
  shows "p \<le> q \<and> q < length m \<and> (is_digit (m ! p) \<longrightarrow> p < q)"
proof -
  have "is_digit c \<longleftrightarrow> c = 0x30 \<or> (0x31 \<le> c \<and> c \<le> 0x39)" for c
    unfolding is_digit_def word_le_nat_alt word_unat_eq_iff by auto
  then show ?thesis
    using assms by (auto simp: number_int_def bindR_Inr_iff rd8_Inr_iff Let_def split: if_splits
      dest!: digits_first)
qed

lemma number_frac_bounds: "number_frac m n p = Inr (n', s, q) \<Longrightarrow> p \<le> q \<and> q < length m"
  by (auto simp: number_frac_def bindR_Inr_iff rd8_Inr_iff split: if_splits dest!: digits_bounds)

lemma number_exp_bounds: "number_exp m p = Inr (e, q) \<Longrightarrow> p \<le> q \<and> q < length m"
  by (auto simp: number_exp_def bindR_Inr_iff rd8_Inr_iff Let_def split: if_splits dest!: exponent_digits_bounds)

lemma parse_number_bounds:
  assumes "parse_number m p = Inr (d, q)" and "m ! p = 0x2D \<or> is_digit (m ! p)"
  shows "p < q \<and> q \<le> length m"
proof -
  from assms(1) obtain s p1 n p2 n' k p3 e where "number_sign m p = Inr (s, p1)" "number_int m p1 = Inr (n, p2)"
    "number_frac m n p2 = Inr (n', k, p3)" "number_exp m p3 = Inr (e, q)"
    by (auto simp: parse_number_def bindR_Inr_iff)
  with assms(2) show ?thesis
    using number_sign_bounds [of m p s p1] number_int_bounds [of m p1 n p2] number_frac_bounds [of m n p2 n' k p3]
      number_exp_bounds [of m p3 e q] by auto
qed

text \<open>
  What the loops need of the parser of values they are given: from a position after \<open>b\<close> it
  does not run out of fuel, and what it parses lies ahead and in the text.
\<close>

definition good_parser :: "bool \<Rightarrow> u8 list \<Rightarrow> nat \<Rightarrow> (nat \<Rightarrow> cjson parse) \<Rightarrow> bool" where
  "good_parser F m b pv \<longleftrightarrow> (\<forall>p. F \<and> b < p \<longrightarrow> pv p \<noteq> NoFuel) \<and>
     (\<forall>p x q. pv p = Parsed x q \<longrightarrow> p < q \<and> q \<le> length m)"

lemma array_loop_good:
  assumes "good_parser F m b pv" and "b < p" and "length m - p < k"
  shows "(F \<longrightarrow> array_loop k pv m p cs \<noteq> NoFuel) \<and>
    (\<forall>ys q. array_loop k pv m p cs = Parsed ys q \<longrightarrow> p < q \<and> q \<le> length m)"
  using assms(2,3)
proof (induction k arbitrary: p cs)
  case (Suc k)
  have step: "(F \<longrightarrow> array_loop k pv m r (cs @ [x]) \<noteq> NoFuel) \<and>
      (\<forall>ys q. array_loop k pv m r (cs @ [x]) = Parsed ys q \<longrightarrow> p < q \<and> q \<le> length m)"
    if "rd8 m p = Inr c" "skip m (Suc p) = Inr p1" "pv p1 = Parsed x p2" "skip m p2 = Inr r" for c p1 p2 r x
  proof -
    have "p1 < p2" using assms(1) that(3) by (auto simp: good_parser_def)
    with skip_bounds [OF that(2)] skip_bounds [OF that(4)] have "p < r" "r < length m" by auto
    then have "length m - r < k" using Suc.prems by auto
    with Suc.IH [of r "cs @ [x]"] Suc.prems \<open>p < r\<close> show ?thesis by auto
  qed
  have "F \<longrightarrow> pv p1 \<noteq> NoFuel" if "skip m (Suc p) = Inr p1" for p1
    using assms(1) skip_bounds [OF that] Suc.prems by (auto simp: good_parser_def)
  with step show ?case by (auto simp: parse_iffs rd8_Inr_iff)
qed simp

lemma parse_array_good:
  assumes "good_parser F m p pv"
  shows "(F \<longrightarrow> parse_array pv m p \<noteq> NoFuel) \<and> (\<forall>x q. parse_array pv m p = Parsed x q \<longrightarrow> p < q \<and> q \<le> length m)"
proof -
  have loop: "(F \<longrightarrow> array_loop (length m) pv m r [x] \<noteq> NoFuel) \<and>
      (\<forall>ys q. array_loop (length m) pv m r [x] = Parsed ys q \<longrightarrow> p < q \<and> q \<le> length m)"
    if "skip m (Suc p) = Inr p1" "skip m p1 = Inr p2" "pv p2 = Parsed x p3" "skip m p3 = Inr r" for p1 p2 p3 r x
  proof -
    have "p2 < p3" using assms that(3) by (auto simp: good_parser_def)
    with that(1,2,4) have "p < r" "r < length m" by (auto dest!: skip_bounds)
    moreover from this have "length m - r < length m" by auto
    ultimately show ?thesis using array_loop_good [OF assms, of r "length m" "[x]"] by auto
  qed
  have "F \<longrightarrow> pv p2 \<noteq> NoFuel" if "skip m (Suc p) = Inr p1" "skip m p1 = Inr p2" for p1 p2
    using assms that by (auto simp: good_parser_def dest!: skip_bounds)
  with loop show ?thesis
    by (auto simp: parse_array_def parse_iffs rd8_Inr_iff dest: skip_bounds)
qed

lemma parse_member_good:
  assumes "good_parser F m b pv" and "b < p"
  shows "(F \<longrightarrow> parse_member pv m p \<noteq> NoFuel) \<and>
    (\<forall>x q. parse_member pv m p = Parsed x q \<longrightarrow> p < q \<and> q < length m)"
proof -
  have "parse_string m r \<noteq> NoFuel" for r by (simp add: parse_string_def parse_iffs)
  moreover have "F \<longrightarrow> pv p4 \<noteq> NoFuel" if "skip m p = Inr p1" "parse_string m p1 = Parsed s p2" "skip m p2 = Inr p3"
      "skip m (Suc p3) = Inr p4" for p1 p2 p3 p4 s
    using assms that by (auto simp: good_parser_def dest!: skip_bounds parse_string_bounds)
  moreover have "p < q \<and> q < length m" if "skip m p = Inr p1" "parse_string m p1 = Parsed s p2" "skip m p2 = Inr p3"
      "skip m (Suc p3) = Inr p4" "pv p4 = Parsed x p5" "skip m p5 = Inr q" for p1 p2 p3 p4 p5 s x q
  proof -
    have "p4 < p5" using assms(1) that(5) by (auto simp: good_parser_def)
    with that show ?thesis by (auto dest!: skip_bounds parse_string_bounds)
  qed
  ultimately show ?thesis by (auto simp: parse_member_def parse_iffs)
qed

lemma object_loop_good:
  assumes "good_parser F m b pv" and "b < p" and "length m - p < k"
  shows "(F \<longrightarrow> object_loop k pv m p cs \<noteq> NoFuel) \<and>
    (\<forall>ys q. object_loop k pv m p cs = Parsed ys q \<longrightarrow> p < q \<and> q \<le> length m)"
  using assms(2,3)
proof (induction k arbitrary: p cs)
  case (Suc k)
  note mem = parse_member_good [OF assms(1), of "Suc p"]
  have step: "(F \<longrightarrow> object_loop k pv m r (cs @ [x]) \<noteq> NoFuel) \<and>
      (\<forall>ys q. object_loop k pv m r (cs @ [x]) = Parsed ys q \<longrightarrow> p < q \<and> q \<le> length m)"
    if "parse_member pv m (Suc p) = Parsed x r" for r x
  proof -
    have "p < r" "r < length m" using mem that Suc.prems by auto
    then have "length m - r < k" using Suc.prems by auto
    with Suc.IH [of r "cs @ [x]"] Suc.prems \<open>p < r\<close> show ?thesis by auto
  qed
  with mem Suc.prems show ?case by (auto simp: parse_iffs rd8_Inr_iff)
qed simp

lemma parse_object_good:
  assumes "good_parser F m p pv"
  shows "(F \<longrightarrow> parse_object pv m p \<noteq> NoFuel) \<and> (\<forall>x q. parse_object pv m p = Parsed x q \<longrightarrow> p < q \<and> q \<le> length m)"
proof -
  have mem: "(F \<longrightarrow> parse_member pv m r \<noteq> NoFuel) \<and> (\<forall>x q. parse_member pv m r = Parsed x q \<longrightarrow> r < q \<and> q < length m)"
    if "skip m (Suc p) = Inr r" for r
    using parse_member_good [OF assms, of r] skip_bounds [OF that] by auto
  have loop: "(F \<longrightarrow> object_loop (length m) pv m r [x] \<noteq> NoFuel) \<and>
      (\<forall>ys q. object_loop (length m) pv m r [x] = Parsed ys q \<longrightarrow> p < q \<and> q \<le> length m)"
    if "skip m (Suc p) = Inr p1" "parse_member pv m p1 = Parsed x r" for p1 r x
  proof -
    from mem [OF that(1)] that(2) skip_bounds [OF that(1)] have "p < r" "r < length m" by auto
    moreover from this have "length m - r < length m" by auto
    ultimately show ?thesis using object_loop_good [OF assms, of r "length m" "[x]"] by auto
  qed
  from mem loop show ?thesis
    by (auto simp: parse_object_def parse_iffs rd8_Inr_iff dest: skip_bounds)
qed

definition steady :: "bool \<Rightarrow> u8 list \<Rightarrow> nat \<Rightarrow> 'a parse \<Rightarrow> bool" where
  "steady F m p r \<longleftrightarrow> (F \<longrightarrow> r \<noteq> NoFuel) \<and> (\<forall>x q. r = Parsed x q \<longrightarrow> p < q \<and> q \<le> length m)"

lemma steady_simps [simp]: "steady F m p (Undef u)" "steady F m p (Failed e)"
    "steady F m p (Parsed x q) \<longleftrightarrow> p < q \<and> q \<le> length m"
  by (auto simp: steady_def)

lemma steady_tryR: "(\<And>x. r = Inr x \<Longrightarrow> steady F m p (f x)) \<Longrightarrow> steady F m p (tryR r f)"
  by (cases r) auto

lemma steady_if: "(b \<Longrightarrow> steady F m p r) \<Longrightarrow> (\<not> b \<Longrightarrow> steady F m p s) \<Longrightarrow> steady F m p (if b then r else s)"
  by simp

lemma parse_value_steady:
  assumes "p < length m" and "steady F m p (parse_array (parse_value n m) m p)"
    and "steady F m p (parse_object (parse_value n m) m p)"
  shows "steady F m p (parse_value (Suc n) m p)"
proof -
  have lit: "p + length l \<le> length m" if "starts_with m p l = Inr True" "l \<noteq> []" for l
    using starts_with_bounds [OF that(1)] that(2) by simp
  have str: "steady F m p (bindP (parse_string m p) (\<lambda>s p. Parsed (Item cJSON_String (Some s) None None []) p))"
    by (auto simp: steady_def parse_string_def parse_iffs dest!: unescape_bounds split: if_splits)
  have num: "steady F m p (tryR (parse_number m p) (\<lambda>(d, p). Parsed (Item cJSON_Number None (Some d) None []) p))"
    if "rd8 m p = Inr c" "c = 0x2D \<or> is_digit c" for c
    using that parse_number_bounds [of m p] by (intro steady_tryR) (auto simp: rd8_Inr_iff)
  show ?thesis
    unfolding parse_value.simps
    by (intro steady_tryR steady_if str num assms(2,3) steady_simps)
      (use lit [of "bytes_of ''null''"] lit [of "bytes_of ''false''"] lit [of "bytes_of ''true''"] in \<open>simp_all\<close>)
qed

lemma parse_value_good:
  "(length m - p < n \<longrightarrow> parse_value n m p \<noteq> NoFuel) \<and>
   (\<forall>x q. parse_value n m p = Parsed x q \<longrightarrow> p < q \<and> q \<le> length m)"
proof (induction n arbitrary: p)
  case (Suc n)
  define F where "F \<longleftrightarrow> length m - p < Suc n"
  have good: "good_parser F m p (parse_value n m)" if "p < length m"
  proof -
    have "length m - r < n" if "F" "p < r" for r using that \<open>p < length m\<close> by (auto simp: F_def)
    with Suc.IH show ?thesis by (auto simp: good_parser_def)
  qed
  have "steady F m p (parse_value (Suc n) m p)"
  proof (cases "p < length m")
    case True
    from parse_array_good [OF good [OF True]] parse_object_good [OF good [OF True]]
    show ?thesis by (intro parse_value_steady True) (simp_all add: steady_def)
  qed simp
  then show ?case by (simp only: F_def steady_def)
qed simp

section \<open>Texts in memory\<close>

text \<open>The bytes \<open>bs\<close> are at \<open>p\<close>.\<close>

definition text_at :: "u8 list \<Rightarrow> nat \<Rightarrow> u8 list \<Rightarrow> bool" where
  "text_at m p bs \<longleftrightarrow> (\<exists>r. drop p m = bs @ r)"

lemma text_at_Nil [simp]: "text_at m p []"
  by (simp add: text_at_def)

lemma text_at_Cons [simp]: "text_at m p (b # bs) \<longleftrightarrow> rd8 m p = Inr b \<and> text_at m (Suc p) bs"
proof -
  have "text_at m p (b # bs) \<longleftrightarrow> p < length m \<and> m ! p = b \<and> text_at m (Suc p) bs"
    unfolding text_at_def
    by (cases "p < length m") (auto simp: Cons_nth_drop_Suc [symmetric])
  then show ?thesis by (auto simp: rd8_Inr_iff)
qed

lemma text_at_append [simp]: "text_at m p (xs @ ys) \<longleftrightarrow> text_at m p xs \<and> text_at m (p + length xs) ys"
  by (induction xs arbitrary: p) auto

lemma text_at_length: "text_at m p bs \<Longrightarrow> bs \<noteq> [] \<Longrightarrow> p + length bs \<le> length m"
proof -
  assume "text_at m p bs" "bs \<noteq> []"
  then obtain r where r: "drop p m = bs @ r" by (auto simp: text_at_def)
  with \<open>bs \<noteq> []\<close> have "p < length m" by (metis append_is_Nil_conv drop_eq_Nil not_less)
  with arg_cong [OF r, of length] show ?thesis by simp
qed

definition solid :: "u8 \<Rightarrow> bool" where
  "solid c \<longleftrightarrow> c = 0 \<or> 32 < c"

lemma skip_solid: "rd8 m p = Inr c \<Longrightarrow> solid c \<Longrightarrow> skip m p = Inr p"
  by (subst skip.simps) (auto simp: solid_def)

text \<open>A string without quotes, backslashes and NUL is itself inside the quotes.\<close>

definition clean :: "u8 list \<Rightarrow> bool" where
  "clean s \<longleftrightarrow> (\<forall>c \<in> set s. c \<noteq> CH_QUOTE \<and> c \<noteq> CH_BACKSLASH \<and> c \<noteq> 0)"

lemma clean_Nil [simp]: "clean []"
  by (simp add: clean_def)

lemma clean_Cons [simp]: "clean (c # s) \<longleftrightarrow> c \<noteq> CH_QUOTE \<and> c \<noteq> CH_BACKSLASH \<and> c \<noteq> 0 \<and> clean s"
  by (auto simp: clean_def)

lemma count_string_clean:
  "clean s \<Longrightarrow> text_at m p (s @ [CH_QUOTE]) \<Longrightarrow> count_string m p len = Inr (len + length s)"
  by (induction s arbitrary: p len; subst count_string.simps) (auto simp: clean_def)

lemma unescape_clean:
  "clean s \<Longrightarrow> text_at m p (s @ [CH_QUOTE]) \<Longrightarrow> length w \<le> cap \<Longrightarrow>
    unescape m cap p w uc uc2 =
      (if length w + length s \<le> cap then Inr (w @ s, p + length s) else Inl OutOfBounds)"
proof (induction s arbitrary: p w)
  case Nil
  then show ?case by (subst unescape.simps) simp
next
  case (Cons c s)
  show ?case
  proof (cases "length w < cap")
    case True
    with Cons.IH [of "Suc p" "w @ [c]"] Cons.prems show ?thesis
      by (subst unescape.simps) (auto simp: put_bytes_def)
  next
    case False
    with Cons.prems show ?thesis by (subst unescape.simps) (auto simp: put_bytes_def)
  qed
qed

section \<open>Correctness\<close>

text \<open>C21: parsing ends on every text, well-formed or not: the recursion of parse_value goes one level deeper only after a
  bracket and every round of its loops reads a comma, so the bound on the nesting that the model has, the
  length of the text, is never reached; what is parsed lies ahead and inside the text.\<close>
theorem cJSON_Parse_terminates:
  "cJSON_ParseWithOpts m p nul \<noteq> NoFuel \<and>
   (\<forall>x q. cJSON_ParseWithOpts m p nul = Parsed x q \<longrightarrow> p < q \<and> q \<le> length m)"
proof -
  have "parse_value (Suc (length m)) m r \<noteq> NoFuel" for r
    using parse_value_good [of m r "Suc (length m)"] by (simp del: parse_value.simps)
  moreover have "p < q \<and> q \<le> length m" if "skip m p = Inr r" "parse_value (Suc (length m)) m r = Parsed x q" for r x q
    using parse_value_good [of m r "Suc (length m)"] skip_bounds [OF that(1)] that(2)
    by (auto simp del: parse_value.simps)
  ultimately show ?thesis
    by (auto simp: cJSON_ParseWithOpts_def parse_iffs simp del: parse_value.simps split: if_splits)
      (metis less_le_trans less_imp_le_nat skip_bounds)+
qed

theorem cJSON_Parse_terminates_witness:
  "length (bytes_of ''[[{}'' @ [0]) = 5 \<and> cJSON_ParseWithOpts (bytes_of ''[[{}'' @ [0]) 0 False \<noteq> NoFuel"
  using cJSON_Parse_terminates [of "bytes_of ''[[{}'' @ [0]" 0 False] by simp

text \<open>A string that was allocated with room for three characters, one of them an incomplete escape.\<close>

definition bad_escape :: "u8 list \<Rightarrow> u8 list" where
  "bad_escape s = [CH_QUOTE, CH_BACKSLASH, 0x75, 0x31, 0x32, CH_QUOTE] @ s @ [CH_QUOTE, 0]"

lemma text_at_drop: "drop p m = bs @ r \<Longrightarrow> text_at m p bs"
  by (auto simp: text_at_def)

lemma bad_escape_rd:
  "rd8 (bad_escape s) 0 = Inr CH_QUOTE" "rd8 (bad_escape s) (Suc 0) = Inr CH_BACKSLASH"
  "rd8 (bad_escape s) 2 = Inr 0x75" "rd8 (bad_escape s) 3 = Inr 0x31" "rd8 (bad_escape s) 4 = Inr 0x32"
  "rd8 (bad_escape s) 5 = Inr CH_QUOTE"
  by (simp_all add: bad_escape_def)

lemma bad_escape_count: "count_string (bad_escape s) (Suc 0) 0 = Inr 3"
proof -
  have "count_string (bad_escape s) 5 3 = Inr 3" by (subst count_string.simps) (simp add: bad_escape_rd numeral_2_eq_2 [symmetric])
  then have "count_string (bad_escape s) 4 2 = Inr 3" by (subst count_string.simps) (simp add: bad_escape_rd numeral_2_eq_2 [symmetric])
  then have "count_string (bad_escape s) 3 1 = Inr 3" by (subst count_string.simps) (simp add: bad_escape_rd numeral_2_eq_2 [symmetric])
  then show ?thesis by (subst count_string.simps) (simp add: bad_escape_rd numeral_2_eq_2 [symmetric])
qed

lemma bad_escape_unicode: "unicode_escape (bad_escape s) (Suc 0) None None = Inr ([0x12], False, Some 0x12, None)"
proof -
  have "skip_spaces (bad_escape s) 3 = Inr 3"
    by (subst skip_spaces.simps) (simp add: bad_escape_rd is_space_def)
  moreover have "hex_digits (Suc (Suc (Suc w))) (bad_escape s) 3 0 0 = Inr (18, 2)" for w
    by (simp add: bad_escape_rd hex_value_def is_digit_def)
  from this [of 1] have "hex_digits 4 (bad_escape s) 3 0 0 = Inr (18, 2)" by (simp add: numeral_eq_Suc)
  ultimately have "sscanf_4x (bad_escape s) 3 = Inr (Some 0x12)"
    by (simp add: sscanf_4x_def bad_escape_rd)
  then show ?thesis
    by (simp add: unicode_escape_def utf8_def utf8_len_def firstByteMark_def numeral_3_eq_3 [symmetric])
qed

text \<open>C40: an incomplete \u escape defeats the two passes of parse_string: the first pass stops at the quote after it and
  counts three characters; the second skips that quote with the four digits it expects and goes on to unescape
  whatever follows, so that with four or more characters up to the next quote it writes past the end of the buffer.\<close>
theorem parse_string_overruns:
  assumes "clean s" and "4 \<le> length s"
  shows "parse_string (bad_escape s) 0 = Undef OutOfBounds"
proof -
  let ?m = "bad_escape s"
  obtain a t where s: "s = a # t" using assms(2) by (cases s) auto
  have at: "text_at ?m 7 (t @ [CH_QUOTE])"
    by (rule text_at_drop [where r = "[0]"]) (simp add: bad_escape_def s)
  have "unescape ?m 4 (Suc 0) [] None None = unescape ?m 4 7 [0x12] (Some 0x12) None"
    by (subst unescape.simps) (simp add: bad_escape_rd bad_escape_unicode put_bytes_def numeral_2_eq_2 [symmetric])
  also have "\<dots> = (if length t \<le> 3 then Inr ([0x12] @ t, 7 + length t) else Inl OutOfBounds)"
    using unescape_clean [OF _ at, of "[0x12]" 4 "Some 0x12" None] assms(1) s by simp
  finally show ?thesis
    using bad_escape_rd [of s] bad_escape_count [of s] assms(2) s by (auto simp: parse_string_def put_bytes_def)
qed

theorem parse_string_overruns_witness:
  "parse_string (bad_escape (bytes_of ''attack'')) 0 = Undef OutOfBounds"
  by (rule parse_string_overruns) (simp_all add: clean_def)

end
