(* ===== verification/CJsonGrammar.thy ===== *)
theory CJsonGrammar
  imports CJson
begin

text \<open>
  The JSON grammar as relations between an item and its texts, and the proof that the parser
  of \<^verbatim>\<open>src/src/cJSON.c\<close> reads every text of the grammar: strings with all their escapes,
  numbers, white space between tokens, arrays and objects.
\<close>

section \<open>Strings\<close>

text \<open>Four hexadecimal digits and their value.\<close>

definition hex4 :: "u8 list \<Rightarrow> nat \<Rightarrow> bool" where
  "hex4 h n \<longleftrightarrow> (\<exists>a b c d. map hex_value h = [Some a, Some b, Some c, Some d] \<and>
     n = ((a * 16 + b) * 16 + c) * 16 + d)"

definition surrogate_pair :: "nat \<Rightarrow> nat \<Rightarrow> u32" where
  "surrogate_pair u v =
     0x10000 + ((push_bit 10 ((of_nat u :: u32) AND 0x3FF)) OR ((of_nat v :: u32) AND 0x3FF))"

text \<open>\<open>str_text b s\<close>: between quotes, the text \<open>b\<close> stands for the string \<open>s\<close>.\<close>

inductive str_text :: "u8 list \<Rightarrow> u8 list \<Rightarrow> bool" where
  str_nil: "str_text [] []"
| str_char: "c \<noteq> CH_QUOTE \<Longrightarrow> c \<noteq> CH_BACKSLASH \<Longrightarrow> c \<noteq> 0 \<Longrightarrow> str_text b s \<Longrightarrow> str_text (c # b) (c # s)"
| str_escape: "e \<noteq> 0x75 \<Longrightarrow> e \<noteq> 0 \<Longrightarrow> str_text b s \<Longrightarrow> str_text (CH_BACKSLASH # e # b) (simple_escape e # s)"
| str_unicode: "hex4 h u \<Longrightarrow> 0 < u \<Longrightarrow> u < 0xD800 \<or> 0xDFFF < u \<Longrightarrow> str_text b s \<Longrightarrow>
    str_text (CH_BACKSLASH # 0x75 # h @ b) (utf8 (of_nat u) @ s)"
| str_pair: "hex4 h u \<Longrightarrow> 0xD800 \<le> u \<Longrightarrow> u \<le> 0xDBFF \<Longrightarrow> hex4 g v \<Longrightarrow> 0xDC00 \<le> v \<Longrightarrow> v \<le> 0xDFFF \<Longrightarrow>
    str_text b s \<Longrightarrow>
    str_text (CH_BACKSLASH # 0x75 # h @ CH_BACKSLASH # 0x75 # g @ b) (utf8 (surrogate_pair u v) @ s)"

lemma hex_value_lt: "hex_value c = Some d \<Longrightarrow> d < 16"
  by (auto simp: hex_value_def is_digit_def word_le_nat_alt split: if_splits)

lemma hex_value_props:
  "hex_value c = Some d \<Longrightarrow> c \<noteq> 0 \<and> c \<noteq> CH_QUOTE \<and> c \<noteq> CH_BACKSLASH \<and> \<not> is_space c \<and>
     c \<noteq> 0x2D \<and> c \<noteq> 0x2B \<and> c \<noteq> 0x78 \<and> c \<noteq> 0x58"
  by (auto simp: hex_value_def is_digit_def is_space_def word_le_nat_alt word_unat_eq_iff split: if_splits)

lemma hex4E:
  assumes "hex4 h n"
  obtains a b c d x y z w where "h = [x, y, z, w]" "hex_value x = Some a" "hex_value y = Some b"
    "hex_value z = Some c" "hex_value w = Some d" "n = ((a * 16 + b) * 16 + c) * 16 + d"
  using assms unfolding hex4_def by (auto simp: map_eq_Cons_conv)

lemma hex4_length: "hex4 h n \<Longrightarrow> length h = 4"
  by (auto elim: hex4E)

lemma hex4_less: "hex4 h n \<Longrightarrow> n < 0x10000"
  by (elim hex4E) (use hex_value_lt in \<open>force dest!: hex_value_lt\<close>)

lemma sscanf_hex4:
  assumes "hex4 h n" and "text_at m p h"
  shows "sscanf_4x m p = Inr (Some (of_nat n))"
  using assms(1)
proof (rule hex4E)
  fix a b c d x y z w
  assume h: "h = [x, y, z, w]" "hex_value x = Some a" "hex_value y = Some b"
    "hex_value z = Some c" "hex_value w = Some d" "n = ((a * 16 + b) * 16 + c) * 16 + d"
  from assms(2) h(1) have r: "rd8 m p = Inr x" "rd8 m (Suc p) = Inr y" "rd8 m (Suc (Suc p)) = Inr z"
    "rd8 m (Suc (Suc (Suc p))) = Inr w" by simp_all
  from hex_value_props [OF h(2)] r(1) have "skip_spaces m p = Inr p"
    by (subst skip_spaces.simps) simp
  moreover have "hex_digits (Suc (Suc (Suc (Suc 0)))) m p 0 0 = Inr (n, 4)"
    using r h by simp
  then have "hex_digits 4 m p 0 0 = Inr (n, 4)" by (simp add: numeral_eq_Suc)
  ultimately show ?thesis
    using r hex_value_props [OF h(2)] hex_value_props [OF h(3)] by (simp add: sscanf_4x_def)
qed

lemma count_string_plain:
  assumes "\<forall>c \<in> set h. c \<noteq> CH_QUOTE \<and> c \<noteq> CH_BACKSLASH \<and> c \<noteq> 0" and "text_at m p h"
  shows "count_string m p len = count_string m (p + length h) (len + length h)"
  using assms
proof (induction h arbitrary: p len)
  case (Cons c h)
  then have "count_string m p len = count_string m (Suc p) (Suc len)"
    by (subst count_string.simps) simp
  with Cons show ?case by simp
qed simp

lemma count_string_backslash:
  "rd8 m p = Inr CH_BACKSLASH \<Longrightarrow> count_string m p len = count_string m (p + 2) (len + 1)"
  by (subst count_string.simps) simp

lemma hex4_plain: "hex4 h n \<Longrightarrow> \<forall>c \<in> set h. c \<noteq> CH_QUOTE \<and> c \<noteq> CH_BACKSLASH \<and> c \<noteq> 0"
  by (auto elim!: hex4E dest: hex_value_props)

lemma utf8_len_bound: "utf8_len u \<le> 4" "u < 0x10000 \<Longrightarrow> utf8_len u \<le> 3"
  by (auto simp: utf8_len_def)

lemma utf8_tail_length: "length (snd (utf8_tail k u bs)) = k + length bs"
  by (induction k arbitrary: u bs) auto

lemma utf8_length: "length (utf8 u) = utf8_len u"
  using utf8_tail_length [of "utf8_len u - 1" u "[]"]
  by (auto simp: utf8_def Let_def split: prod.splits) (simp add: utf8_len_def split: if_splits)


lemma count_string_text:
  "str_text b s \<Longrightarrow> text_at m p (b @ [CH_QUOTE]) \<Longrightarrow> \<exists>k. length s \<le> k \<and> count_string m p len = Inr (len + k)"
proof (induction b s arbitrary: p len rule: str_text.induct)
  case str_nil
  then show ?case by (intro exI [of _ 0]) (subst count_string.simps, simp)
next
  case (str_char c b s)
  from str_char.prems have "text_at m (Suc p) (b @ [CH_QUOTE])" by simp
  from str_char.IH [OF this, of "Suc len"] obtain k
    where "length s \<le> k" "count_string m (Suc p) (Suc len) = Inr (Suc len + k)" by blast
  with str_char.hyps str_char.prems show ?case
    by (intro exI [of _ "Suc k"]) (subst count_string.simps, simp)
next
  case (str_escape e b s)
  from str_escape.prems have "text_at m (p + 2) (b @ [CH_QUOTE])" by simp
  from str_escape.IH [OF this, of "Suc len"] obtain k
    where "length s \<le> k" "count_string m (p + 2) (Suc len) = Inr (Suc len + k)" by blast
  with str_escape.prems show ?case
    by (intro exI [of _ "Suc k"]) (subst count_string.simps, simp)
next
  case (str_unicode h u b s)
  have h: "length h = 4" by (rule hex4_length) fact
  from str_unicode.prems h have t: "text_at m (p + 2) h" "text_at m (p + 6) (b @ [CH_QUOTE])"
    "rd8 m p = Inr CH_BACKSLASH" by (simp_all add: add.commute)
  from str_unicode.IH [OF t(2), of "len + 5"] obtain k
    where k: "length s \<le> k" "count_string m (p + 6) (len + 5) = Inr (len + 5 + k)" by blast
  have "count_string m p len = count_string m (p + 2) (len + 1)"
    using count_string_backslash [OF t(3), of len] by simp
  also have "\<dots> = Inr (len + (k + 5))"
    using count_string_plain [OF hex4_plain [OF str_unicode.hyps(1)] t(1), of "len + 1"] k(2) h by (simp add: add.commute)
  finally show ?case
    using k(1) utf8_len_bound(1) [of "of_nat u"] by (intro exI [of _ "k + 5"]) (simp add: utf8_length)
next
  case (str_pair h u g v b s)
  have h: "length h = 4" "length g = 4" by (rule hex4_length, fact)+
  from str_pair.prems h have t: "text_at m (p + 2) h" "text_at m (p + 8) g" "text_at m (p + 12) (b @ [CH_QUOTE])"
    "rd8 m p = Inr CH_BACKSLASH" "rd8 m (p + 6) = Inr CH_BACKSLASH" by (simp_all add: add.commute)
  from str_pair.IH [OF t(3), of "len + 10"] obtain k
    where k: "length s \<le> k" "count_string m (p + 12) (len + 10) = Inr (len + 10 + k)" by blast
  have "count_string m p len = count_string m (p + 2) (len + 1)"
    using count_string_backslash [OF t(4), of len] by simp
  also have "\<dots> = count_string m (p + 6) (len + 5)"
    using count_string_plain [OF hex4_plain [OF str_pair.hyps(1)] t(1), of "len + 1"] h by (simp add: add.commute)
  also have "\<dots> = count_string m (p + 8) (len + 6)"
    using count_string_backslash [OF t(5), of "len + 5"] by (simp add: add.commute)
  also have "\<dots> = Inr (len + (k + 10))"
    using count_string_plain [OF hex4_plain [OF str_pair.hyps(4)] t(2), of "len + 6"] k(2) h by (simp add: add.commute)
  finally show ?case
    using k(1) utf8_len_bound(1) [of "surrogate_pair u v"] by (intro exI [of _ "k + 10"]) (simp add: utf8_length)
qed

lemma unescape_plain:
  "rd8 m p = Inr c \<Longrightarrow> c \<noteq> CH_QUOTE \<Longrightarrow> c \<noteq> 0 \<Longrightarrow> c \<noteq> CH_BACKSLASH \<Longrightarrow> length w < cap \<Longrightarrow>
    unescape m cap p w uc uc2 = unescape m cap (Suc p) (w @ [c]) uc uc2"
  by (subst unescape.simps) (simp add: put_bytes_def)

lemma unescape_simple:
  "rd8 m p = Inr CH_BACKSLASH \<Longrightarrow> rd8 m (Suc p) = Inr e \<Longrightarrow> e \<noteq> 0x75 \<Longrightarrow> length w < cap \<Longrightarrow>
    unescape m cap p w uc uc2 = unescape m cap (p + 2) (w @ [simple_escape e]) uc uc2"
  by (subst unescape.simps) (simp add: put_bytes_def)

lemma unescape_unicode:
  "rd8 m p = Inr CH_BACKSLASH \<Longrightarrow> rd8 m (Suc p) = Inr 0x75 \<Longrightarrow>
    unicode_escape m p uc uc2 = Inr (bs, pair, uc', uc2') \<Longrightarrow> length w + length bs \<le> cap \<Longrightarrow>
    unescape m cap p w uc uc2 = unescape m cap (p + (if pair then 12 else 6)) (w @ bs) uc' uc2'"
  by (subst unescape.simps) (simp add: put_bytes_def)

lemma of_nat_u32_le: "u < 0x10000 \<Longrightarrow> v < 0x10000 \<Longrightarrow> (of_nat u :: u32) \<le> of_nat v \<longleftrightarrow> u \<le> v"
  by (simp add: word_le_nat_alt unsigned_of_nat take_bit_eq_mod)

lemma of_nat_u32_range:
  assumes "u < 0x10000"
  shows "(of_nat u :: u32) \<le> 0xDBFF \<longleftrightarrow> u \<le> 0xDBFF" "(of_nat u :: u32) \<le> 0xDFFF \<longleftrightarrow> u \<le> 0xDFFF"
    "0xD800 \<le> (of_nat u :: u32) \<longleftrightarrow> 0xD800 \<le> u" "0xDC00 \<le> (of_nat u :: u32) \<longleftrightarrow> 0xDC00 \<le> u"
    "(of_nat u :: u32) < 0xDC00 \<longleftrightarrow> u < 0xDC00" "0xDFFF < (of_nat u :: u32) \<longleftrightarrow> 0xDFFF < u"
  using of_nat_u32_le [of u "0xDBFF"] of_nat_u32_le [of u "0xDFFF"]
    of_nat_u32_le [of "0xD800" u] of_nat_u32_le [of "0xDC00" u] assms
  by (simp_all flip: not_le)

lemma of_nat_u32_0: "u < 0x10000 \<Longrightarrow> (of_nat u :: u32) = 0 \<longleftrightarrow> u = 0"
  by (simp add: word_unat_eq_iff unsigned_of_nat take_bit_eq_mod)

lemma unicode_escape_single:
  assumes "hex4 h u" "0 < u" "u < 0xD800 \<or> 0xDFFF < u" and "text_at m (p + 2) h"
  shows "\<exists>x. unicode_escape m p uc uc2 = Inr (utf8 (of_nat u), False, x, uc2)"
  using sscanf_hex4 [OF assms(1,4)] assms(2,3)
  by (auto simp: unicode_escape_def of_nat_u32_range [OF hex4_less [OF assms(1)]] of_nat_u32_0 [OF hex4_less [OF assms(1)]])

lemma unicode_escape_pair:
  assumes "hex4 h u" "0xD800 \<le> u" "u \<le> 0xDBFF" and "text_at m (p + 2) h"
    and "hex4 g v" "0xDC00 \<le> v" "v \<le> 0xDFFF" and "text_at m (p + 8) g"
    and "rd8 m (p + 6) = Inr CH_BACKSLASH" "rd8 m (p + 7) = Inr 0x75"
  shows "\<exists>x y. unicode_escape m p uc uc2 = Inr (utf8 (surrogate_pair u v), True, x, y)"
proof -
  have "\<not> (of_nat u :: u32) \<ge> 0xDC00" "(of_nat u :: u32) \<noteq> 0" "(of_nat u :: u32) \<ge> 0xD800" "(of_nat u :: u32) \<le> 0xDBFF"
    "\<not> (of_nat v :: u32) < 0xDC00" "\<not> (of_nat v :: u32) > 0xDFFF"
    using assms(2,3,6,7) of_nat_u32_range [OF hex4_less [OF assms(1)]] of_nat_u32_0 [OF hex4_less [OF assms(1)]]
      of_nat_u32_range [OF hex4_less [OF assms(5)]] by auto
  with sscanf_hex4 [OF assms(1,4)] sscanf_hex4 [OF assms(5,8)] assms(9,10) show ?thesis
    by (simp add: unicode_escape_def Let_def surrogate_pair_def)
qed

lemma unescape_text:
  "str_text b s \<Longrightarrow> text_at m p (b @ [CH_QUOTE]) \<Longrightarrow> length w + length s \<le> cap \<Longrightarrow>
    unescape m cap p w uc uc2 = Inr (w @ s, p + length b)"
proof (induction b s arbitrary: p w uc uc2 rule: str_text.induct)
  case str_nil
  then show ?case by (subst unescape.simps) simp
next
  case (str_char c b s)
  then have "unescape m cap (Suc p) (w @ [c]) uc uc2 = Inr ((w @ [c]) @ s, Suc p + length b)"
    by (intro str_char.IH) simp_all
  with str_char.hyps str_char.prems show ?case by (subst unescape_plain [of m p c]) simp_all
next
  case (str_escape e b s)
  then have "unescape m cap (p + 2) (w @ [simple_escape e]) uc uc2 = Inr ((w @ [simple_escape e]) @ s, p + 2 + length b)"
    by (intro str_escape.IH) simp_all
  with str_escape.hyps str_escape.prems show ?case by (subst unescape_simple [of m p e]) simp_all
next
  case (str_unicode h u b s)
  have h: "length h = 4" by (rule hex4_length) fact
  from str_unicode.prems(1) h have t: "text_at m (p + 2) h" "text_at m (p + 6) (b @ [CH_QUOTE])"
    "rd8 m p = Inr CH_BACKSLASH" "rd8 m (Suc p) = Inr 0x75" by (simp_all add: add.commute)
  obtain x where x: "unicode_escape m p uc uc2 = Inr (utf8 (of_nat u), False, x, uc2)"
    using unicode_escape_single [OF str_unicode.hyps(1-3) t(1)] by blast
  have "unescape m cap (p + 6) (w @ utf8 (of_nat u)) x uc2 = Inr ((w @ utf8 (of_nat u)) @ s, p + 6 + length b)"
    by (rule str_unicode.IH [OF t(2)]) (use str_unicode.prems(2) in simp)
  with unescape_unicode [OF t(3,4) x, of w cap] str_unicode.prems(2) h show ?case by simp
next
  case (str_pair h u g v b s)
  have h: "length h = 4" "length g = 4" by (rule hex4_length, fact)+
  from str_pair.prems(1) h have t: "text_at m (p + 2) h" "text_at m (p + 8) g" "text_at m (p + 12) (b @ [CH_QUOTE])"
    "rd8 m p = Inr CH_BACKSLASH" "rd8 m (Suc p) = Inr 0x75" "rd8 m (p + 6) = Inr CH_BACKSLASH" "rd8 m (p + 7) = Inr 0x75"
    by (simp_all add: add.commute)
  obtain x y where x: "unicode_escape m p uc uc2 = Inr (utf8 (surrogate_pair u v), True, x, y)"
    using unicode_escape_pair [OF str_pair.hyps(1-3) t(1) str_pair.hyps(4-6) t(2,6,7)] by blast
  have "unescape m cap (p + 12) (w @ utf8 (surrogate_pair u v)) x y =
      Inr ((w @ utf8 (surrogate_pair u v)) @ s, p + 12 + length b)"
    by (rule str_pair.IH [OF t(3)]) (use str_pair.prems(2) in simp)
  with unescape_unicode [OF t(4,5) x, of w cap] str_pair.prems(2) h show ?case by simp
qed

lemma parse_string_text:
  assumes "str_text b s" and "text_at m p (CH_QUOTE # b @ [CH_QUOTE])"
  shows "parse_string m p = Parsed s (p + length b + 2)"
proof -
  from assms(2) have t: "rd8 m p = Inr CH_QUOTE" "text_at m (Suc p) (b @ [CH_QUOTE])"
    "rd8 m (Suc p + length b) = Inr CH_QUOTE" by auto
  obtain k where k: "length s \<le> k" "count_string m (Suc p) 0 = Inr k"
    using count_string_text [OF assms(1) t(2), of 0] by auto
  have "unescape m (k + 1) (Suc p) [] None None = Inr (s, Suc p + length b)"
    using unescape_text [OF assms(1) t(2), of "[]" "k + 1"] k(1) by simp
  with k t(1,3) show ?thesis by (simp add: parse_string_def put_bytes_def)
qed

section \<open>Numbers\<close>

definition dval :: "int \<Rightarrow> u8 list \<Rightarrow> int" where
  "dval n ds = foldl (\<lambda>n c. n * 10 + (uint c - 0x30)) n ds"

lemma dval_simps [simp]: "dval n [] = n" "dval n (c # ds) = dval (n * 10 + (uint c - 0x30)) ds"
  "dval n (ds @ es) = dval (dval n ds) es"
  by (simp_all add: dval_def)

definition all_digits :: "u8 list \<Rightarrow> bool" where
  "all_digits ds \<longleftrightarrow> (\<forall>c \<in> set ds. is_digit c)"

lemma all_digits_simps [simp]: "all_digits []" "all_digits (c # ds) \<longleftrightarrow> is_digit c \<and> all_digits ds"
  "all_digits (ds @ es) \<longleftrightarrow> all_digits ds \<and> all_digits es"
  by (auto simp: all_digits_def)

definition int_part :: "u8 list \<Rightarrow> bool" where
  "int_part ip \<longleftrightarrow> ip = [0x30] \<or> (ip \<noteq> [] \<and> hd ip \<noteq> 0x30 \<and> all_digits ip)"

definition frac_part :: "u8 list \<Rightarrow> u8 list" where
  "frac_part fp = (if fp = [] then [] else 0x2E # fp)"

definition exp_part :: "int \<Rightarrow> u8 list \<Rightarrow> bool" where
  "exp_part e ex \<longleftrightarrow> (ex = [] \<and> e = 0) \<or>
     (\<exists>c ds. c \<in> {0x65, 0x45} \<and> ds \<noteq> [] \<and> all_digits ds \<and> length ds \<le> 9 \<and>
       (ex = c # ds \<and> e = dval 0 ds \<or> ex = c # 0x2B # ds \<and> e = dval 0 ds \<or> ex = c # 0x2D # ds \<and> e = - dval 0 ds))"

text \<open>A number of the JSON grammar, with at most nine digits in its exponent, and its value.\<close>

definition num_text :: "decimal_number \<Rightarrow> u8 list \<Rightarrow> bool" where
  "num_text d t \<longleftrightarrow> (\<exists>neg ip fp e ex. int_part ip \<and> all_digits fp \<and> exp_part e ex \<and>
     t = (if neg then [0x2D] else []) @ ip @ frac_part fp @ ex \<and>
     d = Dec ((if neg then -1 else 1) * dval 0 (ip @ fp)) (e - int (length fp)))"

definition num_stop :: "u8 \<Rightarrow> bool" where
  "num_stop c \<longleftrightarrow> \<not> is_digit c \<and> c \<noteq> 0x2E \<and> c \<noteq> 0x65 \<and> c \<noteq> 0x45"

lemma digits_run:
  "all_digits ds \<Longrightarrow> text_at m p ds \<Longrightarrow> rd8 m (p + length ds) = Inr c \<Longrightarrow> \<not> is_digit c \<Longrightarrow>
    digits m p n k = Inr (dval n ds, k + length ds, p + length ds)"
  by (induction ds arbitrary: p n k; subst digits.simps) auto

lemma is_digit_range: "is_digit c \<Longrightarrow> 0 \<le> uint c - 0x30 \<and> uint c - 0x30 \<le> 9"
  by (auto simp: is_digit_def word_le_def)

lemma exponent_digits_run:
  "all_digits ds \<Longrightarrow> text_at m p ds \<Longrightarrow> rd8 m (p + length ds) = Inr c \<Longrightarrow> \<not> is_digit c \<Longrightarrow>
    0 \<le> s \<Longrightarrow> (s + 1) * 10 ^ length ds \<le> 10 ^ 9 \<Longrightarrow>
    exponent_digits m p s = Inr (dval s ds, p + length ds)"
proof (induction ds arbitrary: p s)
  case Nil
  then show ?case by (subst exponent_digits.simps) simp
next
  case (Cons d ds)
  have "(1::int) \<le> 10 ^ length ds" by simp
  with Cons.prems(5,6) have "(s + 1) * 10 \<le> (s + 1) * 10 * 10 ^ length ds" by (simp add: mult_le_cancel_left1)
  with Cons.prems(6) have s: "s * 10 + 10 \<le> 10 ^ 9" by (simp add: algebra_simps)
  let ?t = "s * 10 + (uint d - 0x30)"
  have d: "0 \<le> uint d - 0x30 \<and> uint d - 0x30 \<le> 9" using is_digit_range Cons.prems(1) by simp
  have "(?t + 1) * 10 ^ length ds \<le> (s + 1) * 10 * 10 ^ length ds"
    using d by (intro mult_right_mono) auto
  also have "\<dots> = (s + 1) * 10 ^ length (d # ds)" by simp
  finally have "(?t + 1) * 10 ^ length ds \<le> 10 ^ 9" using Cons.prems(6) by linarith
  then have "exponent_digits m (Suc p) ?t = Inr (dval ?t ds, Suc p + length ds)"
    using Cons.prems d by (intro Cons.IH) auto
  moreover have "to_int (s * 10) = Inr (s * 10)" "to_int ?t = Inr ?t"
    using s d Cons.prems(5) by (auto simp: to_int_def INT_MAX_def INT_MIN_def)
  ultimately show ?case
    using Cons.prems(1,2) by (subst exponent_digits.simps) simp
qed

lemma is_digit_cases: "is_digit c \<longleftrightarrow> c = 0x30 \<or> (0x31 \<le> c \<and> c \<le> 0x39)"
  unfolding is_digit_def word_le_nat_alt word_unat_eq_iff by auto

lemma number_int_run:
  assumes "int_part ip" and "text_at m p ip" and "rd8 m (p + length ip) = Inr c" and "\<not> is_digit c"
  shows "number_int m p = Inr (dval 0 ip, p + length ip)"
proof (cases "ip = [0x30]")
  case True
  with assms(2-4) show ?thesis by (auto simp: number_int_def is_digit_cases)
next
  case False
  with assms(1) obtain d ds where ip: "ip = d # ds" "d \<noteq> 0x30" "all_digits ip"
    by (cases ip) (auto simp: int_part_def)
  with assms(2) have "rd8 m p = Inr d" "0x31 \<le> d \<and> d \<le> 0x39" by (auto simp: is_digit_cases)
  with digits_run [OF ip(3) assms(2-4), of 0 0] ip(2) show ?thesis by (simp add: number_int_def)
qed

lemma number_frac_run:
  assumes "all_digits fp" and "text_at m p (frac_part fp)" and "rd8 m (p + length (frac_part fp)) = Inr c"
    and "\<not> is_digit c" and "fp = [] \<longrightarrow> c \<noteq> 0x2E"
  shows "number_frac m n p = Inr (dval n fp, - int (length fp), p + length (frac_part fp))"
proof (cases fp)
  case Nil
  with assms show ?thesis by (simp add: number_frac_def frac_part_def)
next
  case (Cons d ds)
  with assms have "rd8 m p = Inr 0x2E" "rd8 m (p + 1) = Inr d" "is_digit d" "text_at m (p + 1) fp"
    "rd8 m (p + 1 + length fp) = Inr c" by (auto simp: frac_part_def)
  with digits_run [OF assms(1) this(4,5) assms(4), of n 0] Cons show ?thesis
    by (simp add: number_frac_def frac_part_def)
qed

lemma exponent_of:
  assumes "all_digits ds" and "length ds \<le> 9" and "text_at m p ds" and "rd8 m (p + length ds) = Inr c" and "\<not> is_digit c"
  shows "exponent_digits m p 0 = Inr (dval 0 ds, p + length ds)"
proof -
  have "(10::int) ^ length ds \<le> 10 ^ 9" by (rule power_increasing) (use assms(2) in simp_all)
  with exponent_digits_run [OF assms(1,3-5), of 0] show ?thesis by simp
qed

lemma number_exp_run:
  assumes "exp_part e ex" and "text_at m p ex" and "rd8 m (p + length ex) = Inr c" and "num_stop c"
  shows "number_exp m p = Inr (e, p + length ex)"
proof -
  from assms(4) have c: "\<not> is_digit c" by (simp add: num_stop_def)
  consider "ex = []" "e = 0"
    | d ds where "d \<in> {0x65, 0x45}" "ds \<noteq> []" "all_digits ds" "length ds \<le> 9" "ex = d # ds" "e = dval 0 ds"
    | d ds where "d \<in> {0x65, 0x45}" "all_digits ds" "length ds \<le> 9" "ex = d # 0x2B # ds" "e = dval 0 ds"
    | d ds where "d \<in> {0x65, 0x45}" "all_digits ds" "length ds \<le> 9" "ex = d # 0x2D # ds" "e = - dval 0 ds"
    using assms(1) unfolding exp_part_def by (elim disjE exE conjE) simp_all
  then show ?thesis
  proof cases
    case 1
    with assms(3,4) show ?thesis by (simp add: number_exp_def num_stop_def)
  next
    case 2
    with assms(2) have t: "rd8 m p = Inr d" "text_at m (Suc p) ds" by auto
    from assms(3) 2 have "rd8 m (Suc p + length ds) = Inr c" by simp
    from exponent_of [OF 2(3,4) t(2) this c] have r: "exponent_digits m (Suc p) 0 = Inr (dval 0 ds, Suc p + length ds)" .
    obtain b bs where "ds = b # bs" using 2(2) by (cases ds) auto
    with t(2) 2(3) have "rd8 m (Suc p) = Inr b" "b \<noteq> 0x2B" "b \<noteq> 0x2D"
      by (auto simp: is_digit_def word_le_nat_alt word_unat_eq_iff)
    with t(1) r 2 show ?thesis by (auto simp: number_exp_def)
  next
    case 3
    with assms(2) have t: "rd8 m p = Inr d" "rd8 m (Suc p) = Inr 0x2B" "text_at m (p + 2) ds" by auto
    from assms(3) 3 have "rd8 m (p + 2 + length ds) = Inr c" by simp
    from exponent_of [OF 3(2,3) t(3) this c] t(1,2) 3 show ?thesis by (auto simp: number_exp_def)
  next
    case 4
    with assms(2) have t: "rd8 m p = Inr d" "rd8 m (Suc p) = Inr 0x2D" "text_at m (p + 2) ds" by auto
    from assms(3) 4 have "rd8 m (p + 2 + length ds) = Inr c" by simp
    from exponent_of [OF 4(2,3) t(3) this c] t(1,2) 4 show ?thesis by (auto simp: number_exp_def)
  qed
qed

lemma num_stop_after:
  assumes "exp_part e ex" and "text_at m p (frac_part fp @ ex)" and "rd8 m (p + length (frac_part fp @ ex)) = Inr c" and "num_stop c"
  obtains d where "rd8 m p = Inr d" "\<not> is_digit d" "fp = [] \<longrightarrow> d \<noteq> 0x2E"
proof (cases "frac_part fp @ ex")
  case Nil
  with assms(3,4) that show ?thesis by (simp add: num_stop_def)
next
  case (Cons d r)
  have "d = 0x2E \<and> fp \<noteq> [] \<or> d = 0x65 \<or> d = 0x45"
    using Cons assms(1) by (auto simp: frac_part_def exp_part_def split: if_splits)
  moreover from this have "\<not> is_digit d" "fp = [] \<longrightarrow> d \<noteq> 0x2E" by (auto simp: is_digit_def)
  ultimately show ?thesis using that [of d] assms(2) Cons by simp
qed

lemma number_sign_run:
  assumes "int_part ip" and "text_at m p ((if neg then [0x2D] else []) @ ip)"
  shows "number_sign m p = Inr (if neg then -1 else 1, p + (if neg then 1 else 0))"
proof -
  obtain d r where "ip = d # r" using assms(1) by (cases ip) (auto simp: int_part_def)
  moreover from this assms(1) have "d \<noteq> 0x2D" by (auto simp: int_part_def is_digit_def)
  ultimately show ?thesis using assms(2) by (auto simp: number_sign_def)
qed

lemma parse_number_run:
  assumes "num_text d t" and "text_at m p t" and "rd8 m (p + length t) = Inr c" and "num_stop c"
  shows "parse_number m p = Inr (d, p + length t)"
proof -
  from assms(1) obtain neg ip fp e ex where n: "int_part ip" "all_digits fp" "exp_part e ex"
    "t = (if neg then [0x2D] else []) @ ip @ frac_part fp @ ex"
    "d = Dec ((if neg then -1 else 1) * dval 0 (ip @ fp)) (e - int (length fp))"
    unfolding num_text_def by blast
  define q where "q = p + (if neg then 1 else 0)"
  define q1 where "q1 = q + length ip"
  define q2 where "q2 = q1 + length (frac_part fp)"
  have t: "text_at m p ((if neg then [0x2D] else []) @ ip)" "text_at m q ip" "text_at m q1 (frac_part fp @ ex)"
    "text_at m q1 (frac_part fp)" "text_at m q2 ex"
    "rd8 m (q2 + length ex) = Inr c" "rd8 m (q1 + length (frac_part fp @ ex)) = Inr c"
    using assms(2,3) unfolding n(4) by (auto simp: q_def q1_def q2_def add.assoc)
  obtain d1 where d1: "rd8 m q1 = Inr d1" "\<not> is_digit d1" using num_stop_after [OF n(3) t(3,7) assms(4)] by blast
  obtain d2 where d2: "rd8 m q2 = Inr d2" "\<not> is_digit d2" "d2 \<noteq> 0x2E"
    using num_stop_after [OF n(3) _ _ assms(4), of m q2 "[]"] t(5,6) by (auto simp: frac_part_def)
  have "number_sign m p = Inr (if neg then -1 else 1, q)" unfolding q_def by (rule number_sign_run [OF n(1) t(1)])
  moreover have "number_int m q = Inr (dval 0 ip, q1)"
    unfolding q1_def by (rule number_int_run [OF n(1) t(2) _ d1(2)]) (use d1(1) q1_def in simp)
  moreover have "number_frac m (dval 0 ip) q1 = Inr (dval (dval 0 ip) fp, - int (length fp), q2)"
    unfolding q2_def by (rule number_frac_run [OF n(2) t(4) _ d2(2)]) (use d2 q2_def in simp_all)
  moreover have "number_exp m q2 = Inr (e, q2 + length ex)" by (rule number_exp_run [OF n(3) t(5,6) assms(4)])
  moreover have "q2 + length ex = p + length t" unfolding n(4) by (simp add: q_def q1_def q2_def)
  ultimately show ?thesis by (simp add: parse_number_def n(5))
qed

lemma num_text_first: "num_text d t \<Longrightarrow> \<exists>c r. t = c # r \<and> (c = 0x2D \<or> is_digit c)"
  unfolding num_text_def int_part_def by (auto simp: is_digit_def neq_Nil_conv split: if_splits) 

section \<open>Texts\<close>

definition ws :: "u8 list \<Rightarrow> bool" where
  "ws w \<longleftrightarrow> (\<forall>c \<in> set w. c \<noteq> 0 \<and> c \<le> 32)"

text \<open>
  The JSON texts of an item: any white space between the tokens, any way to write a string
  or a number.
\<close>

inductive json_text :: "cjson \<Rightarrow> u8 list \<Rightarrow> bool"
  and elems_text :: "cjson list \<Rightarrow> u8 list \<Rightarrow> bool"
  and member_text :: "cjson \<Rightarrow> u8 list \<Rightarrow> bool"
  and members_text :: "cjson list \<Rightarrow> u8 list \<Rightarrow> bool"
where
  t_null: "json_text (Item cJSON_NULL None None None []) (bytes_of ''null'')"
| t_false: "json_text (Item cJSON_False None None None []) (bytes_of ''false'')"
| t_true: "json_text (Item cJSON_True None None None []) (bytes_of ''true'')"
| t_string: "str_text b s \<Longrightarrow> json_text (Item cJSON_String (Some s) None None []) (CH_QUOTE # b @ [CH_QUOTE])"
| t_number: "num_text d t \<Longrightarrow> json_text (Item cJSON_Number None (Some d) None []) t"
| t_array0: "ws w \<Longrightarrow> json_text (Item cJSON_Array None None None []) (0x5B # w @ [0x5D])"
| t_array: "elems_text xs t \<Longrightarrow> json_text (Item cJSON_Array None None None xs) (0x5B # t @ [0x5D])"
| t_object0: "ws w \<Longrightarrow> json_text (Item cJSON_Object None None None []) (0x7B # w @ [0x7D])"
| t_object: "members_text xs t \<Longrightarrow> json_text (Item cJSON_Object None None None xs) (0x7B # t @ [0x7D])"
| e_last: "ws w1 \<Longrightarrow> json_text x t \<Longrightarrow> ws w2 \<Longrightarrow> elems_text [x] (w1 @ t @ w2)"
| e_more: "ws w1 \<Longrightarrow> json_text x t \<Longrightarrow> ws w2 \<Longrightarrow> elems_text xs r \<Longrightarrow> elems_text (x # xs) (w1 @ t @ w2 @ 0x2C # r)"
| t_member: "ws w1 \<Longrightarrow> str_text b s \<Longrightarrow> ws w2 \<Longrightarrow> ws w3 \<Longrightarrow> json_text x t \<Longrightarrow> ws w4 \<Longrightarrow>
    member_text (set_name s x) (w1 @ CH_QUOTE # b @ CH_QUOTE # w2 @ 0x3A # w3 @ t @ w4)"
| m_last: "member_text x t \<Longrightarrow> members_text [x] t"
| m_more: "member_text x t \<Longrightarrow> members_text xs r \<Longrightarrow> members_text (x # xs) (t @ 0x2C # r)"

lemma digit_solid: "c = 0x2D \<or> is_digit c \<Longrightarrow> solid c \<and> c \<noteq> 0x5D"
  by (auto simp: solid_def is_digit_def word_le_nat_alt word_less_nat_alt word_unat_eq_iff)

lemma json_text_first:
  assumes "json_text x t"
  shows "\<exists>c r. t = c # r \<and> solid c \<and> c \<noteq> 0x5D"
  using assms
proof (cases rule: json_text.cases)
  case (t_number d)
  from num_text_first [OF t_number(2)] obtain c r where "t = c # r" "c = 0x2D \<or> is_digit c" by auto
  with digit_solid [of c] show ?thesis by auto
qed (simp_all add: solid_def)

lemma skip_ws:
  "ws w \<Longrightarrow> text_at m p w \<Longrightarrow> rd8 m (p + length w) = Inr c \<Longrightarrow> solid c \<Longrightarrow> skip m p = Inr (p + length w)"
proof (induction w arbitrary: p)
  case Nil
  then show ?case by (simp add: skip_solid)
next
  case (Cons d w)
  then have "skip m (Suc p) = Inr (Suc p + length w)" by (intro Cons.IH) (simp_all add: ws_def)
  with Cons.prems show ?case by (subst skip.simps) (simp add: ws_def)
qed

lemma ws_num_stop: "c \<noteq> 0 \<Longrightarrow> c \<le> 32 \<Longrightarrow> num_stop c"
  by (auto simp: num_stop_def is_digit_def word_le_nat_alt word_unat_eq_iff)

lemma num_stop_ws:
  "ws w \<Longrightarrow> text_at m p w \<Longrightarrow> rd8 m (p + length w) = Inr c \<Longrightarrow> num_stop c \<Longrightarrow> \<exists>d. rd8 m p = Inr d \<and> num_stop d"
  by (cases w) (auto simp: ws_def ws_num_stop)

lemma ws_Nil [simp]: "ws []"
  by (simp add: ws_def)


text \<open>What the induction over the text shows of each kind of it.\<close>

definition value_ok :: "cjson \<Rightarrow> u8 list \<Rightarrow> bool" where
  "value_ok x t \<longleftrightarrow> (\<forall>n m p. length t \<le> n \<longrightarrow> text_at m p t \<longrightarrow>
     (cj_type x = cJSON_Number \<longrightarrow> (\<exists>c. rd8 m (p + length t) = Inr c \<and> num_stop c)) \<longrightarrow>
     parse_value n m p = Parsed x (p + length t))"

definition elems_ok :: "cjson list \<Rightarrow> u8 list \<Rightarrow> bool" where
  "elems_ok xs t \<longleftrightarrow> (\<forall>n m p k cs. length t \<le> n \<longrightarrow> text_at m p (t @ [0x5D]) \<longrightarrow> length xs \<le> k \<longrightarrow>
     tryR (skip m p) (\<lambda>p. bindP (parse_value n m p) (\<lambda>x p. tryR (skip m p) (\<lambda>p.
       array_loop k (parse_value n m) m p (cs @ [x])))) = Parsed (cs @ xs) (p + length t + 1))"

definition member_ok :: "cjson \<Rightarrow> u8 list \<Rightarrow> bool" where
  "member_ok x t \<longleftrightarrow> (\<forall>n m p c. length t \<le> n \<longrightarrow> text_at m p t \<longrightarrow> rd8 m (p + length t) = Inr c \<longrightarrow>
     c \<in> {0x2C, 0x7D} \<longrightarrow> parse_member (parse_value n m) m p = Parsed x (p + length t))"

definition members_ok :: "cjson list \<Rightarrow> u8 list \<Rightarrow> bool" where
  "members_ok xs t \<longleftrightarrow> (\<forall>n m p k cs. length t \<le> n \<longrightarrow> text_at m p (t @ [0x7D]) \<longrightarrow> length xs \<le> k \<longrightarrow>
     bindP (parse_member (parse_value n m) m p) (\<lambda>x p. object_loop k (parse_value n m) m p (cs @ [x])) =
       Parsed (cs @ xs) (p + length t + 1))"

text \<open>A value between white space, and what follows it.\<close>

lemma padded_value:
  assumes "value_ok x t" and "json_text x t" and "ws w1" and "ws w2" and "length (w1 @ t @ w2) \<le> n"
    and "text_at m p (w1 @ t @ w2)" and "rd8 m (p + length (w1 @ t @ w2)) = Inr c" and "solid c" and "num_stop c"
  shows "skip m p = Inr (p + length w1) \<and>
    parse_value n m (p + length w1) = Parsed x (p + length w1 + length t) \<and>
    skip m (p + length w1 + length t) = Inr (p + length (w1 @ t @ w2))"
proof -
  obtain d r where d: "t = d # r" "solid d" using json_text_first [OF assms(2)] by blast
  from assms(6,7) have t: "text_at m p w1" "text_at m (p + length w1) t" "text_at m (p + length w1 + length t) w2"
    "rd8 m (p + length w1 + length t + length w2) = Inr c" by (simp_all add: add.assoc)
  have "skip m p = Inr (p + length w1)" by (rule skip_ws [OF assms(3) t(1) _ d(2)]) (use t(2) d(1) in simp)
  moreover have "\<exists>c. rd8 m (p + length w1 + length t) = Inr c \<and> num_stop c"
    by (rule num_stop_ws [OF assms(4) t(3,4) assms(9)])
  then have "parse_value n m (p + length w1) = Parsed x (p + length w1 + length t)"
    using assms(1,5) t(2) unfolding value_ok_def by simp
  moreover have "skip m (p + length w1 + length t) = Inr (p + length w1 + length t + length w2)"
    by (rule skip_ws [OF assms(4) t(3,4) assms(8)])
  ultimately show ?thesis by (simp add: add.assoc)
qed

lemma solid_stop: "solid 0x2C" "num_stop 0x2C" "solid 0x5D" "num_stop 0x5D" "solid 0x7D" "num_stop 0x7D" "solid 0x3A"
  by (simp_all add: solid_def num_stop_def is_digit_def)

lemma elems_ok_last:
  assumes "value_ok x t" and "json_text x t" and "ws w1" and "ws w2"
  shows "elems_ok [x] (w1 @ t @ w2)"
  unfolding elems_ok_def
proof (intro allI impI)
  fix n m p k cs
  assume a: "length (w1 @ t @ w2) \<le> n" "text_at m p ((w1 @ t @ w2) @ [0x5D])" "length [x] \<le> k"
  then obtain j where k: "k = Suc j" by (cases k) auto
  from a(2) have t: "text_at m p (w1 @ t @ w2)" "rd8 m (p + length (w1 @ t @ w2)) = Inr 0x5D" by (simp_all add: add.assoc)
  from padded_value [OF assms a(1) t solid_stop(3,4)] t(2) k
  show "tryR (skip m p) (\<lambda>p. bindP (parse_value n m p) (\<lambda>x p. tryR (skip m p) (\<lambda>p.
      array_loop k (parse_value n m) m p (cs @ [x])))) = Parsed (cs @ [x]) (p + length (w1 @ t @ w2) + 1)"
    by simp
qed

lemma elems_ok_more:
  assumes "value_ok x t" and "json_text x t" and "ws w1" and "ws w2" and "elems_ok xs r"
  shows "elems_ok (x # xs) (w1 @ t @ w2 @ 0x2C # r)"
  unfolding elems_ok_def
proof (intro allI impI)
  fix n m p k cs
  assume a: "length (w1 @ t @ w2 @ 0x2C # r) \<le> n" "text_at m p ((w1 @ t @ w2 @ 0x2C # r) @ [0x5D])" "length (x # xs) \<le> k"
  then obtain j where k: "k = Suc j" "length xs \<le> j" by (cases k) auto
  define q where "q = p + length (w1 @ t @ w2)"
  from a(2) have t: "text_at m p (w1 @ t @ w2)" "rd8 m q = Inr 0x2C" "text_at m (Suc q) (r @ [0x5D])"
    by (simp_all add: add.assoc q_def)
  have "length r \<le> n" "length (w1 @ t @ w2) \<le> n" using a(1) by simp_all
  with assms(5) t(3) k(2) have rest: "tryR (skip m (Suc q)) (\<lambda>p. bindP (parse_value n m p) (\<lambda>x p. tryR (skip m p) (\<lambda>p.
      array_loop j (parse_value n m) m p ((cs @ [x0]) @ [x])))) = Parsed ((cs @ [x0]) @ xs) (Suc q + length r + 1)" for x0
    unfolding elems_ok_def by blast
  from padded_value [OF assms(1-4) \<open>length (w1 @ t @ w2) \<le> n\<close> t(1) _ solid_stop(1,2)] t(2) k rest [of x]
  show "tryR (skip m p) (\<lambda>p. bindP (parse_value n m p) (\<lambda>x p. tryR (skip m p) (\<lambda>p.
      array_loop k (parse_value n m) m p (cs @ [x])))) = Parsed (cs @ x # xs) (p + length (w1 @ t @ w2 @ 0x2C # r) + 1)"
    by (simp add: q_def add.assoc)
qed

lemma solid_quote: "solid CH_QUOTE"
  by (simp add: solid_def)

lemma member_ok_text:
  assumes "ws w1" "str_text b s" "ws w2" "ws w3" "value_ok x t" "json_text x t" "ws w4"
  shows "member_ok (set_name s x) (w1 @ CH_QUOTE # b @ CH_QUOTE # w2 @ 0x3A # w3 @ t @ w4)"
  unfolding member_ok_def
proof (intro allI impI)
  fix n m p c
  let ?t = "w1 @ CH_QUOTE # b @ CH_QUOTE # w2 @ 0x3A # w3 @ t @ w4"
  assume a: "length ?t \<le> n" "text_at m p ?t" "rd8 m (p + length ?t) = Inr c" "c \<in> {0x2C, 0x7D :: u8}"
  define q where "q = p + length w1"
  define r where "r = q + length b + 2"
  define v where "v = r + length w2"
  from a(2) have t: "text_at m p w1" "text_at m q (CH_QUOTE # b @ [CH_QUOTE])" "rd8 m q = Inr CH_QUOTE"
    "text_at m r w2" "rd8 m v = Inr 0x3A" "text_at m (Suc v) (w3 @ t @ w4)"
    by (simp_all add: q_def r_def v_def add.assoc)
  have e: "p + length ?t = Suc v + length (w3 @ t @ w4)" by (simp add: q_def r_def v_def)
  have "skip m p = Inr q" unfolding q_def
    by (rule skip_ws [OF assms(1) t(1) _ solid_quote]) (use t(3) q_def in simp)
  moreover have "parse_string m q = Parsed s r" unfolding r_def by (rule parse_string_text [OF assms(2) t(2)])
  moreover have "skip m r = Inr v" unfolding v_def
    by (rule skip_ws [OF assms(3) t(4) _ solid_stop(7)]) (use t(5) v_def in simp)
  moreover have "solid c" "num_stop c" using a(4) solid_stop by auto
  then have "skip m (Suc v) = Inr (Suc v + length w3) \<and>
      parse_value n m (Suc v + length w3) = Parsed x (Suc v + length w3 + length t) \<and>
      skip m (Suc v + length w3 + length t) = Inr (p + length ?t)"
    using a(1,3) unfolding e by (intro padded_value [OF assms(5,6,4,7) _ t(6)]) simp_all
  ultimately show "parse_member (parse_value n m) m p = Parsed (set_name s x) (p + length ?t)"
    using t(5) by (simp add: parse_member_def)
qed

lemma members_ok_last:
  assumes "member_ok x t"
  shows "members_ok [x] t"
  unfolding members_ok_def
proof (intro allI impI)
  fix n m p k cs
  assume a: "length t \<le> n" "text_at m p (t @ [0x7D])" "length [x] \<le> k"
  then obtain j where k: "k = Suc j" by (cases k) auto
  from a(2) have t: "text_at m p t" "rd8 m (p + length t) = Inr 0x7D" by simp_all
  with assms a(1) have "parse_member (parse_value n m) m p = Parsed x (p + length t)" by (simp add: member_ok_def)
  with k t show "bindP (parse_member (parse_value n m) m p)
      (\<lambda>x p. object_loop k (parse_value n m) m p (cs @ [x])) = Parsed (cs @ [x]) (p + length t + 1)" by simp
qed

lemma members_ok_more:
  assumes "member_ok x t" and "members_ok xs r"
  shows "members_ok (x # xs) (t @ 0x2C # r)"
  unfolding members_ok_def
proof (intro allI impI)
  fix n m p k cs
  assume a: "length (t @ 0x2C # r) \<le> n" "text_at m p ((t @ 0x2C # r) @ [0x7D])" "length (x # xs) \<le> k"
  then obtain j where k: "k = Suc j" "length xs \<le> j" by (cases k) auto
  from a(2) have t: "text_at m p t" "rd8 m (p + length t) = Inr 0x2C" "text_at m (Suc (p + length t)) (r @ [0x7D])"
    by simp_all
  with assms(1) a(1) have "parse_member (parse_value n m) m p = Parsed x (p + length t)" by (simp add: member_ok_def)
  moreover have "bindP (parse_member (parse_value n m) m (Suc (p + length t)))
      (\<lambda>y p. object_loop j (parse_value n m) m p ((cs @ [x]) @ [y])) =
      Parsed ((cs @ [x]) @ xs) (Suc (p + length t) + length r + 1)"
    using a(1) k(2) by (intro assms(2) [unfolded members_ok_def, rule_format] t(3)) simp_all
  ultimately show "bindP (parse_member (parse_value n m) m p)
      (\<lambda>x p. object_loop k (parse_value n m) m p (cs @ [x])) = Parsed (cs @ x # xs) (p + length (t @ 0x2C # r) + 1)"
    using k t by simp
qed

lemma elems_first: "elems_text xs t \<Longrightarrow> \<exists>w c r. ws w \<and> t = w @ c # r \<and> solid c \<and> c \<noteq> 0x5D"
proof (induction rule: elems_text.cases)
  case (e_last w1 x t w2)
  then show ?case using json_text_first by fastforce
next
  case (e_more w1 x t w2 xs r)
  then show ?case using json_text_first by fastforce
qed

lemma member_first:
  assumes "member_text x t"
  shows "\<exists>w r. ws w \<and> t = w @ CH_QUOTE # r"
  using assms by cases blast

lemma members_first: "members_text xs t \<Longrightarrow> \<exists>w r. ws w \<and> t = w @ CH_QUOTE # r"
  by (induction rule: members_text.cases) (auto dest!: member_first)

lemma elems_text_length: "elems_text xs t \<Longrightarrow> length xs \<le> length t"
  by (induction rule: json_text_elems_text_member_text_members_text.inducts(2)
      [where ?P1.0 = "\<lambda>_ _. True" and ?P3.0 = "\<lambda>_ _. True" and ?P4.0 = "\<lambda>_ _. True"])
    (auto dest!: json_text_first)

lemma members_text_length: "members_text xs t \<Longrightarrow> length xs \<le> length t"
  by (induction rule: json_text_elems_text_member_text_members_text.inducts(4)
      [where ?P1.0 = "\<lambda>_ _. True" and ?P2.0 = "\<lambda>_ _. True" and ?P3.0 = "\<lambda>_ _. True"])
    (auto dest!: member_first)


lemma array_ok:
  assumes "elems_ok xs t" and "elems_text xs t"
  shows "value_ok (Item cJSON_Array None None None xs) (0x5B # t @ [0x5D])"
  unfolding value_ok_def
proof (intro allI impI)
  fix n m p
  assume a: "length (0x5B # t @ [0x5D]) \<le> n" "text_at m p (0x5B # t @ [0x5D :: u8])"
  then obtain j where n: "n = Suc j" by (cases n) auto
  from a(2) have t: "rd8 m p = Inr 0x5B" "text_at m (Suc p) (t @ [0x5D])" by simp_all
  obtain w c r where w: "ws w" "t = w @ c # r" "solid c" "c \<noteq> 0x5D" using elems_first [OF assms(2)] by blast
  define q where "q = Suc p + length w"
  have q: "skip m (Suc p) = Inr q" "rd8 m q = Inr c"
    using skip_ws [OF w(1) _ _ w(3), of m "Suc p"] t(2) w(2) by (simp_all add: q_def)
  have "length xs \<le> length m" using text_at_length [OF t(2)] elems_text_length [OF assms(2)] by simp
  then have "tryR (skip m (Suc p)) (\<lambda>p. bindP (parse_value j m p) (\<lambda>x p. tryR (skip m p) (\<lambda>p.
      array_loop (length m) (parse_value j m) m p ([] @ [x])))) = Parsed ([] @ xs) (Suc p + length t + 1)"
    using a(1) n by (intro assms(1) [unfolded elems_ok_def, rule_format] t(2)) simp_all
  with q t(1) w(4) skip_solid [OF q(2) w(3)] n
  show "parse_value n m p = Parsed (Item cJSON_Array None None None xs) (p + length (0x5B # t @ [0x5D]))"
    by (auto simp: parse_array_def parse_iffs is_digit_def)
qed

lemma object_ok:
  assumes "members_ok xs t" and "members_text xs t"
  shows "value_ok (Item cJSON_Object None None None xs) (0x7B # t @ [0x7D])"
  unfolding value_ok_def
proof (intro allI impI)
  fix n m p
  assume a: "length (0x7B # t @ [0x7D]) \<le> n" "text_at m p (0x7B # t @ [0x7D :: u8])"
  then obtain j where n: "n = Suc j" by (cases n) auto
  from a(2) have t: "rd8 m p = Inr 0x7B" "text_at m (Suc p) (t @ [0x7D])" by simp_all
  obtain w r where w: "ws w" "t = w @ CH_QUOTE # r" using members_first [OF assms(2)] by blast
  define q where "q = Suc p + length w"
  have q: "skip m (Suc p) = Inr q" "rd8 m q = Inr CH_QUOTE"
    using skip_ws [OF w(1) _ _ solid_quote, of m "Suc p"] t(2) w(2) by (simp_all add: q_def)
  have "length xs \<le> length m" using text_at_length [OF t(2)] members_text_length [OF assms(2)] by simp
  then have "bindP (parse_member (parse_value j m) m (Suc p))
      (\<lambda>x p. object_loop (length m) (parse_value j m) m p ([] @ [x])) = Parsed ([] @ xs) (Suc p + length t + 1)"
    using a(1) n by (intro assms(1) [unfolded members_ok_def, rule_format] t(2)) simp_all
  moreover have "parse_member (parse_value j m) m (Suc p) = parse_member (parse_value j m) m q"
    using q skip_solid [OF q(2) solid_quote] by (simp add: parse_member_def)
  ultimately show "parse_value n m p = Parsed (Item cJSON_Object None None None xs) (p + length (0x7B # t @ [0x7D]))"
    using q t(1) n by (auto simp: parse_object_def parse_iffs is_digit_def)
qed

lemma starts_with_text: "text_at m p l \<Longrightarrow> starts_with m p l = Inr True"
  by (induction l arbitrary: p) auto

lemma starts_with_other: "rd8 m p = Inr c \<Longrightarrow> c \<noteq> l \<Longrightarrow> starts_with m p (l # ls) = Inr False"
  by simp

lemma simple_ok:
  "value_ok (Item cJSON_NULL None None None []) (bytes_of ''null'')"
  "value_ok (Item cJSON_False None None None []) (bytes_of ''false'')"
  "value_ok (Item cJSON_True None None None []) (bytes_of ''true'')"
  "ws w \<Longrightarrow> value_ok (Item cJSON_Array None None None []) (0x5B # w @ [0x5D])"
  "ws w \<Longrightarrow> value_ok (Item cJSON_Object None None None []) (0x7B # w @ [0x7D])"
proof -
  show "value_ok (Item cJSON_NULL None None None []) (bytes_of ''null'')"
    unfolding value_ok_def by (intro allI impI, case_tac n) simp_all
  show "value_ok (Item cJSON_False None None None []) (bytes_of ''false'')"
    unfolding value_ok_def by (intro allI impI, case_tac n) simp_all
  show "value_ok (Item cJSON_True None None None []) (bytes_of ''true'')"
    unfolding value_ok_def by (intro allI impI, case_tac n) simp_all
  show "value_ok (Item cJSON_Array None None None []) (0x5B # w @ [0x5D])" if "ws w"
    unfolding value_ok_def
    using skip_ws [OF that _ _ solid_stop(3)]
    by (intro allI impI, case_tac n) (auto simp: parse_array_def is_digit_def)
  show "value_ok (Item cJSON_Object None None None []) (0x7B # w @ [0x7D])" if "ws w"
    unfolding value_ok_def
    using skip_ws [OF that _ _ solid_stop(5)]
    by (intro allI impI, case_tac n) (auto simp: parse_object_def is_digit_def)
qed

lemma string_ok:
  assumes "str_text b s"
  shows "value_ok (Item cJSON_String (Some s) None None []) (CH_QUOTE # b @ [CH_QUOTE])"
  unfolding value_ok_def
proof (intro allI impI)
  fix n m p
  assume a: "length (CH_QUOTE # b @ [CH_QUOTE]) \<le> n" "text_at m p (CH_QUOTE # b @ [CH_QUOTE])"
  then obtain j where n: "n = Suc j" by (cases n) auto
  from a(2) have "rd8 m p = Inr CH_QUOTE" by simp
  with parse_string_text [OF assms a(2)] n
  show "parse_value n m p = Parsed (Item cJSON_String (Some s) None None []) (p + length (CH_QUOTE # b @ [CH_QUOTE]))"
    by simp
qed

lemma number_ok:
  assumes "num_text d t"
  shows "value_ok (Item cJSON_Number None (Some d) None []) t"
  unfolding value_ok_def
proof (intro allI impI)
  fix n m p
  assume a: "length t \<le> n" "text_at m p t" "cj_type (Item cJSON_Number None (Some d) None []) = cJSON_Number \<longrightarrow>
      (\<exists>c. rd8 m (p + length t) = Inr c \<and> num_stop c)"
  then obtain c where c: "rd8 m (p + length t) = Inr c" "num_stop c" by auto
  obtain b r where b: "t = b # r" "b = 0x2D \<or> is_digit b" using num_text_first [OF assms] by blast
  with a(1) obtain j where n: "n = Suc j" by (cases n) auto
  have "rd8 m p = Inr b" "b \<noteq> 0x6E" "b \<noteq> 0x66" "b \<noteq> 0x74" "b \<noteq> CH_QUOTE"
    using a(2) b by (auto simp: is_digit_def)
  with parse_number_run [OF assms a(2) c] n b(2)
  show "parse_value n m p = Parsed (Item cJSON_Number None (Some d) None []) (p + length t)"
    by simp
qed

lemma json_text_ok:
  "json_text x t \<Longrightarrow> value_ok x t" "elems_text xs t \<Longrightarrow> elems_ok xs t"
  "member_text x t \<Longrightarrow> member_ok x t" "members_text xs t \<Longrightarrow> members_ok xs t"
  by (induction rule: json_text_elems_text_member_text_members_text.inducts)
    (simp_all add: simple_ok string_ok number_ok array_ok object_ok elems_ok_last elems_ok_more
      member_ok_text members_ok_last members_ok_more del: bytes_of_simps)

section \<open>Completeness\<close>

lemma json_parse_run:
  assumes "json_text x t" and "ws w" and "text_at m p (w @ t)"
    and "cj_type x = cJSON_Number \<longrightarrow> (\<exists>c. rd8 m (p + length (w @ t)) = Inr c \<and> num_stop c)"
  shows "skip m p = Inr (p + length w) \<and>
    parse_value (Suc (length m)) m (p + length w) = Parsed x (p + length (w @ t))"
proof -
  obtain c r where c: "t = c # r" "solid c" using json_text_first [OF assms(1)] by blast
  with assms(3) have "skip m p = Inr (p + length w)" by (intro skip_ws [OF assms(2)]) auto
  moreover have "text_at m (p + length w) t" using assms(3) by simp
  moreover from text_at_length [OF this] c have "length t \<le> Suc (length m)" by simp
  ultimately show ?thesis
    using json_text_ok(1) [OF assms(1)] assms(4) unfolding value_ok_def by (simp add: add.assoc del: parse_value.simps)
qed

text \<open>C8: the parser accepts the JSON grammar: for every text of an item, with any white space between its tokens, any
  escapes in its strings (pairs of surrogates too) and numbers with at most nine digits in the exponent, nested to any
  depth, the item that comes out is the one the grammar gives, and the parser stops right behind the text, or,
  when it is asked to, at the end of the string.\<close>
theorem cJSON_Parse_grammar:
  assumes "json_text x t" and "ws w1" and "ws w2" and "text_at m p (w1 @ t @ w2 @ [0])"
  shows "cJSON_Parse m p = Parsed x (p + length (w1 @ t)) \<and>
    cJSON_ParseWithOpts m p True = Parsed x (p + length (w1 @ t @ w2))"
proof -
  from assms(4) have t: "text_at m p (w1 @ t)" "text_at m (p + length (w1 @ t)) w2"
    "rd8 m (p + length (w1 @ t) + length w2) = Inr 0" by (simp_all add: add.assoc)
  have "num_stop 0" by (simp add: num_stop_def is_digit_def)
  from num_stop_ws [OF assms(3) t(2,3) this] json_parse_run [OF assms(1,2) t(1)]
  have "skip m p = Inr (p + length w1)" "parse_value (Suc (length m)) m (p + length w1) = Parsed x (p + length (w1 @ t))"
    by auto
  moreover have "skip m (p + length (w1 @ t)) = Inr (p + length (w1 @ t) + length w2)"
    by (rule skip_ws [OF assms(3) t(2,3)]) (simp add: solid_def)
  ultimately show ?thesis
    using t(3) by (simp add: cJSON_Parse_def cJSON_ParseWithOpts_def add.assoc del: parse_value.simps)
qed

text \<open>An example: \<^verbatim>\<open>[ -1.5e2,"\u0041\n"]\<close>.\<close>

definition ex_json :: "u8 list" where
  "ex_json = [0x5B, 0x20, 0x2D, 0x31, 0x2E, 0x35, 0x65, 0x32, 0x2C, CH_QUOTE, CH_BACKSLASH, 0x75, 0x30, 0x30, 0x34, 0x31,
     CH_BACKSLASH, 0x6E, CH_QUOTE, 0x5D]"

definition ex_json_item :: cjson where
  "ex_json_item = Item cJSON_Array None None None
     [Item cJSON_Number None (Some (Dec (-15) 1)) None [], Item cJSON_String (Some [0x41, 10]) None None []]"

lemma ex_json_text: "json_text ex_json_item ex_json"
proof -
  have "num_text (Dec (-15) 1) [0x2D, 0x31, 0x2E, 0x35, 0x65, 0x32]"
    unfolding num_text_def
    by (rule exI [of _ True], rule exI [of _ "[0x31]"], rule exI [of _ "[0x35]"], rule exI [of _ 2], rule exI [of _ "[0x65, 0x32]"])
      (simp add: int_part_def exp_part_def frac_part_def is_digit_def)
  then have n: "json_text (Item cJSON_Number None (Some (Dec (-15) 1)) None []) [0x2D, 0x31, 0x2E, 0x35, 0x65, 0x32]"
    by (rule t_number)
  have "hex4 [0x30, 0x30, 0x34, 0x31] 65" by (simp add: hex4_def hex_value_def is_digit_def)
  from str_unicode [OF this _ _ str_escape [OF _ _ str_nil, of "0x6E"]]
  have "str_text [CH_BACKSLASH, 0x75, 0x30, 0x30, 0x34, 0x31, CH_BACKSLASH, 0x6E] [0x41, 10]"
    by (simp add: simple_escape_def utf8_def utf8_len_def firstByteMark_def)
  from t_string [OF this]
  have "elems_text [Item cJSON_String (Some [0x41, 10]) None None []]
      ([] @ [CH_QUOTE, CH_BACKSLASH, 0x75, 0x30, 0x30, 0x34, 0x31, CH_BACKSLASH, 0x6E, CH_QUOTE] @ [])"
    by (intro e_last) simp_all
  from t_array [OF e_more [OF _ n _ this, of "[0x20]" "[]"]] show ?thesis
    by (simp add: ex_json_def ex_json_item_def ws_def)
qed

theorem cJSON_Parse_grammar_witness:
  "cJSON_Parse (ex_json @ [0]) 0 = Parsed ex_json_item 20 \<and> cJSON_ParseWithOpts (ex_json @ [0]) 0 True = Parsed ex_json_item 20"
  using cJSON_Parse_grammar [OF ex_json_text ws_Nil ws_Nil, of "ex_json @ [0]" 0]
  by (simp add: text_at_def) (simp add: ex_json_def)

section \<open>Compact text\<close>

text \<open>JSON values without numbers, their compact text and the items they are.\<close>

datatype jvalue = JNull | JFalse | JTrue | JString "u8 list" | JArray "jvalue list" | JObject "jmember list"
  and jmember = JMember "u8 list" jvalue

fun joined :: "u8 list list \<Rightarrow> u8 list" where
  "joined [] = []"
| "joined (j # js) = j @ concat (map (\<lambda>k. 0x2C # k) js)"

fun jtext :: "jvalue \<Rightarrow> u8 list" and mtext :: "jmember \<Rightarrow> u8 list" where
  "jtext JNull = bytes_of ''null''"
| "jtext JFalse = bytes_of ''false''"
| "jtext JTrue = bytes_of ''true''"
| "jtext (JString s) = CH_QUOTE # s @ [CH_QUOTE]"
| "jtext (JArray vs) = 0x5B # joined (map jtext vs) @ [0x5D]"
| "jtext (JObject ms) = 0x7B # joined (map mtext ms) @ [0x7D]"
| "mtext (JMember n v) = CH_QUOTE # n @ CH_QUOTE # 0x3A # jtext v"

fun jitem :: "jvalue \<Rightarrow> cjson" and mitem :: "jmember \<Rightarrow> cjson" where
  "jitem JNull = Item cJSON_NULL None None None []"
| "jitem JFalse = Item cJSON_False None None None []"
| "jitem JTrue = Item cJSON_True None None None []"
| "jitem (JString s) = Item cJSON_String (Some s) None None []"
| "jitem (JArray vs) = Item cJSON_Array None None None (map jitem vs)"
| "jitem (JObject ms) = Item cJSON_Object None None None (map mitem ms)"
| "mitem (JMember n v) = set_name n (jitem v)"

fun jclean :: "jvalue \<Rightarrow> bool" and mclean :: "jmember \<Rightarrow> bool" where
  "jclean JNull = True"
| "jclean JFalse = True"
| "jclean JTrue = True"
| "jclean (JString s) = clean s"
| "jclean (JArray vs) = (\<forall>v \<in> set vs. jclean v)"
| "jclean (JObject ms) = (\<forall>x \<in> set ms. mclean x)"
| "mclean (JMember n v) = (clean n \<and> jclean v)"

lemma str_text_clean: "clean s \<Longrightarrow> str_text s s"
  by (induction s) (auto intro: str_text.intros)

lemma members_joined:
  "xs \<noteq> [] \<Longrightarrow> \<forall>x \<in> set xs. member_text (f x) (g x) \<Longrightarrow> members_text (map f xs) (joined (map g xs))"
proof (induction xs)
  case (Cons x xs)
  then show ?case
    by (cases xs) (auto intro: m_last dest: m_more [of "f x" "g x"] simp: comp_def)
qed simp

lemma elems_joined:
  "xs \<noteq> [] \<Longrightarrow> \<forall>x \<in> set xs. json_text (f x) (g x) \<Longrightarrow> elems_text (map f xs) (joined (map g xs))"
proof (induction xs)
  case (Cons x xs)
  then show ?case
    by (cases xs) (auto intro: e_last [of "[]" _ _ "[]", simplified] dest: e_more [of "[]" "f x" "g x" "[]", simplified] simp: comp_def)
qed simp

lemma jvalue_text: "jclean v \<Longrightarrow> json_text (jitem v) (jtext v)"
  and jmember_text: "mclean x \<Longrightarrow> member_text (mitem x) (mtext x)"
proof (induction v and x)
  case (JString s)
  then show ?case using str_text_clean by (auto intro: t_string)
next
  case (JArray vs)
  then show ?case
    using t_array [OF elems_joined [of vs jitem jtext]] t_array0 [of "[]"] by (cases "vs = []") auto
next
  case (JObject ms)
  then show ?case
    using t_object [OF members_joined [of ms mitem mtext]] t_object0 [of "[]"] by (cases "ms = []") auto
next
  case (JMember n v)
  then show ?case
    using t_member [of "[]" n n "[]" "[]" "jitem v" "jtext v" "[]"] str_text_clean by simp
qed (auto intro: t_null t_false t_true simp del: bytes_of_simps)

lemma cJSON_Parse_compact:
  assumes "jclean v" and "text_at m p (jtext v)"
  shows "cJSON_Parse m p = Parsed (jitem v) (p + length (jtext v))"
proof -
  have "cj_type (jitem v) \<noteq> cJSON_Number"
    by (cases v) (simp_all add: cJSON_NULL_def cJSON_False_def cJSON_True_def cJSON_Number_def cJSON_String_def
        cJSON_Array_def cJSON_Object_def)
  with json_parse_run [OF jvalue_text [OF assms(1)] ws_Nil, of m p] assms(2) show ?thesis
    by (simp add: cJSON_Parse_def cJSON_ParseWithOpts_def del: parse_value.simps)
qed

end
