(* ===== verification/Util.thy ===== *)
theory Util
  imports Bytes
begin

text \<open>
  The hex dump of \<^verbatim>\<open>src/src/util.c\<close>. The text of a \<^verbatim>\<open>printf\<close> format is given without its
  line breaks.
\<close>

definition g_hexdump_enbale :: int where "g_hexdump_enbale = 0"

fun print_ansi_at_line :: "u8 list \<Rightarrow> nat \<Rightarrow> nat \<Rightarrow> printed res" where
  "print_ansi_at_line m p 0 = Inr []"
| "print_ansi_at_line m p (Suc n) =
     bindR (rd8 m p) (\<lambda>c.
     bindR (print_ansi_at_line m (p + 1) n) (\<lambda>out.
     Inr ((if 0x20 \<le> c \<and> c \<le> 0x7e then (''%c'', [Num (uint c)]) else (''.'', [])) # out)))"

text \<open>The loop over the bytes, from index \<open>i\<close> on, with the text column after every 32.\<close>

function hex_loop :: "u8 list \<Rightarrow> nat \<Rightarrow> nat \<Rightarrow> nat \<Rightarrow> printed res" where
  "hex_loop m ptr i len =
     (if i < len then
        bindR (rd8 m (ptr + i)) (\<lambda>c.
        bindR (if (i + 1) mod 32 = 0 then bindR (print_ansi_at_line m (ptr + (i - 31)) 32) (\<lambda>o1. Inr (o1 @ [([], [])]))
          else Inr []) (\<lambda>o1.
        bindR (hex_loop m ptr (i + 1) len) (\<lambda>o2.
        Inr ((''%02x '', [Num (uint c)]) # o1 @ o2))))
      else Inr [])"
  by pat_completeness auto
termination by (relation "measure (\<lambda>(m, ptr, i, len). len - i)") auto

declare hex_loop.simps [simp del]

definition pad_count :: "nat \<Rightarrow> nat" where
  "pad_count i = (if i mod 32 = 0 then 0 else 32 - i mod 32)"

definition debug_hex_println :: "int \<Rightarrow> string \<Rightarrow> u8 list \<Rightarrow> nat \<Rightarrow> nat \<Rightarrow> printed res" where
  "debug_hex_println enabled begin_text m ptr len =
     (if enabled = 0 then Inr []
      else
        bindR (hex_loop m ptr 0 len) (\<lambda>o1.
        bindR (if len \<noteq> 0 then print_ansi_at_line m (ptr + (len - len mod 32)) (len mod 32 + 1) else Inr []) (\<lambda>o2.
        Inr ((''%s----start---- len %u'', [Str (bytes_of begin_text), Num (int len)]) # o1 @
          replicate (pad_count len) (''   '', []) @ o2 @ [(''%s----end----'', [Str (bytes_of begin_text)])]))))"

lemma print_ansi_ok: "p + n \<le> length m \<Longrightarrow> \<exists>out. print_ansi_at_line m p n = Inr out \<and> length out = n"
proof (induction n arbitrary: p)
  case (Suc n)
  from Suc.IH [of "p + 1"] Suc.prems show ?case by auto
qed simp

lemma print_ansi_out: "length m < p + n \<Longrightarrow> print_ansi_at_line m p n = Inl OutOfBounds \<or> n = 0"
proof (induction n arbitrary: p)
  case (Suc n)
  from Suc.IH [of "p + 1"] Suc.prems show ?case by (cases "p < length m"; cases n) auto
qed simp

lemma hex_loop_ok:
  assumes "ptr + len \<le> length m" and "i \<le> len"
  shows "\<exists>out. hex_loop m ptr i len = Inr out"
  using assms(2)
proof (induction "len - i" arbitrary: i)
  case 0
  then show ?case by (subst hex_loop.simps) simp
next
  case (Suc n)
  then have i: "i < len" by simp
  have "n = len - (i + 1)" "i + 1 \<le> len" using Suc.hyps(2) by auto
  from Suc.hyps(1) [OF this] obtain o2 where "hex_loop m ptr (i + 1) len = Inr o2" ..
  moreover obtain o1 where "print_ansi_at_line m (ptr + (i - 31)) 32 = Inr o1" if "(i + 1) mod 32 = 0"
  proof (cases "(i + 1) mod 32 = 0")
    case True
    then have "31 \<le> i" by presburger
    then have "ptr + (i - 31) + 32 \<le> length m" using i assms(1) by simp
    from print_ansi_ok [OF this] that show ?thesis by blast
  qed auto
  ultimately show ?case using i assms(1) by (subst hex_loop.simps) auto
qed

text \<open>an enabled dump of a block always reads one byte more than the block has: with at least one
  more byte of memory behind it the dump is printed, and for a block that ends its object the read is
  out of bounds. A disabled dump, which is how the program is built, does nothing.\<close>
theorem debug_hex_println_overreads:
  assumes "0 < len" and "ptr + len \<le> length m"
  shows "(if enabled = 0 then debug_hex_println enabled t m ptr len = Inr []
    else if ptr + len < length m then \<exists>out. debug_hex_println enabled t m ptr len = Inr out
    else debug_hex_println enabled t m ptr len = Inl OutOfBounds)"
proof -
  obtain o1 where o1: "hex_loop m ptr 0 len = Inr o1" using hex_loop_ok [OF assms(2), of 0] by auto
  have e: "ptr + (len - len mod 32) + (len mod 32 + 1) = ptr + len + 1" by simp
  show ?thesis
  proof (cases "ptr + len < length m")
    case True
    with e print_ansi_ok [of "ptr + (len - len mod 32)" "len mod 32 + 1" m] obtain o2 where
      "print_ansi_at_line m (ptr + (len - len mod 32)) (len mod 32 + 1) = Inr o2" by auto
    with o1 True show ?thesis by (simp add: debug_hex_println_def)
  next
    case False
    with e print_ansi_out [of m "ptr + (len - len mod 32)" "len mod 32 + 1"] assms
    have "print_ansi_at_line m (ptr + (len - len mod 32)) (len mod 32 + 1) = Inl OutOfBounds" by auto
    with o1 False assms(1) show ?thesis
      by (simp add: debug_hex_println_def del: print_ansi_at_line.simps)
  qed
qed

theorem debug_hex_println_overreads_witness:
  "debug_hex_println 1 ''dump'' [1, 2, 3] 0 3 = Inl OutOfBounds"
  using debug_hex_println_overreads [of 3 0 "[1, 2, 3]" 1] by simp

end
