(* ===== verification/TnsFields.thy ===== *)
theory TnsFields
  imports Bytes
begin

text \<open>
  The constants and the field macros of \<^verbatim>\<open>src/src/oracle_tns.h\<close>: the offsets, the header
  of a packet as a structure, the packet types, function codes and error codes, and one
  definition per accessor macro, those that nothing uses too. An accessor reads the packet at an
  offset of the receive buffer.
\<close>

section \<open>Offsets\<close>

definition TNS_HEAD_LEN :: nat where "TNS_HEAD_LEN = 8"
definition OFFSET_TNS_LEN :: nat where [simp]: "OFFSET_TNS_LEN = 0"
definition OFFSET_TNS_CKSUM :: nat where [simp]: "OFFSET_TNS_CKSUM = 2"
definition OFFSET_TNS_TYPE :: nat where [simp]: "OFFSET_TNS_TYPE = 4"
definition OFFSET_TNS_RESV :: nat where [simp]: "OFFSET_TNS_RESV = 5"
definition OFFSET_TNS_HEAD_CKSUM :: nat where [simp]: "OFFSET_TNS_HEAD_CKSUM = 6"
definition OFFSET_TNS_DATA :: nat where "OFFSET_TNS_DATA = TNS_HEAD_LEN"

definition OFFSET_TNS_CONNECT_VERSION :: nat where [simp]: "OFFSET_TNS_CONNECT_VERSION = 0"
definition OFFSET_TNS_CONNECT_VERSION_COMPATIBLE :: nat where [simp]: "OFFSET_TNS_CONNECT_VERSION_COMPATIBLE = 2"
definition OFFSET_TNS_CONNECT_DATA_LEN :: nat where [simp]: "OFFSET_TNS_CONNECT_DATA_LEN = 16"
definition OFFSET_TNS_CONNECT_DATA_OFFSET :: nat where [simp]: "OFFSET_TNS_CONNECT_DATA_OFFSET = 18"

definition OFFSET_TNS_ACCEPT_VERSION :: nat where [simp]: "OFFSET_TNS_ACCEPT_VERSION = 0"
definition OFFSET_TNS_ACCEPT_DATA_LEN :: nat where [simp]: "OFFSET_TNS_ACCEPT_DATA_LEN = 30"
definition OFFSET_TNS_ACCEPT_DATA_OFFSET :: nat where [simp]: "OFFSET_TNS_ACCEPT_DATA_OFFSET = 32"

definition OFFSET_TNS_REFUSE_PROCESS_CAUSE :: nat where [simp]: "OFFSET_TNS_REFUSE_PROCESS_CAUSE = 0"
definition OFFSET_TNS_REFUSE_SYS_CAUSE :: nat where [simp]: "OFFSET_TNS_REFUSE_SYS_CAUSE = 1"
definition OFFSET_TNS_REFUSE_DATA_LEN :: nat where [simp]: "OFFSET_TNS_REFUSE_DATA_LEN = 2"
definition OFFSET_TNS_REFUSE_DATA_OFFSET :: nat where [simp]: "OFFSET_TNS_REFUSE_DATA_OFFSET = 4"

definition OFFSET_TNS_DATA_FALG :: nat where [simp]: "OFFSET_TNS_DATA_FALG = 0"
definition OFFSET_TNS_DATA_ID :: nat where [simp]: "OFFSET_TNS_DATA_ID = 2"
definition OFFSET_TNS_DATA_ID_SUB :: nat where [simp]: "OFFSET_TNS_DATA_ID_SUB = 3"
definition OFFSET_TNS_DATA_OFFSET :: nat where "OFFSET_TNS_DATA_OFFSET = 4"

section \<open>Codes\<close>

definition CODE_SUCCESS :: int where "CODE_SUCCESS = 0"
definition CODE_PKT_LEN :: int where "CODE_PKT_LEN = 1"
definition CODE_PKT_TYPE :: int where "CODE_PKT_TYPE = 2"
definition CODE_DATA_ID :: int where "CODE_DATA_ID = 3"

lemmas code_defs = CODE_SUCCESS_def CODE_PKT_LEN_def CODE_PKT_TYPE_def CODE_DATA_ID_def

text \<open>Packet types and function codes.\<close>

definition TNS_TYPE_CONNECT :: u8 where "TNS_TYPE_CONNECT = 1"
definition TNS_TYPE_ACCEPT :: u8 where "TNS_TYPE_ACCEPT = 2"
definition TNS_TYPE_ACK :: u8 where "TNS_TYPE_ACK = 3"
definition TNS_TYPE_REFUSE :: u8 where "TNS_TYPE_REFUSE = 4"
definition TNS_TYPE_REDIRECT :: u8 where "TNS_TYPE_REDIRECT = 5"
definition TNS_TYPE_DATA :: u8 where "TNS_TYPE_DATA = 6"
definition TNS_TYPE_NULL :: u8 where "TNS_TYPE_NULL = 7"
definition TNS_TYPE_UNKNOWN1 :: u8 where "TNS_TYPE_UNKNOWN1 = 8"
definition TNS_TYPE_ABORT :: u8 where "TNS_TYPE_ABORT = 9"
definition TNS_TYPE_UNKNOWN2 :: u8 where "TNS_TYPE_UNKNOWN2 = 10"
definition TNS_TYPE_RESEND :: u8 where "TNS_TYPE_RESEND = 11"
definition TNS_TYPE_MARKER :: u8 where "TNS_TYPE_MARKER = 12"
definition TNS_TYPE_UNKNOWN3 :: u8 where "TNS_TYPE_UNKNOWN3 = 13"
definition TNS_TYPE_UNKNOWN4 :: u8 where "TNS_TYPE_UNKNOWN4 = 14"

lemmas type_defs = TNS_TYPE_CONNECT_def TNS_TYPE_ACCEPT_def TNS_TYPE_ACK_def TNS_TYPE_REFUSE_def
  TNS_TYPE_REDIRECT_def TNS_TYPE_DATA_def TNS_TYPE_NULL_def TNS_TYPE_UNKNOWN1_def TNS_TYPE_ABORT_def
  TNS_TYPE_UNKNOWN2_def TNS_TYPE_RESEND_def TNS_TYPE_MARKER_def TNS_TYPE_UNKNOWN3_def TNS_TYPE_UNKNOWN4_def

definition TNS_313 :: u16 where "TNS_313 = 313"
definition TNS_314 :: u16 where "TNS_314 = 314"

definition TNS313_DATA_ID_SNS :: u8 where "TNS313_DATA_ID_SNS = 0xDE"
definition TNS313_DATA_ID_SP :: u8 where "TNS313_DATA_ID_SP = 0x01"
definition TNS313_DATA_ID_OCI :: u8 where "TNS313_DATA_ID_OCI = 0x03"
definition TNS313_DATA_ID_RS :: u8 where "TNS313_DATA_ID_RS = 0x04"

definition TNS314_DATA_ID_SNS :: u8 where "TNS314_DATA_ID_SNS = 0xDE"
definition TNS314_DATA_ID_SP :: u8 where "TNS314_DATA_ID_SP = 0x01"
definition TNS314_DATA_ID_OCI :: u8 where "TNS314_DATA_ID_OCI = 0x03"
definition TNS314_DATA_ID_RS :: u8 where "TNS314_DATA_ID_RS = 0x04"

lemmas data_id_defs = TNS_313_def TNS_314_def TNS313_DATA_ID_SNS_def TNS313_DATA_ID_SP_def TNS313_DATA_ID_OCI_def
  TNS313_DATA_ID_RS_def TNS314_DATA_ID_SNS_def TNS314_DATA_ID_SP_def TNS314_DATA_ID_OCI_def TNS314_DATA_ID_RS_def

section \<open>Accessors\<close>

text \<open>A big-endian field of 16 bits.\<close>

definition be16 :: "u8 list \<Rightarrow> nat \<Rightarrow> u16 res" where
  "be16 m i = bindR (rd16 m i) (\<lambda>w. Inr (ntohs w))"

definition PKT_LEN :: "u8 list \<Rightarrow> nat \<Rightarrow> u16 res" where "PKT_LEN m pkt = be16 m (pkt + OFFSET_TNS_LEN)"
definition PKT_CKSUM :: "u8 list \<Rightarrow> nat \<Rightarrow> u16 res" where "PKT_CKSUM m pkt = be16 m (pkt + OFFSET_TNS_CKSUM)"
definition PKT_TYPE :: "u8 list \<Rightarrow> nat \<Rightarrow> u8 res" where "PKT_TYPE m pkt = rd8 m (pkt + OFFSET_TNS_TYPE)"
definition PKT_RESV :: "u8 list \<Rightarrow> nat \<Rightarrow> u8 res" where "PKT_RESV m pkt = rd8 m (pkt + OFFSET_TNS_RESV)"
definition PKT_HEAD_CKSUM :: "u8 list \<Rightarrow> nat \<Rightarrow> u16 res" where "PKT_HEAD_CKSUM m pkt = be16 m (pkt + OFFSET_TNS_CKSUM)"
definition PKT_DATA :: "nat \<Rightarrow> nat" where "PKT_DATA pkt = pkt + OFFSET_TNS_DATA"

lemma PKT_DATA_eq: "PKT_DATA pkt = pkt + 8"
  by (simp add: PKT_DATA_def OFFSET_TNS_DATA_def TNS_HEAD_LEN_def)

definition CONNECT_VER :: "u8 list \<Rightarrow> nat \<Rightarrow> u16 res" where
  "CONNECT_VER m pkt = be16 m (PKT_DATA pkt + OFFSET_TNS_CONNECT_VERSION)"
definition CONNECT_VER_COMPATIBLE :: "u8 list \<Rightarrow> nat \<Rightarrow> u16 res" where
  "CONNECT_VER_COMPATIBLE m pkt = be16 m (PKT_DATA pkt + OFFSET_TNS_CONNECT_VERSION_COMPATIBLE)"
definition CONNECT_DATA_LEN :: "u8 list \<Rightarrow> nat \<Rightarrow> u16 res" where
  "CONNECT_DATA_LEN m pkt = be16 m (PKT_DATA pkt + OFFSET_TNS_CONNECT_DATA_LEN)"
definition CONNECT_DATA_OFFSET :: "u8 list \<Rightarrow> nat \<Rightarrow> u16 res" where
  "CONNECT_DATA_OFFSET m pkt = be16 m (PKT_DATA pkt + OFFSET_TNS_CONNECT_DATA_OFFSET)"
definition CONNECT_DATA :: "u8 list \<Rightarrow> nat \<Rightarrow> nat res" where
  "CONNECT_DATA m pkt = bindR (CONNECT_DATA_OFFSET m pkt) (\<lambda>off. Inr (pkt + unat off))"

definition ACCEPT_VER :: "u8 list \<Rightarrow> nat \<Rightarrow> u16 res" where
  "ACCEPT_VER m pkt = be16 m (PKT_DATA pkt + OFFSET_TNS_CONNECT_VERSION)"
definition ACCEPT_DATA_LEN :: "u8 list \<Rightarrow> nat \<Rightarrow> u16 res" where
  "ACCEPT_DATA_LEN m pkt = be16 m (PKT_DATA pkt + OFFSET_TNS_ACCEPT_DATA_LEN)"
definition ACCEPT_DATA_OFFSET :: "u8 list \<Rightarrow> nat \<Rightarrow> u16 res" where
  "ACCEPT_DATA_OFFSET m pkt = be16 m (PKT_DATA pkt + OFFSET_TNS_ACCEPT_DATA_OFFSET)"
definition ACCEPT_DATA :: "u8 list \<Rightarrow> nat \<Rightarrow> nat res" where
  "ACCEPT_DATA m pkt = bindR (ACCEPT_DATA_OFFSET m pkt) (\<lambda>off. Inr (pkt + unat off))"

text \<open>The last two REFUSE macros are relative to the packet, not to its data.\<close>

definition REFUSE_PRO_CAUSE :: "u8 list \<Rightarrow> nat \<Rightarrow> u8 res" where
  "REFUSE_PRO_CAUSE m pkt = rd8 m (PKT_DATA pkt + OFFSET_TNS_REFUSE_PROCESS_CAUSE)"
definition REFUSE_SYS_CAUSE :: "u8 list \<Rightarrow> nat \<Rightarrow> u8 res" where
  "REFUSE_SYS_CAUSE m pkt = rd8 m (PKT_DATA pkt + OFFSET_TNS_REFUSE_SYS_CAUSE)"
definition REFUSE_DATA_LEN :: "u8 list \<Rightarrow> nat \<Rightarrow> u16 res" where
  "REFUSE_DATA_LEN m pkt = be16 m (pkt + OFFSET_TNS_REFUSE_DATA_LEN)"
definition REFUSE_DATA :: "nat \<Rightarrow> nat" where
  "REFUSE_DATA pkt = pkt + OFFSET_TNS_REFUSE_DATA_OFFSET"

definition DATA_FLAG :: "u8 list \<Rightarrow> nat \<Rightarrow> u16 res" where
  "DATA_FLAG m pkt = be16 m (PKT_DATA pkt + OFFSET_TNS_DATA_FALG)"
definition DATA_ID :: "u8 list \<Rightarrow> nat \<Rightarrow> u8 res" where
  "DATA_ID m pkt = rd8 m (PKT_DATA pkt + OFFSET_TNS_DATA_ID)"
definition DATA_ID_SUB :: "u8 list \<Rightarrow> nat \<Rightarrow> u8 res" where
  "DATA_ID_SUB m pkt = rd8 m (PKT_DATA pkt + OFFSET_TNS_DATA_ID_SUB)"
definition DATA_DATA :: "nat \<Rightarrow> nat" where
  "DATA_DATA pkt = pkt + OFFSET_TNS_DATA_OFFSET"

section \<open>The header as a structure\<close>

record TNS_pkt_head =
  hd_len :: u16
  hd_pkt_cksum :: u16
  hd_type :: u8
  hd_resv :: u8
  hd_head_ckcum :: u16

text \<open>The eight bytes of the packed structure, its numbers in network order.\<close>

definition be_bytes :: "u16 \<Rightarrow> u8 list" where
  "be_bytes w = [ucast (drop_bit 8 w), ucast w]"

definition head_bytes :: "TNS_pkt_head \<Rightarrow> u8 list" where
  "head_bytes h = be_bytes (hd_len h) @ be_bytes (hd_pkt_cksum h) @ [hd_type h, hd_resv h] @ be_bytes (hd_head_ckcum h)"

lemma cat_be_bytes: "word_cat (ucast (drop_bit 8 w) :: u8) (ucast w :: u8) = (w :: u16)"
  by (rule bit_word_eqI) (auto simp: bit_word_cat_iff bit_ucast_iff bit_drop_bit_eq not_less dest: bit_imp_le_length)

lemma be16_be_bytes: "be16 (xs @ be_bytes w @ ys) (length xs) = Inr w"
proof -
  have "rd16 (xs @ be_bytes w @ ys) (length xs) = Inr (word_cat (ucast w :: u8) (ucast (drop_bit 8 w) :: u8))"
    by (subst rd16_ok) (simp_all add: be_bytes_def nth_append)
  then show ?thesis by (simp add: be16_def ntohs_bytes cat_be_bytes)
qed

lemma head_bytes_length [simp]: "length (head_bytes h) = 8"
  by (simp add: head_bytes_def be_bytes_def)

text \<open>the accessors of the packet header read back what the structure TNS_pkt_head holds, wherever in the buffer the
  packet begins and whatever surrounds it, and PKT_DATA is the first byte behind it: the length, the packet checksum, the
  type and the reserved byte; only PKT_HEAD_CKSUM returns the packet checksum instead of the checksum of the header,
  and REFUSE_DATA_LEN, which should read the data, returns the packet checksum as well.\<close>
theorem header_fields_read_back:
  "PKT_LEN (xs @ head_bytes h @ ys) (length xs) = Inr (hd_len h) \<and>
   PKT_CKSUM (xs @ head_bytes h @ ys) (length xs) = Inr (hd_pkt_cksum h) \<and>
   PKT_TYPE (xs @ head_bytes h @ ys) (length xs) = Inr (hd_type h) \<and>
   PKT_RESV (xs @ head_bytes h @ ys) (length xs) = Inr (hd_resv h) \<and>
   be16 (xs @ head_bytes h @ ys) (length xs + OFFSET_TNS_HEAD_CKSUM) = Inr (hd_head_ckcum h) \<and>
   PKT_HEAD_CKSUM (xs @ head_bytes h @ ys) (length xs) = Inr (hd_pkt_cksum h) \<and>
   REFUSE_DATA_LEN (xs @ head_bytes h @ ys) (length xs) = Inr (hd_pkt_cksum h) \<and>
   drop (PKT_DATA (length xs)) (xs @ head_bytes h @ ys) = ys"
proof -
  have l: "be16 (xs @ head_bytes h @ ys) (length xs) = Inr (hd_len h)"
    using be16_be_bytes [of xs "hd_len h"] by (simp add: head_bytes_def)
  have c: "be16 (xs @ head_bytes h @ ys) (length xs + 2) = Inr (hd_pkt_cksum h)"
    using be16_be_bytes [of "xs @ be_bytes (hd_len h)" "hd_pkt_cksum h"] by (simp add: head_bytes_def be_bytes_def)
  have k: "be16 (xs @ head_bytes h @ ys) (length xs + 6) = Inr (hd_head_ckcum h)"
    using be16_be_bytes [of "xs @ be_bytes (hd_len h) @ be_bytes (hd_pkt_cksum h) @ [hd_type h, hd_resv h]" "hd_head_ckcum h"]
    by (simp add: head_bytes_def be_bytes_def eval_nat_numeral)
  have t: "rd8 (xs @ head_bytes h @ ys) (length xs + 4) = Inr (hd_type h)" "rd8 (xs @ head_bytes h @ ys) (length xs + 5) = Inr (hd_resv h)"
    by (simp_all add: rd8_Inr_iff nth_append) (simp_all add: head_bytes_def be_bytes_def)
  show ?thesis
    using l c k t
    by (simp add: PKT_LEN_def PKT_CKSUM_def PKT_TYPE_def PKT_RESV_def PKT_HEAD_CKSUM_def REFUSE_DATA_LEN_def PKT_DATA_eq)
qed

end
