(* ===== verification/Tns.thy ===== *)
theory Tns
  imports Session ConnectData CJsonGrammar Util TnsFields
begin

text \<open>
  The protocol parser, \<^verbatim>\<open>src/src/oracle_tns.c\<close>: a packet is dispatched on its type to a handler, a data packet again on
  the negotiated version and its function code. A handler gets the packet as an offset in the
  receive buffer, the length and the session, and returns the session it leaves, what it
  printed and its error code. The buffers a handler allocates are its own; allocation is taken
  to succeed here, and \<^verbatim>\<open>TnsHeap\<close> has the case that it fails. The line break at the end of a format is left out.
\<close>

section \<open>Handlers\<close>

type_synonym handled = "(tns_session \<times> printed \<times> int) res"
type_synonym handler = "u8 list \<Rightarrow> nat \<Rightarrow> nat \<Rightarrow> tns_session \<Rightarrow> handled"

section \<open>Printing\<close>

definition direction_str :: "int \<Rightarrow> u8 list res" where
  "direction_str d =
     (if d = 0 then Inr (bytes_of ''REQUEST'') else if d = 1 then Inr (bytes_of ''RESPONSE'') else Inl OutOfBounds)"

text \<open>The line every handler of version 313 starts with.\<close>

definition print_head :: "tns_session \<Rightarrow> printed res" where
  "print_head s =
     bindR (c_str (cur_sess_desc s) 0) (\<lambda>d.
     bindR (direction_str (cur_dir s)) (\<lambda>r.
     Inr [(''%s %s tns data : version :%d'', [Str d, Str r, Num (uint (version s))])]))"

text \<open>
  \<^verbatim>\<open>snprintf (buf, n, "%s", ptr)\<close> with \<open>n > 0\<close>: the whole string is read, and at most
  \<open>n - 1\<close> characters of it end up in the buffer.
\<close>

definition snprintf_s :: "nat \<Rightarrow> u8 list \<Rightarrow> nat \<Rightarrow> u8 list res" where
  "snprintf_s n m ptr = bindR (c_str m ptr) (\<lambda>s. Inr (take (n - 1) s))"

section \<open>Data packets\<close>

definition tns_313_RS :: handler where
  "tns_313_RS m pkt len sess =
     (if len \<le> 0 then Inr (sess, [], CODE_SUCCESS)
      else
        bindR (parse_continuous_visible_characters m pkt len) (\<lambda>(ptr_sqlresult, result_len).
        let result_len = (if result_len < 127 then result_len else 127) in
        bindR (snprintf_s result_len m ptr_sqlresult) (\<lambda>sql_res.
        bindR (print_head sess) (\<lambda>out.
        Inr (sess, out @ [(''    return status len:%d %s'', [Num (int result_len), Str sql_res])], CODE_SUCCESS)))))"

definition tns_313_OCI :: handler where
  "tns_313_OCI m pkt len sess =
     (if len \<le> 0 then Inr (sess, [], CODE_SUCCESS)
      else bindR (rd8 m (pkt + 3)) (\<lambda>c.
        if c = 0x5E then
          bindR (parse_continuous_visible_characters m pkt len) (\<lambda>(ptr_sqlstart, sql_len).
          let sql_len = (if sql_len < 1023 then sql_len else 1023) in
          bindR (snprintf_s sql_len m ptr_sqlstart) (\<lambda>sql_str.
          bindR (print_head sess) (\<lambda>out.
          Inr (sess, out @ [(''    sql len:%d %s'', [Num (int sql_len), Str sql_str])], CODE_SUCCESS))))
        else if c = 0x73 then
          bindR (print_head sess) (\<lambda>out.
          Inr (sess\<lparr>state := stat_loging_in\<rparr>, out @ [(''    loging on'', [])], CODE_SUCCESS))
        else Inr (sess, [], CODE_SUCCESS)))"

text \<open>The second of the two strings behind the third byte.\<close>

definition second_string :: "u8 list \<Rightarrow> nat \<Rightarrow> u8 list res" where
  "second_string m pkt = bindR (strlen m (pkt + 3)) (\<lambda>n. c_str m (pkt + 3 + (n + 1)))"

definition tns_313_SP :: handler where
  "tns_313_SP m pkt len sess =
     (if len \<le> 0 then Inr (sess, [], CODE_SUCCESS)
      else bindR (print_head sess) (\<lambda>out.
        bindR (second_string m pkt) (\<lambda>s.
        Inr (sess, out @ [(if cur_dir sess = REQUEST then ''    Client Platform %s'' else ''    Server Banner %s'',
          [Str s])], CODE_SUCCESS))))"

definition four_numbers :: "u8 list \<Rightarrow> parg list" where
  "four_numbers v = map (\<lambda>b. Num (uint b)) v"

definition tns_313_SNS :: handler where
  "tns_313_SNS m pkt len sess =
     (if len \<le> 0 then Inr (sess, [], CODE_SUCCESS)
      else bindR (print_head sess) (\<lambda>out.
        bindR (rd_bytes m (pkt + 8) 4) (\<lambda>v.
        Inr (sess, out @ [(if cur_dir sess = REQUEST then ''    Client Version: %d.%d.%d.%d''
          else ''    Server Version: %d.%d.%d.%d'', four_numbers v)], CODE_SUCCESS))))"

definition tns_314_RS :: handler where
  "tns_314_RS m pkt len sess =
     (if len \<le> 0 then Inr (sess, [], CODE_SUCCESS)
      else bindR (rd8 m (pkt + 3)) (\<lambda>c.
        if c = 0x5E \<or> c = 0x04 then
          bindR (parse_continuous_visible_characters m pkt len) (\<lambda>(ptr_sqlresult, result_len).
          bindR (c_str m ptr_sqlresult) (\<lambda>s.
          Inr (sess, [(''return status : %d %s'', [Num (int result_len), Str s])], CODE_SUCCESS)))
        else Inr (sess, [], CODE_SUCCESS)))"

definition tns_314_OCI :: handler where
  "tns_314_OCI m pkt len sess =
     (if len \<le> 0 then Inr (sess, [], CODE_SUCCESS)
      else bindR (rd8 m (pkt + 3)) (\<lambda>c.
        if c = 0x5E then
          bindR (parse_continuous_visible_characters m pkt len) (\<lambda>(ptr_sqlstart, sql_len).
          bindR (c_str m ptr_sqlstart) (\<lambda>s.
          Inr (sess, [(''query sql :len %d %s'', [Num (int sql_len), Str s])], CODE_SUCCESS)))
        else Inr (sess, [], CODE_SUCCESS)))"

definition tns_314_SP :: handler where
  "tns_314_SP m pkt len sess =
     (if len \<le> 0 then Inr (sess, [], CODE_SUCCESS)
      else bindR (second_string m pkt) (\<lambda>s.
        Inr (sess, [(if cur_dir sess = REQUEST then ''client platform %s'' else ''server platform %s'', [Str s])],
          CODE_SUCCESS)))"

definition tns_314_SNS :: handler where
  "tns_314_SNS m pkt len sess =
     (if len \<le> 0 then Inr (sess, [], CODE_SUCCESS)
      else bindR (rd_bytes m (pkt + 8) 4) (\<lambda>v.
        Inr (sess, [(if cur_dir sess = REQUEST then ''client version: %d.%d.%d.%d''
          else ''server version: %d.%d.%d.%d'', four_numbers v)], CODE_SUCCESS)))"

section \<open>Dispatch\<close>

text \<open>A row of a table: the handler may be NULL.\<close>

record Pkt_handle =
  ph_version :: u16
  ph_type :: u8
  ph_func :: "handler option"

text \<open>The first row that matches and has a handler; the default code when there is none.\<close>

fun dispatch :: "(Pkt_handle \<Rightarrow> bool) \<Rightarrow> int \<Rightarrow> Pkt_handle list \<Rightarrow> handler" where
  "dispatch matches code [] m data len sess = Inr (sess, [], code)"
| "dispatch matches code (ph # phs) m data len sess =
     (case ph_func ph of
        Some f \<Rightarrow> if matches ph then f m data len sess else dispatch matches code phs m data len sess
      | None \<Rightarrow> dispatch matches code phs m data len sess)"

definition msg_data_id_handle :: "Pkt_handle list \<Rightarrow> u16 \<Rightarrow> u8 \<Rightarrow> handler" where
  "msg_data_id_handle phs ver ty = dispatch (\<lambda>ph. ph_version ph = ver \<and> ph_type ph = ty) CODE_DATA_ID phs"

definition packet_handle :: "Pkt_handle list \<Rightarrow> u8 \<Rightarrow> handler" where
  "packet_handle phs ty = dispatch (\<lambda>ph. ph_type ph = ty) CODE_PKT_TYPE phs"

definition row :: "u16 \<Rightarrow> u8 \<Rightarrow> handler option \<Rightarrow> Pkt_handle" where
  "row v t f = \<lparr>ph_version = v, ph_type = t, ph_func = f\<rparr>"

definition msg_data_id_handles :: "Pkt_handle list" where
  "msg_data_id_handles =
     [row TNS_313 TNS313_DATA_ID_SNS (Some tns_313_SNS), row TNS_313 TNS313_DATA_ID_SP (Some tns_313_SP),
      row TNS_313 TNS313_DATA_ID_OCI (Some tns_313_OCI), row TNS_313 TNS313_DATA_ID_RS (Some tns_313_RS),
      row TNS_314 TNS314_DATA_ID_SNS (Some tns_314_SNS), row TNS_314 TNS314_DATA_ID_SP (Some tns_314_SP),
      row TNS_314 TNS314_DATA_ID_OCI (Some tns_314_OCI), row TNS_314 TNS314_DATA_ID_RS (Some tns_314_RS)]"

section \<open>Packets\<close>

text \<open>What \<^verbatim>\<open>cJSON_Parse\<close> gives its caller: an item or NULL. The bound of the model is not reached.\<close>

definition parsed_root :: "cjson parse \<Rightarrow> cjson option res" where
  "parsed_root r = (case r of Parsed x _ \<Rightarrow> Inr (Some x) | Failed _ \<Rightarrow> Inr None | Undef u \<Rightarrow> Inl u
     | NoFuel \<Rightarrow> Inl OutOfBounds)"

definition print_item :: "string \<Rightarrow> cjson option \<Rightarrow> printed" where
  "print_item fmt v =
     (case v of None \<Rightarrow> [] | Some x \<Rightarrow>
        if cj_type x = cJSON_String then [(fmt, [Str (c_view (case valuestring x of Some s \<Rightarrow> s | None \<Rightarrow> []))])] else [])"

text \<open>
  The report on the parsed descriptor. After each of the lookups of \<^verbatim>\<open>CONNECT_DATA\<close> and
  \<^verbatim>\<open>CID\<close> the code tests \<open>desc\<close> again, so a missing member goes on as NULL.
\<close>

definition connect_report :: "cjson option \<Rightarrow> printed res" where
  "connect_report root =
     (if root = None then Inr []
      else bindR (cJSON_GetObjectItem root (bytes_of ''DESCRIPTION'')) (\<lambda>desc.
        if desc = None then Inr []
        else bindR (cJSON_GetObjectItem desc (bytes_of ''CONNECT_DATA'')) (\<lambda>conn_data.
          if desc = None then Inr []
          else bindR (cJSON_GetObjectItem conn_data (bytes_of ''SERVICE_NAME'')) (\<lambda>v1.
            bindR (cJSON_GetObjectItem conn_data (bytes_of ''CID'')) (\<lambda>cid.
            if desc = None then Inr (print_item ''    SERVICE_NAME : %s'' v1)
            else bindR (cJSON_GetObjectItem cid (bytes_of ''HOST'')) (\<lambda>v2.
              bindR (cJSON_GetObjectItem cid (bytes_of ''USER'')) (\<lambda>v3.
              Inr (print_item ''    SERVICE_NAME : %s'' v1 @ print_item ''    HOST : %s'' v2 @
                print_item ''    USER : %s'' v3))))))))"

definition tns_connect_handle :: handler where
  "tns_connect_handle m pkt len sess =
     (if len \<le> TNS_HEAD_LEN then Inr (sess, [], CODE_SUCCESS)
      else
        bindR (debug_hex_println g_hexdump_enbale ''dump tns connect'' m (PKT_DATA pkt) (len - TNS_HEAD_LEN)) (\<lambda>o0.
        bindR (CONNECT_DATA_LEN m pkt) (\<lambda>n.
        if 0 \<ge> unat n then Inr (sess, o0, CODE_SUCCESS)
        else
          let jsonbuf = replicate (2 * unat n) 0; outlen = int (2 * unat n) in
          bindR (CONNECT_VER m pkt) (\<lambda>ver.
          bindR (CONNECT_VER_COMPATIBLE m pkt) (\<lambda>compat.
          let sess = sess\<lparr>version := ver, version_compatible := compat, state := STAT_CONNECT\<rparr> in
          bindR (CONNECT_DATA m pkt) (\<lambda>text.
          bindR (parse_connect_data_to_json m text (int (unat n)) jsonbuf outlen) (\<lambda>(jsonbuf, outlen, ret).
          bindR (c_str (cur_sess_desc sess) 0) (\<lambda>d.
          bindR (direction_str (cur_dir sess)) (\<lambda>r.
          bindR (parsed_root (cJSON_Parse jsonbuf 0)) (\<lambda>root.
          bindR (connect_report root) (\<lambda>o2.
          Inr (sess, o0 @ (''%s %s connect data len:%d'', [Str d, Str r, Num outlen]) # o2, CODE_SUCCESS))))))))))))"

definition tns_accept_handle :: handler where
  "tns_accept_handle m pkt len sess =
     (if len \<le> TNS_HEAD_LEN then Inr (sess, [], CODE_SUCCESS)
      else
        bindR (debug_hex_println g_hexdump_enbale ''dump tns accept'' m (PKT_DATA pkt) (len - TNS_HEAD_LEN)) (\<lambda>o0.
        bindR (ACCEPT_VER m pkt) (\<lambda>ver.
        let sess = sess\<lparr>version := ver, state := STAT_ACCEPT\<rparr> in
        bindR (ACCEPT_DATA_LEN m pkt) (\<lambda>n.
        if 0 \<ge> unat n then Inr (sess, o0, CODE_SUCCESS) else Inr (sess, o0, CODE_SUCCESS)))))"

definition tns_refuse_handle :: handler where
  "tns_refuse_handle m pkt len sess =
     (if len \<le> TNS_HEAD_LEN then Inr (sess, [], CODE_SUCCESS)
      else
        bindR (debug_hex_println g_hexdump_enbale ''dump tns refuse'' m (PKT_DATA pkt) (len - TNS_HEAD_LEN)) (\<lambda>o0.
        let sess = sess\<lparr>state := STAT_REFUSE\<rparr> in
        bindR (REFUSE_DATA_LEN m pkt) (\<lambda>n.
        if 0 \<ge> unat n then Inr (sess, o0, CODE_SUCCESS) else Inr (sess, o0, CODE_SUCCESS))))"

text \<open>The handler of the data gets the length of the whole packet, and what it returns is not looked at.\<close>

definition tns_data_handle :: handler where
  "tns_data_handle m pkt len sess =
     (if len \<le> TNS_HEAD_LEN then Inr (sess, [], CODE_SUCCESS)
      else
        bindR (debug_hex_println g_hexdump_enbale ''dump tns data'' m (PKT_DATA pkt) (len - TNS_HEAD_LEN)) (\<lambda>o0.
        let sess = sess\<lparr>state := STAT_DATA\<rparr> in
        if len \<le> TNS_HEAD_LEN + OFFSET_TNS_DATA_OFFSET then Inr (sess, o0, CODE_SUCCESS)
        else
          bindR (DATA_ID m pkt) (\<lambda>id.
          bindR (msg_data_id_handle msg_data_id_handles (version sess) id m (PKT_DATA pkt) len sess)
            (\<lambda>(sess, o1, _). Inr (sess, o0 @ o1, CODE_SUCCESS)))))"

definition tns_resend_handle :: handler where
  "tns_resend_handle m pkt len sess =
     (if len \<le> TNS_HEAD_LEN then Inr (sess, [], CODE_SUCCESS) else Inr (sess, [], CODE_SUCCESS))"

definition msg_type_handles :: "Pkt_handle list" where
  "msg_type_handles =
     [row 0 TNS_TYPE_CONNECT (Some tns_connect_handle), row 0 TNS_TYPE_ACCEPT (Some tns_accept_handle),
      row 0 TNS_TYPE_ACK None, row 0 TNS_TYPE_REFUSE (Some tns_refuse_handle),
      row 0 TNS_TYPE_REDIRECT None, row 0 TNS_TYPE_DATA (Some tns_data_handle),
      row 0 TNS_TYPE_NULL None, row 0 TNS_TYPE_UNKNOWN1 None, row 0 TNS_TYPE_ABORT None,
      row 0 TNS_TYPE_UNKNOWN2 None, row 0 TNS_TYPE_RESEND (Some tns_resend_handle),
      row 0 TNS_TYPE_MARKER None, row 0 TNS_TYPE_UNKNOWN3 None, row 0 TNS_TYPE_UNKNOWN4 None]"

definition TNS_protocol_parse :: handler where
  "TNS_protocol_parse m data len sess =
     bindR (PKT_LEN m data) (\<lambda>n.
     if len \<noteq> unat n then Inr (sess, [], CODE_PKT_LEN)
     else bindR (PKT_TYPE m data) (\<lambda>ty.
       packet_handle msg_type_handles ty m data len sess))"

section \<open>What a handler may do to a session\<close>

text \<open>The fields that identify the session and were set by the caller stay.\<close>

definition keeps :: "tns_session \<Rightarrow> tns_session \<Rightarrow> bool" where
  "keeps s s' \<longleftrightarrow> sess_list s' = sess_list s \<and> key s' = key s \<and> cur_dir s' = cur_dir s \<and>
     update_time s' = update_time s \<and> cur_sess_desc s' = cur_sess_desc s"

lemma keeps_refl [simp]: "keeps s s"
  by (simp add: keeps_def)

lemma keeps_trans [trans]: "keeps s t \<Longrightarrow> keeps t u \<Longrightarrow> keeps s u"
  by (simp add: keeps_def)

lemma keeps_updates [simp]:
  "keeps s (t\<lparr>state := x\<rparr>) \<longleftrightarrow> keeps s t" "keeps s (t\<lparr>version := v\<rparr>) \<longleftrightarrow> keeps s t"
  "keeps s (t\<lparr>version_compatible := v\<rparr>) \<longleftrightarrow> keeps s t" "keeps (s\<lparr>state := x\<rparr>) t \<longleftrightarrow> keeps s t"
  by (simp_all add: keeps_def)

text \<open>A table of handlers each of which leaves a session in the relation \<open>R\<close> to the one it got.\<close>

locale handler_table =
  fixes R :: "tns_session \<Rightarrow> tns_session \<Rightarrow> int \<Rightarrow> bool"
    and table :: "Pkt_handle list"
  assumes row_ok: "ph \<in> set table \<Longrightarrow> ph_func ph = Some f \<Longrightarrow> f m p len s = Inr (s', out, c) \<Longrightarrow> R s s' c"
begin

lemma dispatch_ok:
  assumes "dispatch matches code table m p len s = Inr (s', out, c)"
  shows "R s s' c \<or> (s' = s \<and> out = [] \<and> c = code)"
proof -
  have "set phs \<subseteq> set table \<Longrightarrow> dispatch matches code phs m p len s = Inr (s', out, c) \<Longrightarrow>
      R s s' c \<or> (s' = s \<and> out = [] \<and> c = code)" for phs
  proof (induction phs)
    case (Cons ph phs)
    then show ?case using row_ok [of ph] by (cases "ph_func ph") (auto split: if_splits)
  qed simp
  from this [OF subset_refl assms] show ?thesis .
qed

end

lemma dispatch_none:
  "\<forall>ph \<in> set phs. matches ph \<longrightarrow> ph_func ph = None \<Longrightarrow> dispatch matches code phs m p len s = Inr (s, [], code)"
  by (induction phs) (auto split: option.splits)

text \<open>The handlers of data packets: at most the login state is set, and there is no error code.\<close>

definition data_effect :: "tns_session \<Rightarrow> tns_session \<Rightarrow> int \<Rightarrow> bool" where
  "data_effect s s' c \<longleftrightarrow> (s' = s \<or> s' = s\<lparr>state := stat_loging_in\<rparr>) \<and> c = CODE_SUCCESS"

lemma data_handlers_effect:
  "tns_313_RS m p len s = Inr (s', out, c) \<Longrightarrow> data_effect s s' c"
  "tns_313_OCI m p len s = Inr (s', out, c) \<Longrightarrow> data_effect s s' c"
  "tns_313_SP m p len s = Inr (s', out, c) \<Longrightarrow> data_effect s s' c"
  "tns_313_SNS m p len s = Inr (s', out, c) \<Longrightarrow> data_effect s s' c"
  "tns_314_RS m p len s = Inr (s', out, c) \<Longrightarrow> data_effect s s' c"
  "tns_314_OCI m p len s = Inr (s', out, c) \<Longrightarrow> data_effect s s' c"
  "tns_314_SP m p len s = Inr (s', out, c) \<Longrightarrow> data_effect s s' c"
  "tns_314_SNS m p len s = Inr (s', out, c) \<Longrightarrow> data_effect s s' c"
  by (auto simp: data_effect_def bindR_Inr_iff Let_def tns_313_RS_def tns_313_OCI_def tns_313_SP_def
      tns_313_SNS_def tns_314_RS_def tns_314_OCI_def tns_314_SP_def tns_314_SNS_def split: if_splits)

interpretation data_table: handler_table data_effect msg_data_id_handles
  by unfold_locales
    (simp add: msg_data_id_handles_def row_def, elim disjE; clarsimp; erule data_handlers_effect)

text \<open>The handlers of packets.\<close>

lemma tns_connect_effect:
  assumes "tns_connect_handle m p len s = Inr (s', out, c)"
  shows "c = CODE_SUCCESS \<and> (s' = s \<or> (\<exists>v w. CONNECT_VER m p = Inr v \<and> CONNECT_VER_COMPATIBLE m p = Inr w \<and>
    s' = s\<lparr>version := v, version_compatible := w, state := STAT_CONNECT\<rparr>))"
  using assms by (auto simp: tns_connect_handle_def bindR_Inr_iff Let_def split: if_splits)

lemma tns_accept_effect:
  assumes "tns_accept_handle m p len s = Inr (s', out, c)"
  shows "c = CODE_SUCCESS \<and> (if len \<le> TNS_HEAD_LEN then s' = s
    else \<exists>v. ACCEPT_VER m p = Inr v \<and> s' = s\<lparr>version := v, state := STAT_ACCEPT\<rparr>)"
  using assms by (auto simp: tns_accept_handle_def bindR_Inr_iff Let_def split: if_splits)

lemma tns_refuse_effect:
  assumes "tns_refuse_handle m p len s = Inr (s', out, c)"
  shows "c = CODE_SUCCESS \<and> s' = (if len \<le> TNS_HEAD_LEN then s else s\<lparr>state := STAT_REFUSE\<rparr>)"
  using assms by (auto simp: tns_refuse_handle_def bindR_Inr_iff Let_def split: if_splits)

lemma tns_data_effect:
  assumes "tns_data_handle m p len s = Inr (s', out, c)"
  shows "c = CODE_SUCCESS \<and> (if len \<le> TNS_HEAD_LEN then s' = s
    else s' = s\<lparr>state := STAT_DATA\<rparr> \<or> s' = s\<lparr>state := stat_loging_in\<rparr>)"
  using assms
  by (auto simp: tns_data_handle_def bindR_Inr_iff Let_def msg_data_id_handle_def data_effect_def
      split: if_splits dest!: data_table.dispatch_ok)

lemma tns_resend_effect:
  "tns_resend_handle m p len s = Inr (s', out, c) \<Longrightarrow> s' = s \<and> c = CODE_SUCCESS"
  by (auto simp: tns_resend_handle_def split: if_splits)

definition packet_effect :: "tns_session \<Rightarrow> tns_session \<Rightarrow> int \<Rightarrow> bool" where
  "packet_effect s s' c \<longleftrightarrow> keeps s s' \<and> c = CODE_SUCCESS \<and>
     (s' = s \<or> state s' \<in> {STAT_CONNECT, STAT_ACCEPT, STAT_REFUSE, STAT_DATA, stat_loging_in})"

interpretation packet_table: handler_table packet_effect msg_type_handles
proof unfold_locales
  fix ph f m p len s s' out c
  assume "ph \<in> set msg_type_handles" "ph_func ph = Some f" "f m p len s = Inr (s', out, c)"
  then show "packet_effect s s' c"
    by (auto simp: msg_type_handles_def row_def packet_effect_def split: if_splits
        dest!: tns_connect_effect tns_accept_effect tns_refuse_effect tns_data_effect tns_resend_effect)
qed

definition handled_types :: "u8 set" where
  "handled_types = {TNS_TYPE_CONNECT, TNS_TYPE_ACCEPT, TNS_TYPE_REFUSE, TNS_TYPE_DATA, TNS_TYPE_RESEND}"

lemma packet_handle_types:
  "packet_handle msg_type_handles ty =
    (if ty = TNS_TYPE_CONNECT then tns_connect_handle else if ty = TNS_TYPE_ACCEPT then tns_accept_handle
     else if ty = TNS_TYPE_REFUSE then tns_refuse_handle else if ty = TNS_TYPE_DATA then tns_data_handle
     else if ty = TNS_TYPE_RESEND then tns_resend_handle
     else (\<lambda>m p len s. Inr (s, [], CODE_PKT_TYPE)))"
  by (intro ext) (simp add: packet_handle_def msg_type_handles_def row_def type_defs)

lemma be16_Inr_iff: "be16 m i = Inr w \<longleftrightarrow> i + 1 < length m \<and> w = word_cat (m ! i) (m ! (i + 1))"
  by (auto simp: be16_def bindR_Inr_iff rd16_def rd8_Inr_iff ntohs_bytes)

text \<open>TNS_protocol_parse on every branch: a length that is not the one in the header gives
  CODE_PKT_LEN, a type without a handler, known or not, CODE_PKT_TYPE, both with the session and the output
  untouched; the five other types go to their handler, and its answer is the answer.\<close>
theorem tns_protocol_parse_branches:
  assumes "p + 4 < length m"
  shows "TNS_protocol_parse m p len s =
    (let ty = m ! (p + 4) in
     if len \<noteq> 256 * unat (m ! p) + unat (m ! (p + 1)) then Inr (s, [], CODE_PKT_LEN)
     else if ty = TNS_TYPE_CONNECT then tns_connect_handle m p len s
     else if ty = TNS_TYPE_ACCEPT then tns_accept_handle m p len s
     else if ty = TNS_TYPE_REFUSE then tns_refuse_handle m p len s
     else if ty = TNS_TYPE_DATA then tns_data_handle m p len s
     else if ty = TNS_TYPE_RESEND then tns_resend_handle m p len s
     else Inr (s, [], CODE_PKT_TYPE))"
proof -
  have "PKT_LEN m p = Inr (word_cat (m ! p) (m ! (p + 1)))"
    using assms by (simp add: PKT_LEN_def be16_Inr_iff)
  with assms be16_value [of "m ! p" "m ! (p + 1)"] show ?thesis
    by (simp add: TNS_protocol_parse_def PKT_TYPE_def packet_handle_types Let_def)
qed

theorem tns_protocol_parse_branches_witness:
  "TNS_protocol_parse [0, 8, 0, 0, 12, 0, 0, 0] 0 8 zero_session = Inr (zero_session, [], CODE_PKT_TYPE) \<and>
   TNS_protocol_parse [0, 8, 0, 0, 12, 0, 0, 0] 0 9 zero_session = Inr (zero_session, [], CODE_PKT_LEN)"
  using tns_protocol_parse_branches [of 0 "[0, 8, 0, 0, 12, 0, 0, 0]" 8 zero_session]
    tns_protocol_parse_branches [of 0 "[0, 8, 0, 0, 12, 0, 0, 0]" 9 zero_session]
  by (simp add: type_defs Let_def)

text \<open>what a packet may do to its session: whatever its bytes are, a packet that is handled leaves the key, the
  direction, the clock and the description alone; the error code is one of three, the session is changed
  only without an error, and then its state is one that a packet type or a login sets.\<close>
theorem tns_protocol_parse_session:
  assumes "TNS_protocol_parse m p len s = Inr (s', out, c)"
  shows "keeps s s' \<and> c \<in> {CODE_SUCCESS, CODE_PKT_LEN, CODE_PKT_TYPE} \<and>
    (c \<noteq> CODE_SUCCESS \<longrightarrow> s' = s \<and> out = []) \<and>
    (s' = s \<or> state s' \<in> {STAT_CONNECT, STAT_ACCEPT, STAT_REFUSE, STAT_DATA, stat_loging_in})"
  using assms
  by (auto simp: TNS_protocol_parse_def bindR_Inr_iff packet_handle_def packet_effect_def split: if_splits
      dest!: packet_table.dispatch_ok)

text \<open>A packet that refuses a connection.\<close>

definition ex_refuse :: "u8 list" where
  "ex_refuse = [0, 12, 0, 0, 4, 0, 0, 0, 34, 0, 0, 0]"

lemma ex_refuse_run: "TNS_protocol_parse ex_refuse 0 12 zero_session =
    Inr (zero_session\<lparr>state := STAT_REFUSE\<rparr>, [], CODE_SUCCESS)"
  by (simp add: ex_refuse_def TNS_protocol_parse_def PKT_LEN_def PKT_TYPE_def packet_handle_types type_defs
      tns_refuse_handle_def be16_def rd16_def ntohs_bytes be16_value debug_hex_println_def g_hexdump_enbale_def
      REFUSE_DATA_LEN_def TNS_HEAD_LEN_def Let_def)

theorem tns_protocol_parse_session_witness:
  "keeps zero_session (zero_session\<lparr>state := STAT_REFUSE\<rparr>) \<and>
   STAT_REFUSE \<in> {STAT_CONNECT, STAT_ACCEPT, STAT_REFUSE, STAT_DATA, stat_loging_in}"
  using tns_protocol_parse_session [OF ex_refuse_run] by simp



section \<open>What is read from data packets\<close>

lemma visible_loop_out:
  assumes "length m < bufin + inlen" and "i < inlen" and "bufin + i \<le> length m"
  shows "visible_loop m bufin i inlen tmp most ptr = Inl OutOfBounds"
  using assms(2,3)
proof (induction "inlen - i" arbitrary: i tmp most ptr)
  case (Suc n)
  show ?case
  proof (cases "bufin + i < length m")
    case True
    with Suc.prems assms(1) have i: "Suc i < inlen" "bufin + Suc i \<le> length m" "n = inlen - Suc i"
      using Suc.hyps(2) by auto
    from Suc.hyps(1) [OF i(3,1,2)] True Suc.prems show ?thesis
      by (subst visible_loop.simps) simp
  next
    case False
    with Suc.prems show ?thesis by (subst visible_loop.simps) simp
  qed
qed simp

lemma visible_characters_out:
  "length m < bufin + inlen \<Longrightarrow> bufin \<le> length m \<Longrightarrow>
    parse_continuous_visible_characters m bufin inlen = Inl OutOfBounds"
  using visible_loop_out [of m bufin inlen 0] by (simp add: parse_continuous_visible_characters_def)

text \<open>C39: the packet handler of a data packet passes the length of the whole packet on with a pointer eight bytes
  into it, so the search for the SQL text reads eight bytes past the packet: when the packet ends where its
  buffer does, a query of version 313 or 314 is read out of bounds, whatever text it carries.\<close>
theorem tns_data_handle_overreads:
  assumes "pkt + len = length m" and "12 < len" and "version sess \<in> {TNS_313, TNS_314}"
    and "m ! (pkt + 10) = TNS313_DATA_ID_OCI" and "m ! (pkt + 11) = 0x5E"
  shows "tns_data_handle m pkt len sess = Inl OutOfBounds"
proof -
  have vis: "parse_continuous_visible_characters m (PKT_DATA pkt) len = Inl OutOfBounds"
    using assms(1,2) by (intro visible_characters_out) (auto simp: PKT_DATA_eq)
  have rd: "rd8 m (PKT_DATA pkt + 3) = Inr 0x5E" "DATA_ID m pkt = Inr TNS313_DATA_ID_OCI"
    using assms by (simp_all add: PKT_DATA_eq DATA_ID_def add.commute)
  have oci: "tns_313_OCI m (PKT_DATA pkt) len s = Inl OutOfBounds" "tns_314_OCI m (PKT_DATA pkt) len s = Inl OutOfBounds"
    for s using vis rd(1) assms(2) by (simp_all add: tns_313_OCI_def tns_314_OCI_def)
  have "msg_data_id_handle msg_data_id_handles (version sess) TNS313_DATA_ID_OCI m (PKT_DATA pkt) len s = Inl OutOfBounds" for s
    using assms(3) oci by (auto simp: msg_data_id_handle_def msg_data_id_handles_def row_def data_id_defs)
  with rd(2) assms(2) show ?thesis
    by (simp add: tns_data_handle_def TNS_HEAD_LEN_def OFFSET_TNS_DATA_OFFSET_def debug_hex_println_def
        g_hexdump_enbale_def Let_def)
qed

theorem tns_data_handle_overreads_witness:
  "tns_data_handle ([0, 21, 0, 0, 6, 0, 0, 0, 0, 0, 3, 0x5E] @ bytes_of ''select 1'' @ [0]) 0 21
    (zero_session\<lparr>version := 313\<rparr>) = Inl OutOfBounds"
  by (rule tns_data_handle_overreads) (simp_all add: data_id_defs nth_append)

text \<open>The string that starts with a run of visible characters.\<close>

lemma c_str_run:
  assumes "run_at m b q (q + k)" and "b + q + k \<le> j" and "0 \<in> set (drop j m)"
  shows "\<exists>r. c_str m (b + q) = Inr (take k (drop (b + q) m) @ r)"
proof -
  let ?d = "drop (b + q) m"
  have "set (drop j m) \<subseteq> set (drop (b + q + k) m)" using assms(2) by (rule set_drop_subset_set_drop)
  with assms(3) have z: "0 \<in> set (drop (b + q + k) m)" by blast
  then have len: "b + q + k < length m" by (cases "b + q + k < length m") auto
  have nz: "\<forall>c \<in> set (take k ?d). c \<noteq> 0"
  proof
    fix c
    assume "c \<in> set (take k ?d)"
    then obtain i where "i < k" "c = m ! (b + (q + i))"
      using len by (auto simp: in_set_conv_nth add.assoc)
    with assms(1) have "visible c" by (auto simp: run_at_def)
    then show "c \<noteq> 0" by (auto simp: visible_def word_le_nat_alt)
  qed
  have w: "takeWhile (\<lambda>b. b \<noteq> 0) (take k ?d @ drop (b + q + k) m) =
      take k ?d @ takeWhile (\<lambda>b. b \<noteq> 0) (drop (b + q + k) m)"
    using nz by (intro takeWhile_append2) auto
  have e: "take k ?d @ drop (b + q + k) m = ?d"
    using append_take_drop_id [of k ?d] by (simp only: drop_drop add.commute [of k])
  have "0 \<in> set ?d" using z arg_cong [OF e, of set] by auto
  with w show ?thesis unfolding c_str_def e by auto
qed

text \<open>C33: the SQL text of a version 313 query: the handler prints the longest run of visible characters of the bytes it is
  given, the last one of that length, cut to 1022 characters, and as its length one more than what it
  prints; the session stays as it is.\<close>
theorem tns_313_OCI_prints_sql:
  assumes "pkt + len \<le> length m" and "3 < len" and "m ! (pkt + 3) = 0x5E" and "0 \<in> set (drop (pkt + len) m)"
    and "c_str (cur_sess_desc sess) 0 = Inr d" and "direction_str (cur_dir sess) = Inr r"
  shows "\<exists>q k. best_run m pkt len k (pkt + q) \<and> tns_313_OCI m pkt len sess =
    Inr (sess, [(''%s %s tns data : version :%d'', [Str d, Str r, Num (uint (version sess))]),
      (''    sql len:%d %s'', [Num (int (min (k + 1) 1023)), Str (take (min k 1022) (drop (pkt + q) m))])], CODE_SUCCESS)"
proof -
  from visible_characters_run [OF assms(1)] obtain q k where
    v: "parse_continuous_visible_characters m pkt len = Inr (pkt + q, k + 1)" "best_run m pkt len k (pkt + q)"
    by (auto simp: best_run_def)
  from v(2) have run: "run_at m pkt q (q + k)" "q + k \<le> len" by (auto simp: best_run_def)
  then have "pkt + q + k \<le> pkt + len" by simp
  from c_str_run [OF run(1) this assms(4)] obtain t where t: "c_str m (pkt + q) = Inr (take k (drop (pkt + q) m) @ t)" ..
  have len: "length (take k (drop (pkt + q) m)) = k" using run(2) assms(1) by simp
  define n where "n = (if Suc k < 1023 then Suc k else 1023)"
  have n: "n - 1 = min k 1022" "n = min (k + 1) 1023" by (auto simp: n_def)
  have "take (min k 1022) (take k (drop (pkt + q) m) @ t) = take (min k 1022) (drop (pkt + q) m)"
    using len by (simp add: min.commute)
  then have "snprintf_s n m (pkt + q) = Inr (take (min k 1022) (drop (pkt + q) m))"
    unfolding snprintf_s_def t n(1) by simp
  moreover have "rd8 m (pkt + 3) = Inr 0x5E" using assms(1-3) by simp
  ultimately have "tns_313_OCI m pkt len sess =
      Inr (sess, [(''%s %s tns data : version :%d'', [Str d, Str r, Num (uint (version sess))]),
      (''    sql len:%d %s'', [Num (int n), Str (take (min k 1022) (drop (pkt + q) m))])], CODE_SUCCESS)"
    unfolding tns_313_OCI_def v(1) using assms(2,5,6)
    by (cases "k < 1022") (simp_all add: print_head_def Let_def n_def)
  with v(2) n(2) show ?thesis by metis
qed

theorem tns_313_OCI_prints_sql_witness:
  "\<exists>q k. best_run ([3, 0, 0, 0x5E, 0, 7] @ bytes_of ''select 1'' @ [0]) 0 14 k (0 + q) \<and>
    tns_313_OCI ([3, 0, 0, 0x5E, 0, 7] @ bytes_of ''select 1'' @ [0]) 0 14 (zero_session\<lparr>version := 313\<rparr>) =
    Inr (zero_session\<lparr>version := 313\<rparr>, [(''%s %s tns data : version :%d'', [Str [], Str (bytes_of ''REQUEST''), Num 313]),
      (''    sql len:%d %s'', [Num (int (min (k + 1) 1023)),
        Str (take (min k 1022) (drop (0 + q) ([3, 0, 0, 0x5E, 0, 7] @ bytes_of ''select 1'' @ [0])))])], CODE_SUCCESS)"
  using tns_313_OCI_prints_sql [of 0 14 "[3, 0, 0, 0x5E, 0, 7] @ bytes_of ''select 1'' @ [0]"
      "zero_session\<lparr>version := 313\<rparr>" "[]" "bytes_of ''REQUEST''"]
  by (simp add: zero_session_def c_str_def direction_str_def)

section \<open>Connect packets\<close>

text \<open>A descriptor as the JSON member it becomes, and what a report on it should say.\<close>

fun descr_member :: "descr \<Rightarrow> jmember" where
  "descr_member (Leaf n v) = JMember n (JString v)"
| "descr_member (Group n ts) = JMember n (JObject (map descr_member ts))"

fun descr_clean :: "descr \<Rightarrow> bool" where
  "descr_clean (Leaf n v) \<longleftrightarrow> clean n \<and> clean v"
| "descr_clean (Group n ts) \<longleftrightarrow> clean n \<and> (\<forall>t \<in> set ts. descr_clean t)"

fun descr_name :: "descr \<Rightarrow> u8 list" where
  "descr_name (Leaf n v) = n"
| "descr_name (Group n ts) = n"

fun descr_kids :: "descr \<Rightarrow> descr list" where
  "descr_kids (Leaf n v) = []"
| "descr_kids (Group n ts) = ts"

definition same_name :: "u8 list \<Rightarrow> string \<Rightarrow> bool" where
  "same_name n s \<longleftrightarrow> map tolower n = map tolower (bytes_of s)"

definition descr_lookup :: "descr list \<Rightarrow> string \<Rightarrow> descr option" where
  "descr_lookup ts s = find (\<lambda>t. same_name (descr_name t) s) ts"

definition print_leaf :: "string \<Rightarrow> descr option \<Rightarrow> printed" where
  "print_leaf fmt t = (case t of Some (Leaf n v) \<Rightarrow> [(fmt, [Str v])] | _ \<Rightarrow> [])"

definition descr_report :: "descr \<Rightarrow> printed res" where
  "descr_report t =
     (if \<not> same_name (descr_name t) ''DESCRIPTION'' then Inr []
      else case descr_lookup (descr_kids t) ''CONNECT_DATA'' of
        None \<Rightarrow> Inl (BadPtr NULL)
      | Some c \<Rightarrow> (case descr_lookup (descr_kids c) ''CID'' of
          None \<Rightarrow> Inl (BadPtr NULL)
        | Some d \<Rightarrow> Inr (print_leaf ''    SERVICE_NAME : %s'' (descr_lookup (descr_kids c) ''SERVICE_NAME'') @
            print_leaf ''    HOST : %s'' (descr_lookup (descr_kids d) ''HOST'') @
            print_leaf ''    USER : %s'' (descr_lookup (descr_kids d) ''USER''))))"

lemma tolower_nul: "tolower c = 0 \<longleftrightarrow> c = 0"
  by (auto simp: tolower_def eq_neg_iff_add_eq_0 [symmetric])

lemma strcasecmp_same:
  "0 \<notin> set s \<Longrightarrow> 0 \<notin> set t \<Longrightarrow> strcasecmp_loop s t = 0 \<longleftrightarrow> map tolower s = map tolower t"
  by (induction s t rule: strcasecmp_loop.induct) (auto simp: tolower_nul uint_0_iff dest: unsigned_word_eqI)

lemma c_view_clean: "clean s \<Longrightarrow> c_view s = s"
  by (auto simp: c_view_def clean_def takeWhile_eq_all_conv)

lemma find_map: "find P (map f xs) = map_option f (find (P \<circ> f) xs)"
  by (induction xs) auto

lemma find_in_set: "find P xs = Some x \<Longrightarrow> x \<in> set xs"
  by (induction xs) (auto split: if_splits)

lemma mclean_descr: "mclean (descr_member t) \<longleftrightarrow> descr_clean t"
  by (induction t) auto

lemma commas_joined: "commas js = joined js"
  by (induction js rule: commas.induct) auto

lemma json_member_text: "json_member t = mtext (descr_member t)"
  by (induction t) (simp_all add: json_object_def commas_joined comp_def cong: map_cong)

lemma json_object_text: "json_object [json_member t] = jtext (JObject [descr_member t])"
  by (simp add: json_object_def json_member_text)

lemma descr_item:
  "cj_name (mitem (descr_member t)) = Some (descr_name t)"
  "children (mitem (descr_member t)) = map (mitem \<circ> descr_member) (descr_kids t)"
  by (cases t; simp add: set_name_def)+

lemma descr_clean_parts:
  "descr_clean t \<Longrightarrow> clean (descr_name t)" "descr_clean t \<Longrightarrow> u \<in> set (descr_kids t) \<Longrightarrow> descr_clean u"
  by (cases t; auto)+

lemma name_matches:
  assumes "clean n" and "0 \<notin> set (bytes_of s)"
  shows "cJSON_strcasecmp (Some n) (Some (bytes_of s)) = 0 \<longleftrightarrow> same_name n s"
proof -
  have "c_view (bytes_of s) = bytes_of s"
    using assms(2) by (auto simp: c_view_def takeWhile_eq_all_conv)
  moreover have "0 \<notin> set n" using assms(1) by (auto simp: clean_def)
  ultimately show ?thesis
    using strcasecmp_same [OF _ assms(2), of n] c_view_clean [OF assms(1)]
    by (simp add: cJSON_strcasecmp_def same_name_def)
qed

text \<open>A lookup in the item of a descriptor is the lookup in the descriptor.\<close>

lemma get_member:
  assumes "descr_clean t" and "0 \<notin> set (bytes_of s)"
  shows "cJSON_GetObjectItem (Some (mitem (descr_member t))) (bytes_of s) =
    Inr (map_option (mitem \<circ> descr_member) (descr_lookup (descr_kids t) s))"
proof -
  have "cJSON_strcasecmp (cj_name (mitem (descr_member u))) (Some (bytes_of s)) = 0 \<longleftrightarrow> same_name (descr_name u) s"
    if "u \<in> set (descr_kids t)" for u
    using name_matches [OF _ assms(2)] descr_clean_parts that assms(1) by (simp add: descr_item)
  then have "find ((\<lambda>c. cJSON_strcasecmp (cj_name c) (Some (bytes_of s)) = 0) \<circ> (mitem \<circ> descr_member)) (descr_kids t) =
      find (\<lambda>u. same_name (descr_name u) s) (descr_kids t)"
    by (intro find_cong) simp_all
  then show ?thesis
    by (simp add: cJSON_GetObjectItem_def descr_item find_map descr_lookup_def)
qed

lemma print_member:
  assumes "\<And>u. t = Some u \<Longrightarrow> descr_clean u"
  shows "print_item fmt (map_option (mitem \<circ> descr_member) t) = print_leaf fmt t"
proof (cases t)
  case (Some u)
  with assms have "descr_clean u" by simp
  with Some show ?thesis
    by (cases u) (simp_all add: print_item_def print_leaf_def set_name_def cJSON_String_def cJSON_Object_def c_view_clean)
qed (simp add: print_item_def print_leaf_def)

lemma lookup_clean: "descr_clean t \<Longrightarrow> descr_lookup (descr_kids t) s = Some u \<Longrightarrow> descr_clean u"
  using find_in_set descr_clean_parts(2) unfolding descr_lookup_def by metis

lemma names_no_nul:
  "0 \<notin> set (bytes_of ''CONNECT_DATA'')" "0 \<notin> set (bytes_of ''SERVICE_NAME'')" "0 \<notin> set (bytes_of ''CID'')"
  "0 \<notin> set (bytes_of ''HOST'')" "0 \<notin> set (bytes_of ''USER'')" "0 \<notin> set (bytes_of ''DESCRIPTION'')"
  by simp_all

lemma connect_report_descr:
  assumes "descr_clean t"
  shows "connect_report (Some (jitem (JObject [descr_member t]))) = descr_report t"
proof -
  note get = get_member [OF _ names_no_nul(1)] get_member [OF _ names_no_nul(2)] get_member [OF _ names_no_nul(3)]
    get_member [OF _ names_no_nul(4)] get_member [OF _ names_no_nul(5)]
  have root: "cJSON_GetObjectItem (Some (jitem (JObject [descr_member t]))) (bytes_of ''DESCRIPTION'') =
      Inr (if same_name (descr_name t) ''DESCRIPTION'' then Some (mitem (descr_member t)) else None)"
    using name_matches [OF descr_clean_parts(1) [OF assms] names_no_nul(6)]
    by (simp add: cJSON_GetObjectItem_def descr_item del: bytes_of_simps)
  have null: "cJSON_GetObjectItem None s = Inl (BadPtr NULL)" for s by (simp add: cJSON_GetObjectItem_def)
  show ?thesis
  proof (cases "same_name (descr_name t) ''DESCRIPTION''")
    case False
    with root show ?thesis by (simp add: connect_report_def descr_report_def del: bytes_of_simps jitem.simps)
  next
    case desc: True
    show ?thesis
    proof (cases "descr_lookup (descr_kids t) ''CONNECT_DATA''")
      case None
      with root desc get(1) [OF assms] null show ?thesis
        by (simp add: connect_report_def descr_report_def del: bytes_of_simps jitem.simps)
    next
      case (Some c)
      have c: "descr_clean c" by (rule lookup_clean [OF assms Some])
      show ?thesis
      proof (cases "descr_lookup (descr_kids c) ''CID''")
        case None
        with root desc Some get(1) [OF assms] get(2,3) [OF c] null show ?thesis
          by (simp add: connect_report_def descr_report_def del: bytes_of_simps jitem.simps)
      next
        case (Some d)
        have d: "descr_clean d" by (rule lookup_clean [OF c Some])
        let ?p = "\<lambda>u s. map_option (mitem \<circ> descr_member) (descr_lookup (descr_kids u) s)"
        have p: "print_item f (?p c s) = print_leaf f (descr_lookup (descr_kids c) s)"
          "print_item f (?p d s) = print_leaf f (descr_lookup (descr_kids d) s)" for f s
          by (rule print_member, erule lookup_clean [OF c], rule print_member, erule lookup_clean [OF d])
        have "connect_report (Some (jitem (JObject [descr_member t]))) =
            Inr (print_item ''    SERVICE_NAME : %s'' (?p c ''SERVICE_NAME'') @
              print_item ''    HOST : %s'' (?p d ''HOST'') @ print_item ''    USER : %s'' (?p d ''USER''))"
          by (simp only: connect_report_def root desc get(1) [OF assms] get(2,3) [OF c] get(4,5) [OF d]
            \<open>descr_lookup (descr_kids t) ''CONNECT_DATA'' = Some c\<close> Some if_True if_False option.map comp_apply
            option.distinct bindR.simps refl)
        with desc \<open>descr_lookup (descr_kids t) ''CONNECT_DATA'' = Some c\<close> Some show ?thesis
          unfolding p by (simp add: descr_report_def del: jitem.simps)
      qed
    qed
  qed
qed

lemma text_at_take: "text_at m p bs \<Longrightarrow> take (length bs) (drop p m) = bs"
  by (auto simp: text_at_def)

lemma connect_parse_descr:
  assumes "wf_descr t" and "roomy t" and "descr_clean t" and "n = length (descr_text t)"
    and "text_at m text (descr_text t)"
  shows "\<exists>out. parse_connect_data_to_json m text (int n) (replicate (2 * n) 0) (int (2 * n)) =
      Inr (out, int (length (json_object [json_member t])) + 1, 0) \<and>
    parsed_root (cJSON_Parse out 0) = Inr (Some (jitem (JObject [descr_member t])))"
proof -
  obtain mid where mid: "descr_text t = LPAREN # mid @ [RPAREN]" using descr_text_shape by blast
  have len: "text + n \<le> length m" using text_at_length [OF assms(5)] assms(4) by simp
  have tk: "take n (drop text m) = LPAREN # mid @ [RPAREN]"
    using text_at_take [OF assms(5)] assms(4) mid by simp
  let ?j = "json_object [json_member t]"
  have short: "length ?j < 2 * n"
    using json_member_length [OF assms(1,2)] assms(4) by (simp add: json_object_def)
  have run: "parse_connect_data_to_json m text (int n) (replicate (2 * n) 0) (int (2 * n)) =
      Inr (filled (2 * n) ?j, int (length ?j) + 1, 0)"
    using parse_connect_run [OF len tk, of "replicate (2 * n) 0"] short
    unfolding mid [symmetric] convs_whole [OF assms(1)] by (simp add: Let_def)
  have "text_at (filled (2 * n) ?j) 0 (jtext (JObject [descr_member t]))"
    by (simp only: json_object_text text_at_def filled_def) simp
  moreover have "jclean (JObject [descr_member t])" using assms(3) by (simp add: mclean_descr)
  ultimately have "cJSON_Parse (filled (2 * n) ?j) 0 =
      Parsed (jitem (JObject [descr_member t])) (0 + length (jtext (JObject [descr_member t])))"
    by (intro cJSON_Parse_compact)
  then have "parsed_root (cJSON_Parse (filled (2 * n) ?j) 0) = Inr (Some (jitem (JObject [descr_member t])))"
    by (simp add: parsed_root_def del: jitem.simps jtext.simps)
  with run show ?thesis by blast
qed


text \<open>A connect packet with the service name orcl, from the host pc and the user me.\<close>

definition ex_connect_descr :: descr where
  "ex_connect_descr = Group (bytes_of ''DESCRIPTION'') [Group (bytes_of ''Connect_Data'')
     [Leaf (bytes_of ''SERVICE_NAME'') (bytes_of ''orcl''),
      Group (bytes_of ''CID'') [Leaf (bytes_of ''HOST'') (bytes_of ''pc''), Leaf (bytes_of ''USER'') (bytes_of ''me'')]]]"

definition ex_connect :: "u8 list" where
  "ex_connect = [0, 100, 0, 0, 1, 0, 0, 0, 0x01, 0x39, 0x01, 0x2C,
     0, 0, 0, 0, 0, 0, 0, 0, 0, 0, 0, 0, 0, 72, 0, 28] @ descr_text ex_connect_descr"

lemma ex_connect_descr_ok:
  "wf_descr ex_connect_descr" "roomy ex_connect_descr" "descr_clean ex_connect_descr"
  "length (descr_text ex_connect_descr) = 72"
  by (simp_all add: ex_connect_descr_def plain_def)

lemma ex_connect_report:
  "descr_report ex_connect_descr = Inr [(''    SERVICE_NAME : %s'', [Str (bytes_of ''orcl'')]),
     (''    HOST : %s'', [Str (bytes_of ''pc'')]), (''    USER : %s'', [Str (bytes_of ''me'')])]"
  by (simp add: descr_report_def ex_connect_descr_def same_name_def descr_lookup_def tolower_def print_leaf_def)

lemma be16_eq: "word_cat (a::u8) (b::u8) = (w::u16) \<longleftrightarrow> 256 * unat a + unat b = unat w"
  "w = word_cat (a::u8) (b::u8) \<longleftrightarrow> 256 * unat a + unat b = unat w"
  by (auto simp: word_unat_eq_iff be16_value)

lemma ex_connect_fields:
  "CONNECT_DATA ex_connect 0 = Inr 28" "CONNECT_DATA_LEN ex_connect 0 = Inr 72"
  "CONNECT_VER ex_connect 0 = Inr 313" "CONNECT_VER_COMPATIBLE ex_connect 0 = Inr 300"
  "text_at ex_connect 28 (descr_text ex_connect_descr)"
  by (simp_all add: CONNECT_DATA_def CONNECT_DATA_OFFSET_def CONNECT_DATA_LEN_def CONNECT_VER_def bindR_Inr_iff
      CONNECT_VER_COMPATIBLE_def PKT_DATA_eq be16_Inr_iff be16_eq ex_connect_def nth_append text_at_def)


end
