(* ===== verification/Process.thy ===== *)
theory Process
  imports Tns
begin

text \<open>
  \<^verbatim>\<open>mainprocess\<close> of \<^verbatim>\<open>src/src/process.c\<close>: the session of a packet is looked up, its
  direction and description are set, and the packet is parsed for it.
\<close>

section \<open>Operations\<close>

text \<open>\<^verbatim>\<open>inet_ntoa\<close>: the four bytes of an address, in memory order, in decimal.\<close>

definition octet :: "u32 \<Rightarrow> nat \<Rightarrow> nat" where
  "octet w i = unat (ucast (drop_bit (8 * i) w) :: u8)"

definition inet_ntoa :: "u32 \<Rightarrow> u8 list" where
  "inet_ntoa w = decimal (octet w 0) @ [0x2E] @ decimal (octet w 1) @ [0x2E] @
     decimal (octet w 2) @ [0x2E] @ decimal (octet w 3)"

text \<open>\<^verbatim>\<open>sprintf (buf, "[%s:%u -> %s:%u]", ...)\<close> into an array of characters.\<close>

definition desc_text :: "sess_key \<Rightarrow> u8 list" where
  "desc_text k = bytes_of ''['' @ inet_ntoa (sip k) @ bytes_of '':'' @ decimal (unat (ntohs (sport k))) @
     bytes_of '' -> '' @ inet_ntoa (dip k) @ bytes_of '':'' @ decimal (unat (ntohs (dport k))) @ bytes_of '']''"

definition sprintf_to :: "u8 list \<Rightarrow> u8 list \<Rightarrow> u8 list res" where
  "sprintf_to buf s =
     (if length s < length buf then Inr (s @ 0 # drop (length s + 1) buf) else Inl OutOfBounds)"

definition mainprocess ::
  "table \<Rightarrow> u64 \<Rightarrow> u8 list \<Rightarrow> nat \<Rightarrow> nat \<Rightarrow> sess_key \<Rightarrow> int \<Rightarrow> (table \<times> printed \<times> int) res" where
  "mainprocess t now m data len k dir =
     bindR (sess_must_find_node t now k dir) (\<lambda>(t, i).
     bindR (table_at t i) (\<lambda>s.
     let s = s\<lparr>cur_dir := dir\<rparr> in
     bindR (sprintf_to (cur_sess_desc s) (desc_text k)) (\<lambda>d.
     let s = s\<lparr>cur_sess_desc := d\<rparr> in
     bindR (TNS_protocol_parse m data len s) (\<lambda>(s, out, ret).
     bindR (table_set t i s) (\<lambda>t. Inr (t, out, ret))))))"

section \<open>The description\<close>

lemma decimal_no_nul: "0 \<notin> set (decimal n)"
proof (induction n rule: decimal.induct)
  case (1 n)
  have "(of_nat (48 + k) :: u8) \<noteq> 0" if "k < 10" for k
  proof
    assume "(of_nat (48 + k) :: u8) = 0"
    then have "unat (of_nat (48 + k) :: u8) = 0" by simp
    with that show False by (simp only: unat_of_nat) simp
  qed
  from this [of n] this [of "n mod 10"] 1 show ?case
    by (subst decimal.simps) (auto simp del: of_nat_add)
qed

lemma octet_bound: "octet w i < 256"
  using unsigned_less [where 'a = nat and w = "ucast (drop_bit (8 * i) w) :: u8"] by (simp add: octet_def)

lemma inet_ntoa_length: "length (inet_ntoa w) \<le> 15"
proof -
  have "length (decimal (octet w i)) \<le> 3" for i
    using octet_bound [of w i] by (intro decimal_length) simp_all
  from this [of 0] this [of 1] this [of 2] this [of 3] show ?thesis by (simp add: inet_ntoa_def)
qed

lemma port_length: "length (decimal (unat (w :: u16))) \<le> 5"
  using unsigned_less [where 'a = nat and w = w] by (intro decimal_length) simp_all

lemma desc_text_length: "length (desc_text k) \<le> 48"
  using inet_ntoa_length [of "sip k"] inet_ntoa_length [of "dip k"] port_length [of "ntohs (sport k)"]
    port_length [of "ntohs (dport k)"] by (simp add: desc_text_def)

lemma desc_text_no_nul: "0 \<notin> set (desc_text k)"
  by (auto simp: desc_text_def inet_ntoa_def decimal_no_nul)

definition described :: "table \<Rightarrow> bool" where
  "described t \<longleftrightarrow> length t = MAX_SESS_NODE \<and> (\<forall>s \<in> set t. length (cur_sess_desc s) = 64)"

lemma sprintf_desc:
  assumes "length buf = 64"
  shows "\<exists>d. sprintf_to buf (desc_text k) = Inr d \<and> length d = 64 \<and> c_str d 0 = Inr (desc_text k)"
  using assms desc_text_length [of k] c_str_append [OF desc_text_no_nul, of k]
  by (simp add: sprintf_to_def)

section \<open>Correctness\<close>

lemma mainprocess_run:
  assumes "described t"
  shows "\<exists>t1 i d. sess_must_find_node t now k dir = Inr (t1, i) \<and> i < MAX_SESS_NODE \<and> described t1 \<and>
    key (t1 ! i) = norm_key k dir \<and> length d = 64 \<and> c_str d 0 = Inr (desc_text k) \<and>
    mainprocess t now m data len k dir =
      bindR (TNS_protocol_parse m data len ((t1 ! i)\<lparr>cur_dir := dir, cur_sess_desc := d\<rparr>)) (\<lambda>(s, out, ret).
      Inr (t1[i := s], out, ret))"
proof -
  have len: "length t = MAX_SESS_NODE" using assms by (simp add: described_def)
  have "\<exists>t1 i. sess_must_find_node t now k dir = Inr (t1, i) \<and> i < MAX_SESS_NODE \<and> described t1 \<and>
      key (t1 ! i) = norm_key k dir"
    using key_cases [of "norm_key k dir" t]
  proof
    assume "no_key (norm_key k dir) t"
    from sess_miss [OF len this, of now] assms show ?thesis
      by (auto simp: described_def MAX_SESS_NODE_def dest!: set_update_subset_insert [THEN subsetD])
  next
    assume "\<exists>i. holds_key (norm_key k dir) t i"
    then obtain i where i: "holds_key (norm_key k dir) t i" ..
    with sess_hit [OF len i, of now] assms show ?thesis
      by (auto simp: described_def holds_key_def dest!: set_update_subset_insert [THEN subsetD])
  qed
  then obtain t1 i where t1: "sess_must_find_node t now k dir = Inr (t1, i)" "i < MAX_SESS_NODE"
    "described t1" "key (t1 ! i) = norm_key k dir" by blast
  then have "i < length t1" "length (cur_sess_desc (t1 ! i)) = 64" by (simp_all add: described_def)
  with sprintf_desc [of "cur_sess_desc (t1 ! i)" k] obtain d where
    d: "sprintf_to (cur_sess_desc (t1 ! i)) (desc_text k) = Inr d" "length d = 64" "c_str d 0 = Inr (desc_text k)"
    by blast
  with t1 \<open>i < length t1\<close> show ?thesis
    by (auto simp: mainprocess_def table_at_def table_set_def Let_def intro!: exI [of _ d] bindR_cong)
qed

lemma mainprocess_keeps:
  assumes "described t" and "mainprocess t now m data len k dir = Inr (t', out, ret)"
  shows "described t' \<and> (norm_key k dir \<noteq> zero_key \<longrightarrow> sess_step t t')"
proof -
  from mainprocess_run [OF assms(1), of now k dir m data len] obtain t1 i d where
    r: "sess_must_find_node t now k dir = Inr (t1, i)" "described t1" "length d = 64"
    and eq: "mainprocess t now m data len k dir =
      bindR (TNS_protocol_parse m data len ((t1 ! i)\<lparr>cur_dir := dir, cur_sess_desc := d\<rparr>)) (\<lambda>(s, out, ret).
      Inr (t1[i := s], out, ret))" by blast
  from assms(2) obtain s where
    p: "TNS_protocol_parse m data len ((t1 ! i)\<lparr>cur_dir := dir, cur_sess_desc := d\<rparr>) = Inr (s, out, ret)"
      "t' = t1[i := s]"
    unfolding eq by (auto simp: bindR_Inr_iff)
  have "keeps ((t1 ! i)\<lparr>cur_dir := dir, cur_sess_desc := d\<rparr>) s"
    using p(1) by (auto simp: TNS_protocol_parse_def bindR_Inr_iff packet_handle_def packet_effect_def
        split: if_splits dest!: packet_table.dispatch_ok)
  then have s: "key s = key (t1 ! i)" "cur_sess_desc s = d" by (simp_all add: keeps_def)
  have "described t'" using r(2,3) p(2) s(2)
    by (auto simp: described_def dest!: set_update_subset_insert [THEN subsetD])
  with r(1) p(2) s(1) show ?thesis by (auto intro: packet)
qed


lemma ex_described: "described (replicate 32 zero_session)"
  by (simp add: described_def MAX_SESS_NODE_def zero_session_def)


end
