(* ===== verification/Network.thy ===== *)
theory Network
  imports Bytes Session
begin

text \<open>
  The capture side, \<^verbatim>\<open>src/src/network.c\<close> and \<^verbatim>\<open>recv_via_dev\<close> of
  \<^verbatim>\<open>src/src/socket.c\<close>: a frame is received into the packet's buffer, its Ethernet,
  IP and TCP headers select the packets of the monitored server, and the packet is given
  its payload, its key and its direction. The frame the kernel delivers is an argument.
\<close>

section \<open>State\<close>

definition MAX_PACKET_SIZE :: nat where "MAX_PACKET_SIZE = 1500"
definition TRY_RECV_LEN :: nat where "TRY_RECV_LEN = 1518"
definition ETH_HEAD_LEN :: nat where "ETH_HEAD_LEN = 14"
definition IPV4 :: u8 where "IPV4 = 4"
definition IPPROTO_TCP :: u8 where "IPPROTO_TCP = 6"
definition ETH_P_IP :: u16 where "ETH_P_IP = 0x0800"
definition RESULT_PUSH :: int where "RESULT_PUSH = 0"
definition RESULT_DROP :: int where "RESULT_DROP = 1"

text \<open>The packet: the buffer, the offset of the payload in it, and what was found out about it.\<close>

record packet =
  p_buf :: "u8 list"
  p_data :: nat
  p_len :: u32
  p_dir :: int
  p_action :: int
  p_key :: sess_key

text \<open>The server that is monitored: \<^verbatim>\<open>g_target_ip\<close> (as in the header) and \<^verbatim>\<open>g_target_port\<close>.\<close>

record target =
  g_target_ip :: u32
  g_target_port :: u16

section \<open>Header fields\<close>

definition IP_OFFSET :: nat where "IP_OFFSET = ETH_HEAD_LEN"

definition ip_ihl :: "u8 list \<Rightarrow> nat \<Rightarrow> nat res" where
  "ip_ihl m ip = bindR (rd8 m ip) (\<lambda>b. Inr (unat (b AND 15)))"

definition ip_version :: "u8 list \<Rightarrow> nat \<Rightarrow> u8 res" where
  "ip_version m ip = bindR (rd8 m ip) (\<lambda>b. Inr (drop_bit 4 b))"

definition ip_tot_len :: "u8 list \<Rightarrow> nat \<Rightarrow> u16 res" where "ip_tot_len m ip = rd16 m (ip + 2)"
definition ip_protocol :: "u8 list \<Rightarrow> nat \<Rightarrow> u8 res" where "ip_protocol m ip = rd8 m (ip + 9)"
definition ip_saddr :: "u8 list \<Rightarrow> nat \<Rightarrow> u32 res" where "ip_saddr m ip = rd32 m (ip + 12)"
definition ip_daddr :: "u8 list \<Rightarrow> nat \<Rightarrow> u32 res" where "ip_daddr m ip = rd32 m (ip + 16)"
definition tcp_source :: "u8 list \<Rightarrow> nat \<Rightarrow> u16 res" where "tcp_source m tcp = rd16 m tcp"
definition tcp_dest :: "u8 list \<Rightarrow> nat \<Rightarrow> u16 res" where "tcp_dest m tcp = rd16 m (tcp + 2)"

definition tcp_doff :: "u8 list \<Rightarrow> nat \<Rightarrow> nat res" where
  "tcp_doff m tcp = bindR (rd8 m (tcp + 12)) (\<lambda>b. Inr (unat (drop_bit 4 b)))"

definition TCP_OFFSET :: "u8 list \<Rightarrow> nat \<Rightarrow> nat res" where
  "TCP_OFFSET m ip = bindR (ip_ihl m ip) (\<lambda>ihl. Inr (ip + ihl * 4))"

text \<open>
  The macro \<^verbatim>\<open>TCP_DATA\<close>: the payload behind headers without IP options. Nothing uses it.
\<close>

definition IP_HEAD_LEN :: nat where "IP_HEAD_LEN = 20"
definition ETH_IP_HEAD_LEN :: nat where "ETH_IP_HEAD_LEN = ETH_HEAD_LEN + IP_HEAD_LEN"

definition TCP_DATA :: "u8 list \<Rightarrow> nat res" where
  "TCP_DATA m = bindR (tcp_doff m ETH_IP_HEAD_LEN) (\<lambda>doff. Inr (ETH_IP_HEAD_LEN + doff * 4))"

section \<open>Operations\<close>

definition recv_set_pack_info :: "packet \<Rightarrow> int \<Rightarrow> int \<Rightarrow> int \<Rightarrow> packet res" where
  "recv_set_pack_info pkt dataLen dir action =
     (let m = p_buf pkt; ip = IP_OFFSET in
      bindR (TCP_OFFSET m ip) (\<lambda>tcp.
      bindR (ip_ihl m ip) (\<lambda>ihl.
      bindR (tcp_doff m tcp) (\<lambda>doff.
      bindR (ip_saddr m ip) (\<lambda>sa.
      bindR (ip_daddr m ip) (\<lambda>da.
      bindR (tcp_source m tcp) (\<lambda>sp.
      bindR (tcp_dest m tcp) (\<lambda>dp.
      Inr (pkt\<lparr>p_len := word_of_int dataLen, p_data := ETH_HEAD_LEN + ihl * 4 + doff * 4,
        p_key := \<lparr>sip = sa, dip = da, sport = sp, dport = dp\<rparr>,
        p_dir := dir, p_action := action\<rparr>)))))))))"

text \<open>
  The verdict on an IP packet, with the two values the caller passed by reference; the
  direction is not set before the call. The length of the payload is computed in 16 bits.
\<close>

definition ip_recv :: "target \<Rightarrow> u8 list \<Rightarrow> int \<Rightarrow> int \<Rightarrow> int option \<Rightarrow> (int \<times> int \<times> int option) res" where
  "ip_recv g m len dataLen dir =
     (let ip = IP_OFFSET in
      bindR (ip_version m ip) (\<lambda>v.
      if IPV4 \<noteq> v then Inr (RESULT_DROP, dataLen, dir)
      else bindR (ip_protocol m ip) (\<lambda>pr.
      if IPPROTO_TCP \<noteq> pr then Inr (RESULT_DROP, dataLen, dir)
      else bindR (TCP_OFFSET m ip) (\<lambda>tcp.
      bindR (ip_tot_len m ip) (\<lambda>tl.
      bindR (ip_ihl m ip) (\<lambda>ihl.
      bindR (tcp_doff m tcp) (\<lambda>doff.
      let tcp_len = ntohs tl - of_nat (ihl * 4) - of_nat (doff * 4);
          dataLen = uint tcp_len in
      bindR (ip_saddr m ip) (\<lambda>sa.
      bindR (tcp_source m tcp) (\<lambda>sp.
      if sa = g_target_ip g \<and> ntohs sp = g_target_port g then Inr (RESULT_PUSH, dataLen, Some RESPONSE)
      else bindR (ip_daddr m ip) (\<lambda>da.
      bindR (tcp_dest m tcp) (\<lambda>dp.
      if da = g_target_ip g \<and> ntohs dp = g_target_port g then Inr (RESULT_PUSH, dataLen, Some REQUEST)
      else Inr (RESULT_DROP, dataLen, dir))))))))))))"

definition proc_incoming_pack ::
  "target \<Rightarrow> u8 list \<Rightarrow> int \<Rightarrow> int \<Rightarrow> int option \<Rightarrow> (int \<times> int \<times> int option) res" where
  "proc_incoming_pack g m len dataLen dir =
     bindR (rd16 m 12) (\<lambda>h_proto.
     if ntohs h_proto = ETH_P_IP then ip_recv g m len dataLen dir
     else Inr (RESULT_DROP, dataLen, dir))"

text \<open>
  The next result of \<^verbatim>\<open>recvfrom\<close>: an error, or a frame, of which at most the requested
  number of bytes is copied to the caller.
\<close>

datatype received_frame = RecvError | Frame "u8 list"

definition recv_via_dev :: "received_frame \<Rightarrow> u8 list \<Rightarrow> nat \<Rightarrow> (int \<times> u8 list) res" where
  "recv_via_dev r buf n =
     (case r of
        RecvError \<Rightarrow> Inr (-1, buf)
      | Frame f \<Rightarrow>
          (let c = take n f in
           if length c \<le> length buf then Inr (int (length c), c @ drop (length c) buf)
           else Inl OutOfBounds))"

definition eth_recv :: "target \<Rightarrow> received_frame \<Rightarrow> packet \<Rightarrow> (packet \<times> int) res" where
  "eth_recv g r pkt =
     bindR (recv_via_dev r (p_buf pkt) TRY_RECV_LEN) (\<lambda>(recvLen, buf).
     let pkt = pkt\<lparr>p_buf := buf\<rparr> in
     if recvLen < 0 then Inr (pkt, 1)
     else bindR (proc_incoming_pack g buf recvLen 0 None) (\<lambda>(action, dataLen, dir).
     if action = RESULT_DROP then Inr (pkt, 1)
     else (case dir of
         None \<Rightarrow> Inl Uninitialised
       | Some d \<Rightarrow> bindR (recv_set_pack_info pkt dataLen d action) (\<lambda>pkt. Inr (pkt, 0)))))"

lemmas net_consts = MAX_PACKET_SIZE_def TRY_RECV_LEN_def ETH_HEAD_LEN_def IP_OFFSET_def
  RESULT_PUSH_def RESULT_DROP_def

section \<open>What the headers say\<close>

lemma nibble_bound: "unat ((b::u8) AND 15) < 16" "unat (drop_bit 4 (b::u8)) < 16"
proof -
  have "b AND 15 \<le> 15" by (rule word_and_le1)
  then show "unat (b AND 15) < 16" by (simp add: word_le_nat_alt)
  show "unat (drop_bit 4 b) < 16"
    using unsigned_less [where 'a = nat and w = b]
    by (simp only: unat_drop_bit_eq) (simp add: drop_bit_eq_div less_mult_imp_div_less)
qed

text \<open>The headers lie within the first 134 bytes, so a buffer of 1500 is never left here.\<close>

lemma ip_ihl_ok: "ip < length m \<Longrightarrow> \<exists>h < 16. ip_ihl m ip = Inr h"
  by (simp add: ip_ihl_def nibble_bound)

lemma tcp_doff_ok: "tcp + 12 < length m \<Longrightarrow> \<exists>d < 16. tcp_doff m tcp = Inr d"
  by (simp add: tcp_doff_def nibble_bound)

text \<open>
  The verdict as a specification on the header fields: which frames are packets of the
  server, and what a packet accepted from such a frame is.
\<close>

record headers =
  h_proto :: u16
  h_version :: u8
  h_protocol :: u8
  h_ihl :: nat
  h_doff :: nat
  h_tot :: u16
  h_key :: sess_key

definition headers_of :: "u8 list \<Rightarrow> headers res" where
  "headers_of m =
     (let ip = IP_OFFSET in
      bindR (rd16 m 12) (\<lambda>e. bindR (ip_version m ip) (\<lambda>v. bindR (ip_protocol m ip) (\<lambda>pr.
      bindR (ip_ihl m ip) (\<lambda>h. bindR (tcp_doff m (ip + h * 4)) (\<lambda>d. bindR (ip_tot_len m ip) (\<lambda>tl.
      bindR (ip_saddr m ip) (\<lambda>sa. bindR (ip_daddr m ip) (\<lambda>da.
      bindR (tcp_source m (ip + h * 4)) (\<lambda>sp. bindR (tcp_dest m (ip + h * 4)) (\<lambda>dp.
      Inr \<lparr>h_proto = ntohs e, h_version = v, h_protocol = pr, h_ihl = h, h_doff = d, h_tot = ntohs tl,
        h_key = \<lparr>sip = sa, dip = da, sport = sp, dport = dp\<rparr>\<rparr>)))))))))))"

definition is_tcp4 :: "headers \<Rightarrow> bool" where
  "is_tcp4 h \<longleftrightarrow> h_proto h = ETH_P_IP \<and> h_version h = IPV4 \<and> h_protocol h = IPPROTO_TCP"

definition from_target :: "target \<Rightarrow> headers \<Rightarrow> bool" where
  "from_target g h \<longleftrightarrow> sip (h_key h) = g_target_ip g \<and> ntohs (sport (h_key h)) = g_target_port g"

definition to_target :: "target \<Rightarrow> headers \<Rightarrow> bool" where
  "to_target g h \<longleftrightarrow> dip (h_key h) = g_target_ip g \<and> ntohs (dport (h_key h)) = g_target_port g"

definition wanted :: "target \<Rightarrow> headers \<Rightarrow> bool" where
  "wanted g h \<longleftrightarrow> is_tcp4 h \<and> (from_target g h \<or> to_target g h)"

definition payload_len :: "headers \<Rightarrow> u16" where
  "payload_len h = h_tot h - of_nat (h_ihl h * 4) - of_nat (h_doff h * 4)"

definition accepted :: "target \<Rightarrow> headers \<Rightarrow> packet \<Rightarrow> packet" where
  "accepted g h pkt = pkt\<lparr>p_len := ucast (payload_len h), p_data := ETH_HEAD_LEN + h_ihl h * 4 + h_doff h * 4,
     p_key := h_key h, p_dir := (if from_target g h then RESPONSE else REQUEST), p_action := RESULT_PUSH\<rparr>"

lemma headers_of_total:
  assumes "length m = MAX_PACKET_SIZE"
  shows "\<exists>h. headers_of m = Inr h \<and> h_ihl h < 16 \<and> h_doff h < 16"
proof -
  have len: "length m = 1500" using assms by (simp add: net_consts)
  from len obtain h where h: "h < 16" "ip_ihl m IP_OFFSET = Inr h"
    using ip_ihl_ok [of IP_OFFSET m] by (auto simp: net_consts)
  moreover from h len obtain d where "d < 16" "tcp_doff m (IP_OFFSET + h * 4) = Inr d"
    using tcp_doff_ok [of "IP_OFFSET + h * 4" m] by (auto simp: net_consts)
  ultimately show ?thesis using len
    by (simp add: headers_of_def ip_version_def ip_protocol_def ip_tot_len_def ip_saddr_def ip_daddr_def
        tcp_source_def tcp_dest_def rd16_ok rd32_ok net_consts)
qed

lemma headers_ofE:
  assumes "headers_of m = Inr h"
  obtains e v pr i d tl sa da sp dp where "rd16 m 12 = Inr e" "ip_version m IP_OFFSET = Inr v"
    "ip_protocol m IP_OFFSET = Inr pr" "ip_ihl m IP_OFFSET = Inr i" "tcp_doff m (IP_OFFSET + i * 4) = Inr d"
    "ip_tot_len m IP_OFFSET = Inr tl" "ip_saddr m IP_OFFSET = Inr sa" "ip_daddr m IP_OFFSET = Inr da"
    "tcp_source m (IP_OFFSET + i * 4) = Inr sp" "tcp_dest m (IP_OFFSET + i * 4) = Inr dp"
    "h = \<lparr>h_proto = ntohs e, h_version = v, h_protocol = pr, h_ihl = i, h_doff = d, h_tot = ntohs tl,
      h_key = \<lparr>sip = sa, dip = da, sport = sp, dport = dp\<rparr>\<rparr>"
  using assms unfolding headers_of_def Let_def bindR_Inr_iff by (elim exE conjE) (simp only: sum.inject)

lemma proc_incoming_spec:
  assumes "headers_of m = Inr h"
  shows "proc_incoming_pack g m len dl dir = Inr
    (if wanted g h then (RESULT_PUSH, uint (payload_len h), Some (if from_target g h then RESPONSE else REQUEST))
     else (RESULT_DROP, if is_tcp4 h then uint (payload_len h) else dl, dir))"
  by (rule headers_ofE [OF assms])
    (simp add: proc_incoming_pack_def ip_recv_def TCP_OFFSET_def Let_def
      wanted_def is_tcp4_def from_target_def to_target_def payload_len_def)

lemma recv_set_pack_info_spec:
  assumes "headers_of (p_buf pkt) = Inr h"
  shows "recv_set_pack_info pkt (uint (payload_len h)) dir RESULT_PUSH =
    Inr ((accepted g h pkt)\<lparr>p_dir := dir\<rparr>)"
  by (rule headers_ofE [OF assms])
    (simp add: recv_set_pack_info_def TCP_OFFSET_def Let_def accepted_def payload_len_def)

text \<open>Without IP options \<open>TCP_DATA\<close> is where \<open>recv_set_pack_info\<close> finds the payload.\<close>

lemma TCP_DATA_without_options:
  assumes "headers_of m = Inr h" and "h_ihl h = 5"
  shows "TCP_DATA m = Inr (p_data (accepted g h pkt))"
  by (rule headers_ofE [OF assms(1)])
    (use assms(2) in \<open>simp add: TCP_DATA_def accepted_def net_consts IP_HEAD_LEN_def ETH_IP_HEAD_LEN_def\<close>)

lemma recv_via_dev_fits:
  "length f \<le> length buf \<Longrightarrow> length buf \<le> n \<Longrightarrow>
    recv_via_dev (Frame f) buf n = Inr (int (length f), f @ drop (length f) buf)"
  by (simp add: recv_via_dev_def)

lemma eth_recv_spec:
  assumes "length (p_buf pkt) = MAX_PACKET_SIZE" and "length f \<le> MAX_PACKET_SIZE"
    and "headers_of (f @ drop (length f) (p_buf pkt)) = Inr h"
  shows "eth_recv g (Frame f) pkt =
    (let pkt' = pkt\<lparr>p_buf := f @ drop (length f) (p_buf pkt)\<rparr> in
     Inr (if wanted g h then (accepted g h pkt', 0) else (pkt', 1)))"
proof -
  let ?pkt = "pkt\<lparr>p_buf := f @ drop (length f) (p_buf pkt)\<rparr>"
  have "recv_via_dev (Frame f) (p_buf pkt) TRY_RECV_LEN = Inr (int (length f), p_buf ?pkt)"
    using assms(1,2) by (simp add: recv_via_dev_fits net_consts)
  moreover have "headers_of (p_buf ?pkt) = Inr h" using assms(3) by simp
  moreover note recv_set_pack_info_spec [OF this, of _ g] proc_incoming_spec [OF this, of g]
  ultimately show ?thesis
    by (simp add: eth_recv_def Let_def RESULT_PUSH_def RESULT_DROP_def) (simp add: accepted_def)
qed

lemma norm_key_target:
  assumes "wanted g h"
  shows "dip (norm_key (p_key (accepted g h pkt)) (p_dir (accepted g h pkt))) = g_target_ip g \<and>
    ntohs (dport (norm_key (p_key (accepted g h pkt)) (p_dir (accepted g h pkt)))) = g_target_port g"
  using assms by (auto simp: accepted_def norm_key_def wanted_def from_target_def to_target_def
      REQUEST_def RESPONSE_def)

section \<open>Correctness\<close>

text \<open>
  A request of 10.0.0.1, port 40960, to the server 10.0.0.2, port 1521, with the 8 bytes
  of a TNS header as its payload.
\<close>

definition ex_target :: target where
  "ex_target = \<lparr>g_target_ip = 0x0200000A, g_target_port = 1521\<rparr>"

definition ex_frame :: "u8 list" where
  "ex_frame = [0, 0, 0, 0, 0, 2, 0, 0, 0, 0, 0, 1, 0x08, 0x00,
     0x45, 0, 0, 48, 0, 1, 0, 0, 64, 6, 0, 0, 10, 0, 0, 1, 10, 0, 0, 2,
     0xA0, 0x00, 0x05, 0xF1, 0, 0, 0, 1, 0, 0, 0, 0, 0x50, 0x18, 16, 0, 0, 0, 0, 0,
     0, 8, 0, 0, 11, 0, 0, 0]"

definition ex_packet :: packet where
  "ex_packet = \<lparr>p_buf = replicate 1500 0, p_data = 0, p_len = 0, p_dir = 0, p_action = 0, p_key = zero_key\<rparr>"

definition ex_headers :: headers where
  "ex_headers = \<lparr>h_proto = 0x0800, h_version = 4, h_protocol = 6, h_ihl = 5, h_doff = 5, h_tot = 48,
     h_key = \<lparr>sip = 0x0100000A, dip = 0x0200000A, sport = 0x00A0, dport = 0xF105\<rparr>\<rparr>"

lemma ex_frame_headers: "headers_of (ex_frame @ drop (length ex_frame) (p_buf ex_packet)) = Inr ex_headers"
  by code_simp

lemma ex_wanted: "wanted ex_target ex_headers" "\<not> from_target ex_target ex_headers"
  by code_simp+

lemma ex_packet_simps [simp]:
  "length (p_buf ex_packet) = MAX_PACKET_SIZE" "length ex_frame \<le> MAX_PACKET_SIZE"
  by (simp_all add: ex_packet_def ex_frame_def MAX_PACKET_SIZE_def)

text \<open>C16: eth_recv is defined on every frame that fits the buffer, whatever is in it. It accepts
  exactly the IPv4 TCP packets from or to the server's address and port, with the payload, key and
  direction their headers give, and otherwise changes nothing but the buffer and returns 1. The
  headers are those of the buffer: the received length is not looked at, so behind a short frame
  they are what the previous frame left.\<close>
theorem eth_recv_accepts:
  assumes "length (p_buf pkt) = MAX_PACKET_SIZE" and "length f \<le> MAX_PACKET_SIZE"
  shows "\<exists>h. let buf = f @ drop (length f) (p_buf pkt); pkt' = pkt\<lparr>p_buf := buf\<rparr> in
    headers_of buf = Inr h \<and>
    eth_recv g (Frame f) pkt = Inr (if wanted g h then (accepted g h pkt', 0) else (pkt', 1))"
proof -
  from assms have "length (f @ drop (length f) (p_buf pkt)) = MAX_PACKET_SIZE" by simp
  from headers_of_total [OF this] obtain h where h: "headers_of (f @ drop (length f) (p_buf pkt)) = Inr h"
    by blast
  with eth_recv_spec [OF assms h, of g] show ?thesis by (auto simp: Let_def)
qed

theorem eth_recv_accepts_witness:
  "eth_recv ex_target (Frame ex_frame) ex_packet =
    Inr (accepted ex_target ex_headers (ex_packet\<lparr>p_buf := ex_frame @ drop (length ex_frame) (p_buf ex_packet)\<rparr>), 0)"
  using eth_recv_accepts [of ex_packet ex_frame ex_target] by (simp add: Let_def ex_frame_headers ex_wanted)

text \<open>C38: a frame longer than the buffer has no defined outcome: eth_recv asks for 1518 bytes and the
  buffer has 1500, so the largest frame of an Ethernet of MTU 1500, 1514 bytes, is written past its end.\<close>
theorem eth_recv_overruns:
  assumes "length (p_buf pkt) = MAX_PACKET_SIZE" and "MAX_PACKET_SIZE < length f"
  shows "eth_recv g (Frame f) pkt = Inl OutOfBounds"
proof -
  from assms have "\<not> length (take TRY_RECV_LEN f) \<le> length (p_buf pkt)" by (simp add: net_consts)
  then show ?thesis by (simp add: eth_recv_def recv_via_dev_def Let_def)
qed

theorem eth_recv_overruns_witness:
  "eth_recv ex_target (Frame (replicate 1514 0)) ex_packet = Inl OutOfBounds"
  by (rule eth_recv_overruns) (simp_all add: MAX_PACKET_SIZE_def ex_packet_def)

lemma wrap_sub:
  assumes "n < 65536" and "a < 65536"
  shows "(int a - int n) mod 65536 = (if n \<le> a then int (a - n) else int (a + 65536 - n))"
proof (cases "n \<le> a")
  case False
  then have "(int a - int n) mod 65536 = (int a - int n + 65536) mod 65536" by simp
  also have "\<dots> = int a - int n + 65536" using False assms by (intro mod_pos_pos_trivial) auto
  finally show ?thesis using False assms by (simp add: of_nat_diff)
qed (use assms in \<open>simp add: of_nat_diff mod_pos_pos_trivial\<close>)


lemma eth_recv_fits:
  assumes "length (p_buf pkt) = MAX_PACKET_SIZE" and "eth_recv g (Frame f) pkt = Inr r"
  shows "length f \<le> MAX_PACKET_SIZE"
proof (rule ccontr)
  assume "\<not> length f \<le> MAX_PACKET_SIZE"
  then have "\<not> length (take TRY_RECV_LEN f) \<le> length (p_buf pkt)" using assms(1) by (simp add: net_consts)
  with assms(2) show False by (simp add: eth_recv_def recv_via_dev_def Let_def)
qed

lemma eth_recv_accepted:
  assumes "length (p_buf pkt) = MAX_PACKET_SIZE" and "eth_recv g (Frame f) pkt = Inr (pkt', 0)"
  shows "\<exists>h. headers_of (p_buf pkt') = Inr h \<and> wanted g h \<and> length (p_buf pkt') = MAX_PACKET_SIZE \<and>
    pkt' = accepted g h (pkt\<lparr>p_buf := p_buf pkt'\<rparr>)"
proof -
  note len = eth_recv_fits [OF assms]
  from assms(1) len have n: "length (f @ drop (length f) (p_buf pkt)) = MAX_PACKET_SIZE" by simp
  from headers_of_total [OF n] obtain h where h: "headers_of (f @ drop (length f) (p_buf pkt)) = Inr h" by blast
  from eth_recv_spec [OF assms(1) len h, of g] assms(2)
  have "wanted g h" "pkt' = accepted g h (pkt\<lparr>p_buf := f @ drop (length f) (p_buf pkt)\<rparr>)"
    by (auto simp: Let_def split: if_splits)
  with h n show ?thesis by (auto simp: accepted_def)
qed

lemma eth_recv_buffer:
  assumes "length (p_buf pkt) = MAX_PACKET_SIZE" and "eth_recv g r pkt = Inr (pkt', ret)"
  shows "length (p_buf pkt') = MAX_PACKET_SIZE"
proof (cases r)
  case RecvError
  with assms show ?thesis by (auto simp: eth_recv_def recv_via_dev_def Let_def)
next
  case (Frame f)
  have len: "length f \<le> MAX_PACKET_SIZE" using assms eth_recv_fits [of pkt g f] Frame by simp
  from assms(1) len have "length (f @ drop (length f) (p_buf pkt)) = MAX_PACKET_SIZE" by simp
  from headers_of_total [OF this] obtain h where h: "headers_of (f @ drop (length f) (p_buf pkt)) = Inr h" by blast
  from eth_recv_spec [OF assms(1) len h, of g] assms len Frame show ?thesis
    by (auto simp: Let_def accepted_def split: if_splits)
qed

lemma eth_recv_target:
  assumes "length (p_buf pkt) = MAX_PACKET_SIZE" and "eth_recv g (Frame f) pkt = Inr (pkt', 0)"
  shows "length (p_buf pkt') = MAX_PACKET_SIZE \<and> dip (norm_key (p_key pkt') (p_dir pkt')) = g_target_ip g \<and>
    ntohs (dport (norm_key (p_key pkt') (p_dir pkt'))) = g_target_port g"
  using eth_recv_accepted [OF assms] norm_key_target by (metis (no_types, lifting))

text \<open>the session key of an accepted packet has the server as its destination: with the direction
  eth_recv gives it, the key that sess_must_find_node looks up ends at the server's address and port.\<close>
theorem session_key_ends_at_server:
  assumes "length (p_buf pkt) = MAX_PACKET_SIZE" and "eth_recv g (Frame f) pkt = Inr (pkt', 0)"
  shows "dip (norm_key (p_key pkt') (p_dir pkt')) = g_target_ip g \<and>
    ntohs (dport (norm_key (p_key pkt') (p_dir pkt'))) = g_target_port g"
  using eth_recv_target [OF assms] by blast


theorem session_key_ends_at_server_witness:
  "dip (norm_key (h_key ex_headers) REQUEST) = g_target_ip ex_target \<and>
    ntohs (dport (norm_key (h_key ex_headers) REQUEST)) = g_target_port ex_target"
proof -
  let ?p = "ex_packet\<lparr>p_buf := ex_frame @ drop (length ex_frame) (p_buf ex_packet)\<rparr>"
  have "eth_recv ex_target (Frame ex_frame) ex_packet = Inr (accepted ex_target ex_headers ?p, 0)"
    using eth_recv_spec [OF ex_packet_simps ex_frame_headers, of ex_target] by (simp add: Let_def ex_wanted)
  from session_key_ends_at_server [OF ex_packet_simps(1) this] show ?thesis
    by (simp add: accepted_def ex_wanted)
qed

end
