(* ===== verification/ListHead.thy ===== *)
theory ListHead
  imports Prelude
begin

text \<open>
  The intrusive doubly linked list of \<^verbatim>\<open>src/src/list.h\<close>: the pointer operations on
  a store of \<^verbatim>\<open>struct list_head\<close>, the abstraction of a circular list to the list
  of its entries, and the law of every operation under that abstraction.
\<close>

section \<open>The store and the primitive accesses\<close>

record list_head =
  lh_next :: ptr
  lh_prev :: ptr

type_synonym lheap = "ptr \<rightharpoonup> list_head"

definition LIST_POISON1 :: ptr where "LIST_POISON1 = 0x00100100"
definition LIST_POISON2 :: ptr where "LIST_POISON2 = 0x00200200"

definition get_next :: "lheap \<Rightarrow> ptr \<Rightarrow> ptr res" where
  "get_next h p = (case h p of None \<Rightarrow> Inl (BadPtr p) | Some n \<Rightarrow> Inr (lh_next n))"

definition get_prev :: "lheap \<Rightarrow> ptr \<Rightarrow> ptr res" where
  "get_prev h p = (case h p of None \<Rightarrow> Inl (BadPtr p) | Some n \<Rightarrow> Inr (lh_prev n))"

definition set_next :: "lheap \<Rightarrow> ptr \<Rightarrow> ptr \<Rightarrow> lheap res" where
  "set_next h p v =
     (case h p of None \<Rightarrow> Inl (BadPtr p) | Some n \<Rightarrow> Inr (h(p \<mapsto> n\<lparr>lh_next := v\<rparr>)))"

definition set_prev :: "lheap \<Rightarrow> ptr \<Rightarrow> ptr \<Rightarrow> lheap res" where
  "set_prev h p v =
     (case h p of None \<Rightarrow> Inl (BadPtr p) | Some n \<Rightarrow> Inr (h(p \<mapsto> n\<lparr>lh_prev := v\<rparr>)))"

section \<open>The operations\<close>

definition INIT_LIST_HEAD :: "lheap \<Rightarrow> ptr \<Rightarrow> lheap res" where
  "INIT_LIST_HEAD h l =
     bindR (set_next h l l) (\<lambda>h.
     set_prev h l l)"

definition list_add_between :: "lheap \<Rightarrow> ptr \<Rightarrow> ptr \<Rightarrow> ptr \<Rightarrow> lheap res" where
  "list_add_between h a prv nxt =
     bindR (set_prev h nxt a) (\<lambda>h.
     bindR (set_next h a nxt) (\<lambda>h.
     bindR (set_prev h a prv) (\<lambda>h.
     set_next h prv a)))"

definition list_add :: "lheap \<Rightarrow> ptr \<Rightarrow> ptr \<Rightarrow> lheap res" where
  "list_add h a head =
     bindR (get_next h head) (\<lambda>n.
     list_add_between h a head n)"

definition list_add_tail :: "lheap \<Rightarrow> ptr \<Rightarrow> ptr \<Rightarrow> lheap res" where
  "list_add_tail h a head =
     bindR (get_prev h head) (\<lambda>p.
     list_add_between h a p head)"

definition list_del_between :: "lheap \<Rightarrow> ptr \<Rightarrow> ptr \<Rightarrow> lheap res" where
  "list_del_between h prv nxt =
     bindR (set_prev h nxt prv) (\<lambda>h.
     set_next h prv nxt)"

definition list_del_entry :: "lheap \<Rightarrow> ptr \<Rightarrow> lheap res" where
  "list_del_entry h entry =
     bindR (get_prev h entry) (\<lambda>p.
     bindR (get_next h entry) (\<lambda>n.
     list_del_between h p n))"

definition list_del :: "lheap \<Rightarrow> ptr \<Rightarrow> lheap res" where
  "list_del h entry =
     bindR (get_prev h entry) (\<lambda>p.
     bindR (get_next h entry) (\<lambda>n.
     bindR (list_del_between h p n) (\<lambda>h.
     bindR (set_next h entry LIST_POISON1) (\<lambda>h.
     set_prev h entry LIST_POISON2))))"

definition list_replace :: "lheap \<Rightarrow> ptr \<Rightarrow> ptr \<Rightarrow> lheap res" where
  "list_replace h old a =
     bindR (get_next h old) (\<lambda>on.
     bindR (set_next h a on) (\<lambda>h.
     bindR (get_next h a) (\<lambda>an.
     bindR (set_prev h an a) (\<lambda>h.
     bindR (get_prev h old) (\<lambda>op.
     bindR (set_prev h a op) (\<lambda>h.
     bindR (get_prev h a) (\<lambda>ap.
     set_next h ap a)))))))"

definition list_replace_init :: "lheap \<Rightarrow> ptr \<Rightarrow> ptr \<Rightarrow> lheap res" where
  "list_replace_init h old a =
     bindR (list_replace h old a) (\<lambda>h.
     INIT_LIST_HEAD h old)"

definition list_del_init :: "lheap \<Rightarrow> ptr \<Rightarrow> lheap res" where
  "list_del_init h entry =
     bindR (list_del_entry h entry) (\<lambda>h.
     INIT_LIST_HEAD h entry)"

definition list_move :: "lheap \<Rightarrow> ptr \<Rightarrow> ptr \<Rightarrow> lheap res" where
  "list_move h l head =
     bindR (list_del_entry h l) (\<lambda>h.
     list_add h l head)"

definition list_move_tail :: "lheap \<Rightarrow> ptr \<Rightarrow> ptr \<Rightarrow> lheap res" where
  "list_move_tail h l head =
     bindR (list_del_entry h l) (\<lambda>h.
     list_add_tail h l head)"

definition list_is_last :: "lheap \<Rightarrow> ptr \<Rightarrow> ptr \<Rightarrow> bool res" where
  "list_is_last h l head =
     bindR (get_next h l) (\<lambda>n.
     Inr (n = head))"

definition list_empty :: "lheap \<Rightarrow> ptr \<Rightarrow> bool res" where
  "list_empty h head =
     bindR (get_next h head) (\<lambda>n.
     Inr (n = head))"

definition list_empty_careful :: "lheap \<Rightarrow> ptr \<Rightarrow> bool res" where
  "list_empty_careful h head =
     bindR (get_next h head) (\<lambda>n.
     if n \<noteq> head then Inr False
     else bindR (get_prev h head) (\<lambda>p. Inr (n = p)))"

definition list_rotate_left :: "lheap \<Rightarrow> ptr \<Rightarrow> lheap res" where
  "list_rotate_left h head =
     bindR (list_empty h head) (\<lambda>e.
     if \<not> e
     then bindR (get_next h head) (\<lambda>first. list_move_tail h first head)
     else Inr h)"

definition list_is_singular :: "lheap \<Rightarrow> ptr \<Rightarrow> bool res" where
  "list_is_singular h head =
     bindR (list_empty h head) (\<lambda>e.
     if e then Inr False
     else bindR (get_next h head) (\<lambda>n.
          bindR (get_prev h head) (\<lambda>p.
          Inr (n = p))))"

definition list_cut_position_raw :: "lheap \<Rightarrow> ptr \<Rightarrow> ptr \<Rightarrow> ptr \<Rightarrow> lheap res" where
  "list_cut_position_raw h l head entry =
     bindR (get_next h entry) (\<lambda>new_first.
     bindR (get_next h head) (\<lambda>hn.
     bindR (set_next h l hn) (\<lambda>h.
     bindR (get_next h l) (\<lambda>ln.
     bindR (set_prev h ln l) (\<lambda>h.
     bindR (set_prev h l entry) (\<lambda>h.
     bindR (set_next h entry l) (\<lambda>h.
     bindR (set_next h head new_first) (\<lambda>h.
     set_prev h new_first head))))))))"

definition list_cut_position :: "lheap \<Rightarrow> ptr \<Rightarrow> ptr \<Rightarrow> ptr \<Rightarrow> lheap res" where
  "list_cut_position h l head entry =
     bindR (list_empty h head) (\<lambda>e.
     if e then Inr h
     else bindR (list_is_singular h head) (\<lambda>sg.
     bindR (get_next h head) (\<lambda>hn.
     if sg \<and> hn \<noteq> entry \<and> head \<noteq> entry then Inr h
     else if entry = head then INIT_LIST_HEAD h l
     else list_cut_position_raw h l head entry)))"

definition list_splice_between :: "lheap \<Rightarrow> ptr \<Rightarrow> ptr \<Rightarrow> ptr \<Rightarrow> lheap res" where
  "list_splice_between h l prv nxt =
     bindR (get_next h l) (\<lambda>first.
     bindR (get_prev h l) (\<lambda>last.
     bindR (set_prev h first prv) (\<lambda>h.
     bindR (set_next h prv first) (\<lambda>h.
     bindR (set_next h last nxt) (\<lambda>h.
     set_prev h nxt last)))))"

definition list_splice :: "lheap \<Rightarrow> ptr \<Rightarrow> ptr \<Rightarrow> lheap res" where
  "list_splice h l head =
     bindR (list_empty h l) (\<lambda>e.
     if \<not> e
     then bindR (get_next h head) (\<lambda>n. list_splice_between h l head n)
     else Inr h)"

definition list_splice_tail :: "lheap \<Rightarrow> ptr \<Rightarrow> ptr \<Rightarrow> lheap res" where
  "list_splice_tail h l head =
     bindR (list_empty h l) (\<lambda>e.
     if \<not> e
     then bindR (get_prev h head) (\<lambda>p. list_splice_between h l p head)
     else Inr h)"

definition list_splice_init :: "lheap \<Rightarrow> ptr \<Rightarrow> ptr \<Rightarrow> lheap res" where
  "list_splice_init h l head =
     bindR (list_empty h l) (\<lambda>e.
     if \<not> e
     then bindR (get_next h head) (\<lambda>n.
          bindR (list_splice_between h l head n) (\<lambda>h.
          INIT_LIST_HEAD h l))
     else Inr h)"

definition list_splice_tail_init :: "lheap \<Rightarrow> ptr \<Rightarrow> ptr \<Rightarrow> lheap res" where
  "list_splice_tail_init h l head =
     bindR (list_empty h l) (\<lambda>e.
     if \<not> e
     then bindR (get_prev h head) (\<lambda>p.
          bindR (list_splice_between h l p head) (\<lambda>h.
          INIT_LIST_HEAD h l))
     else Inr h)"

section \<open>The abstraction\<close>

definition nx :: "lheap \<Rightarrow> ptr \<Rightarrow> ptr option" where
  "nx h p = map_option lh_next (h p)"

definition pv :: "lheap \<Rightarrow> ptr \<Rightarrow> ptr option" where
  "pv h p = map_option lh_prev (h p)"

definition upd_next :: "lheap \<Rightarrow> ptr \<Rightarrow> ptr \<Rightarrow> lheap" where
  "upd_next h p v = h(p := map_option (\<lambda>n. n\<lparr>lh_next := v\<rparr>) (h p))"

definition upd_prev :: "lheap \<Rightarrow> ptr \<Rightarrow> ptr \<Rightarrow> lheap" where
  "upd_prev h p v = h(p := map_option (\<lambda>n. n\<lparr>lh_prev := v\<rparr>) (h p))"

named_theorems lheap_simps \<comment> \<open>the accesses, on a store whose cells are known\<close>

lemma get_next_eq [lheap_simps]: "nx h p = Some v \<Longrightarrow> get_next h p = Inr v"
  by (auto simp: nx_def get_next_def)

lemma get_prev_eq [lheap_simps]: "pv h p = Some v \<Longrightarrow> get_prev h p = Inr v"
  by (auto simp: pv_def get_prev_def)

lemma set_next_eq [lheap_simps]: "p \<in> dom h \<Longrightarrow> set_next h p v = Inr (upd_next h p v)"
  by (auto simp: set_next_def upd_next_def)

lemma set_prev_eq [lheap_simps]: "p \<in> dom h \<Longrightarrow> set_prev h p v = Inr (upd_prev h p v)"
  by (auto simp: set_prev_def upd_prev_def)

lemma dom_upd [lheap_simps]:
  "dom (upd_next h p v) = dom h" "dom (upd_prev h p v) = dom h"
  by (auto simp: upd_next_def upd_prev_def dom_def)

lemma nx_upd [lheap_simps]:
  "nx (upd_next h p v) q = (if q = p \<and> p \<in> dom h then Some v else nx h q)"
  "nx (upd_prev h p v) q = nx h q"
  by (auto simp: nx_def upd_next_def upd_prev_def option.map_comp comp_def dom_def)

lemma pv_upd [lheap_simps]:
  "pv (upd_prev h p v) q = (if q = p \<and> p \<in> dom h then Some v else pv h q)"
  "pv (upd_next h p v) q = pv h q"
  by (auto simp: pv_def upd_next_def upd_prev_def option.map_comp comp_def dom_def)

lemma upd_other [lheap_simps]:
  "q \<noteq> p \<Longrightarrow> upd_next h p v q = h q" "q \<noteq> p \<Longrightarrow> upd_prev h p v q = h q"
  by (auto simp: upd_next_def upd_prev_def)

lemma nx_dom: "nx h p = Some v \<Longrightarrow> p \<in> dom h"
  by (auto simp: nx_def)

lemma pv_dom: "pv h p = Some v \<Longrightarrow> p \<in> dom h"
  by (auto simp: pv_def)

lemma nx_cong: "h' p = h p \<Longrightarrow> nx h' p = nx h p" "h' p = h p \<Longrightarrow> pv h' p = pv h p"
  by (simp_all add: nx_def pv_def)

text \<open>\<open>lnk h x y\<close>: \<open>y\<close> follows \<open>x\<close>, and both cells say so.\<close>

definition lnk :: "lheap \<Rightarrow> ptr \<Rightarrow> ptr \<Rightarrow> bool" where
  "lnk h x y \<longleftrightarrow> nx h x = Some y \<and> pv h y = Some x"

fun links :: "lheap \<Rightarrow> ptr list \<Rightarrow> bool" where
  "links h (x # y # zs) \<longleftrightarrow> lnk h x y \<and> links h (y # zs)"
| "links h _ \<longleftrightarrow> True"

text \<open>
  \<open>dlist h l xs\<close>: the circular list with head \<open>l\<close> holds the entries \<open>xs\<close>, in
  this order, each once.
\<close>

definition dlist :: "lheap \<Rightarrow> ptr \<Rightarrow> ptr list \<Rightarrow> bool" where
  "dlist h l xs \<longleftrightarrow> distinct (l # xs) \<and> links h (l # xs @ [l])"

lemma links_append:
  "A \<noteq> [] \<Longrightarrow> B \<noteq> [] \<Longrightarrow>
   links h (A @ B) \<longleftrightarrow> links h A \<and> lnk h (last A) (hd B) \<and> links h B"
  by (induction h A rule: links.induct) (auto simp: neq_Nil_conv)

lemma links_cong:
  "(\<And>x. x \<in> set (butlast l) \<Longrightarrow> nx h' x = nx h x) \<Longrightarrow>
   (\<And>x. x \<in> set (tl l) \<Longrightarrow> pv h' x = pv h x) \<Longrightarrow> links h' l \<longleftrightarrow> links h l"
  by (induction h l rule: links.induct) (auto simp: lnk_def)

lemma links_dom: "links h l \<Longrightarrow> Suc 0 < length l \<Longrightarrow> set l \<subseteq> dom h"
proof (induction h l rule: links.induct)
  case (1 h x y zs)
  then show ?case by (cases zs) (auto simp: lnk_def dest: nx_dom pv_dom)
qed auto

lemma dlist_dom: "dlist h l xs \<Longrightarrow> insert l (set xs) \<subseteq> dom h"
  using links_dom [of h "l # xs @ [l]"] by (simp add: dlist_def)

lemma dlist_distinct: "dlist h l xs \<Longrightarrow> distinct (l # xs)"
  by (simp add: dlist_def)

lemma dlist_frame:
  assumes "dlist h l xs" and "\<And>q. q \<in> insert l (set xs) \<Longrightarrow> h' q = h q"
  shows "dlist h' l xs"
proof -
  have "links h' (l # xs @ [l]) \<longleftrightarrow> links h (l # xs @ [l])"
    using assms(2) by (intro links_cong) (auto simp: butlast_append intro!: nx_cong)
  with assms(1) show ?thesis by (simp add: dlist_def)
qed

lemma dlist_functional: "dlist h l xs \<Longrightarrow> dlist h l ys \<Longrightarrow> xs = ys"
proof -
  have "links h (x # xs @ [l]) \<Longrightarrow> links h (x # ys @ [l]) \<Longrightarrow> l \<notin> set xs \<Longrightarrow> l \<notin> set ys \<Longrightarrow> xs = ys"
    for x
  proof (induction xs arbitrary: x ys)
    case Nil
    then show ?case by (cases ys) (auto simp: lnk_def)
  next
    case (Cons a xs)
    then show ?case by (cases ys) (auto simp: lnk_def)
  qed
  then show "dlist h l xs \<Longrightarrow> dlist h l ys \<Longrightarrow> xs = ys"
    by (auto simp: dlist_def)
qed

text \<open>
  The point between \<open>xs\<close> and \<open>ys\<close> in the circular list \<open>xs @ ms @ ys\<close>: its left
  neighbour \<open>p\<close> (the last of \<open>xs\<close>, or the head) and its right neighbour \<open>n\<close> (the
  first of \<open>ys\<close>, or the head).
\<close>

definition left_of :: "ptr \<Rightarrow> ptr list \<Rightarrow> ptr" where
  "left_of l xs = last (l # xs)"

definition right_of :: "ptr \<Rightarrow> ptr list \<Rightarrow> ptr" where
  "right_of l ys = hd (ys @ [l])"

lemma left_of_simps [simp]: "left_of l [] = l" "left_of l (xs @ [x]) = x"
  "left_of l [x] = x" "left_of l (x # y # zs) = left_of l (y # zs)"
  by (auto simp: left_of_def)

lemma right_of_simps [simp]: "right_of l [] = l" "right_of l (y # ys) = y"
  by (auto simp: right_of_def)

lemma left_of_in: "left_of l xs \<in> insert l (set xs)"
  using last_in_set [of "l # xs"] by (simp add: left_of_def)

lemma right_of_in: "right_of l ys \<in> insert l (set ys)"
  by (cases ys) auto

lemma dlist_split:
  "dlist h l (xs @ ms @ ys) \<longleftrightarrow>
     distinct (l # xs @ ms @ ys) \<and> links h (l # xs)
     \<and> links h (left_of l xs # ms @ [right_of l ys]) \<and> links h (ys @ [l])"
proof -
  have 1: "links h (l # xs @ ms @ ys @ [l]) \<longleftrightarrow>
      links h (l # xs) \<and> lnk h (left_of l xs) (hd (ms @ ys @ [l])) \<and> links h (ms @ ys @ [l])"
    using links_append [of "l # xs" "ms @ ys @ [l]" h] by (simp add: left_of_def)
  show ?thesis
  proof (cases "ms = []")
    case True
    with 1 show ?thesis by (auto simp: dlist_def right_of_def)
  next
    case False
    then have "links h (ms @ ys @ [l]) \<longleftrightarrow>
        links h ms \<and> lnk h (last ms) (right_of l ys) \<and> links h (ys @ [l])"
      using links_append [of ms "ys @ [l]" h] by (simp add: right_of_def)
    moreover have "links h (left_of l xs # ms @ [right_of l ys]) \<longleftrightarrow>
        lnk h (left_of l xs) (hd ms) \<and> links h ms \<and> lnk h (last ms) (right_of l ys)"
      using False links_append [of "[left_of l xs]" "ms @ [right_of l ys]" h]
        links_append [of ms "[right_of l ys]" h] by simp
    ultimately show ?thesis using 1 False by (auto simp: dlist_def)
  qed
qed

text \<open>
  Surgery: a new middle \<open>ns\<close> in place of \<open>ms\<close>. What has to be checked is the new
  middle with its two neighbours, and that nothing else of the list was written.
\<close>

lemma dlist_surgery:
  assumes d: "dlist h l (xs @ ms @ ys)"
    and dn: "distinct (l # xs @ ns @ ys)"
    and mid: "links h' (left_of l xs # ns @ [right_of l ys])"
    and nx: "\<And>q. q \<in> insert l (set xs \<union> set ys) \<Longrightarrow> q \<noteq> left_of l xs \<Longrightarrow> nx h' q = nx h q"
    and pv: "\<And>q. q \<in> insert l (set xs \<union> set ys) \<Longrightarrow> q \<noteq> right_of l ys \<Longrightarrow> pv h' q = pv h q"
  shows "dlist h' l (xs @ ns @ ys)"
proof -
  from d have old: "links h (l # xs)" "links h (ys @ [l])" "distinct (l # xs @ ys)"
    by (auto simp: dlist_split)
  have "q \<noteq> left_of l xs \<and> q \<in> insert l (set xs)" if "q \<in> set (butlast (l # xs))" for q
    using that old(3) distinct_butlast [of "l # xs"]
    by (metis (no_types, lifting) append_butlast_last_id distinct.simps(2) distinct_append
        in_set_butlastD left_of_def list.discI list.set(2) not_distinct_conv_prefix set_append Un_iff)
  moreover have "q \<noteq> right_of l ys" if "q \<in> set xs" for q
    using that old(3) right_of_in [of l ys] by auto
  ultimately have "links h' (l # xs)"
    using old(1) nx pv by (subst links_cong [of _ h' h]) auto
  moreover have "q \<noteq> left_of l xs" if "q \<in> set ys" for q
    using that old(3) left_of_in [of l xs] by auto
  then have "links h' (ys @ [l])"
    using old(2,3) nx pv by (subst links_cong [of _ h' h]) (cases ys; auto simp: butlast_append)+
  ultimately show ?thesis using dn mid by (simp add: dlist_split)
qed

section \<open>The laws of the operations\<close>

text \<open>
  The contract of an operation on the list headed by \<open>l\<close>: it is defined, it allocates
  and frees nothing, it writes inside the footprint \<open>F\<close> only, and it leaves the list
  \<open>xs\<close> behind.
\<close>

definition lists_to :: "lheap \<Rightarrow> lheap res \<Rightarrow> ptr set \<Rightarrow> ptr \<Rightarrow> ptr list \<Rightarrow> bool" where
  "lists_to h r F l xs \<longleftrightarrow>
     (\<exists>h'. r = Inr h' \<and> dom h' = dom h \<and> (\<forall>q. q \<notin> F \<longrightarrow> h' q = h q) \<and> dlist h' l xs)"

lemma lists_toI:
  "r = Inr h' \<Longrightarrow> dom h' = dom h \<Longrightarrow> (\<And>q. q \<notin> F \<Longrightarrow> h' q = h q) \<Longrightarrow> dlist h' l xs \<Longrightarrow>
   lists_to h r F l xs"
  by (auto simp: lists_to_def)

lemma lists_toE:
  assumes "lists_to h r F l xs"
  obtains h' where "r = Inr h'" "dom h' = dom h" "\<forall>q. q \<notin> F \<longrightarrow> h' q = h q" "dlist h' l xs"
  using assms by (auto simp: lists_to_def)

lemma lists_to_other:
  assumes "lists_to h r F l xs" and "dlist h m ys" and "F \<inter> insert m (set ys) = {}"
  obtains h' where "r = Inr h'" "dom h' = dom h" "dlist h' l xs" "dlist h' m ys"
    "\<forall>q. q \<notin> F \<longrightarrow> h' q = h q"
proof -
  from assms(1) obtain h' where h': "r = Inr h'" "dom h' = dom h" "\<forall>q. q \<notin> F \<longrightarrow> h' q = h q"
    "dlist h' l xs" by (rule lists_toE)
  moreover have "dlist h' m ys"
    using assms(2) by (rule dlist_frame) (use h'(3) assms(3) in blast)
  ultimately show thesis by (intro that)
qed

lemma dlist_neighbours:
  assumes "dlist h l (xs @ ys)"
  shows "nx h (left_of l xs) = Some (right_of l ys)" "pv h (right_of l ys) = Some (left_of l xs)"
    "left_of l xs \<in> dom h" "right_of l ys \<in> dom h"
  using assms dlist_split [of h l xs "[]" ys] by (auto simp: lnk_def dest: nx_dom pv_dom)

lemma dlist_entry_neighbours:
  assumes "dlist h l (xs @ e # ys)"
  shows "nx h e = Some (right_of l ys)" "pv h e = Some (left_of l xs)" "e \<in> dom h"
    "nx h (left_of l xs) = Some e" "pv h (right_of l ys) = Some e"
    "left_of l xs \<in> dom h" "right_of l ys \<in> dom h"
  using assms dlist_split [of h l xs "[e]" ys] by (auto simp: lnk_def dest: nx_dom pv_dom)

lemma dlist_head_next: "dlist h l xs \<Longrightarrow> nx h l = Some (right_of l xs)"
  using dlist_neighbours(1) [of h l "[]" xs] by simp

lemma dlist_head_prev: "dlist h l xs \<Longrightarrow> pv h l = Some (left_of l xs)"
  using dlist_neighbours(2) [of h l xs "[]"] by simp

lemma INIT_LIST_HEAD_law:
  assumes "l \<in> dom h"
  shows "lists_to h (INIT_LIST_HEAD h l) {l} l []"
  using assms by (intro lists_toI [of _ "upd_prev (upd_next h l l) l l"])
    (auto simp: INIT_LIST_HEAD_def lheap_simps dlist_def lnk_def)

lemma list_add_between_law:
  assumes d: "dlist h l (xs @ ys)" and a: "a \<in> dom h" "a \<notin> insert l (set (xs @ ys))"
  shows "lists_to h (list_add_between h a (left_of l xs) (right_of l ys))
    {a, left_of l xs, right_of l ys} l (xs @ a # ys)"
proof -
  let ?p = "left_of l xs" and ?n = "right_of l ys"
  let ?h = "upd_next (upd_prev (upd_next (upd_prev h ?n a) a ?n) a ?p) ?p a"
  have ne: "a \<noteq> ?p" "a \<noteq> ?n" using a(2) left_of_in [of l xs] right_of_in [of l ys] by auto
  note nb = dlist_neighbours [OF d]
  show ?thesis
  proof (rule lists_toI)
    show "list_add_between h a ?p ?n = Inr ?h"
      using a(1) nb by (simp add: list_add_between_def lheap_simps)
    have "dlist h l (xs @ [] @ ys)" using d by simp
    then have "dlist ?h l (xs @ [a] @ ys)"
      by (rule dlist_surgery) (use d a ne nb in \<open>auto simp: lheap_simps lnk_def dlist_def\<close>)
    then show "dlist ?h l (xs @ a # ys)" by simp
  qed (auto simp: lheap_simps)
qed

lemma list_add_law:
  assumes "dlist h l xs" and "a \<in> dom h" and "a \<notin> insert l (set xs)"
  shows "lists_to h (list_add h a l) {a, l, right_of l xs} l (a # xs)"
  using assms list_add_between_law [of h l "[]" xs a]
  by (simp add: list_add_def dlist_head_next get_next_eq)

lemma list_add_tail_law:
  assumes "dlist h l xs" and "a \<in> dom h" and "a \<notin> insert l (set xs)"
  shows "lists_to h (list_add_tail h a l) {a, l, left_of l xs} l (xs @ [a])"
  using assms list_add_between_law [of h l xs "[]" a]
  by (simp add: list_add_tail_def dlist_head_prev get_prev_eq insert_commute)

lemma list_del_between_law:
  assumes d: "dlist h l (xs @ ms @ ys)"
  shows "lists_to h (list_del_between h (left_of l xs) (right_of l ys))
    {left_of l xs, right_of l ys} l (xs @ ys)"
proof -
  let ?p = "left_of l xs" and ?n = "right_of l ys"
  let ?h = "upd_next (upd_prev h ?n ?p) ?p ?n"
  have "?p \<in> dom h" "?n \<in> dom h"
    using dlist_dom [OF d] left_of_in [of l xs] right_of_in [of l ys] by auto
  note dom = this
  show ?thesis
  proof (rule lists_toI)
    show "list_del_between h ?p ?n = Inr ?h"
      using dom by (simp add: list_del_between_def lheap_simps)
    have "dlist ?h l (xs @ [] @ ys)"
      using d by (rule dlist_surgery) (use d dom in \<open>auto simp: lheap_simps lnk_def dlist_def\<close>)
    then show "dlist ?h l (xs @ ys)" by simp
  qed (auto simp: lheap_simps)
qed

lemma list_del_entry_law:
  assumes d: "dlist h l (xs @ e # ys)"
  shows "lists_to h (list_del_entry h e) {left_of l xs, right_of l ys} l (xs @ ys)"
  using list_del_between_law [of h l xs "[e]" ys] d dlist_entry_neighbours [OF d]
  by (simp add: list_del_entry_def lheap_simps)

text \<open>
  A deletion leaves the entry itself allocated and out of the list: writing its cell
  afterwards (poison, a new link) does not disturb the list.
\<close>

lemma lists_to_bind_entry:
  assumes 1: "lists_to h r F l xs" and e: "e \<in> dom h" "e \<notin> insert l (set xs)"
    and 2: "\<And>h'. dom h' = dom h \<Longrightarrow> \<forall>q. q \<notin> F \<longrightarrow> h' q = h q \<Longrightarrow> dlist h' l xs \<Longrightarrow>
      \<exists>h''. f h' = Inr h'' \<and> dom h'' = dom h' \<and> (\<forall>q. q \<noteq> e \<longrightarrow> h'' q = h' q)"
  shows "lists_to h (bindR r f) (insert e F) l xs"
proof -
  from 1 obtain h' where h': "r = Inr h'" "dom h' = dom h" "\<forall>q. q \<notin> F \<longrightarrow> h' q = h q"
    "dlist h' l xs" by (rule lists_toE)
  from 2 [OF h'(2-4)] obtain h'' where h'': "f h' = Inr h''" "dom h'' = dom h'"
    "\<forall>q. q \<noteq> e \<longrightarrow> h'' q = h' q" by blast
  show ?thesis
  proof (rule lists_toI)
    show "dlist h'' l xs" using h'(4) by (rule dlist_frame) (use e h'' in auto)
  qed (use h' h'' in auto)
qed

lemma list_del_law:
  assumes d: "dlist h l (xs @ e # ys)"
  shows "lists_to h (list_del h e) {e, left_of l xs, right_of l ys} l (xs @ ys)"
proof -
  have "list_del h e = bindR (list_del_entry h e)
      (\<lambda>h. bindR (set_next h e LIST_POISON1) (\<lambda>h. set_prev h e LIST_POISON2))"
    using dlist_entry_neighbours [OF d] by (simp add: list_del_def list_del_entry_def lheap_simps)
  moreover have "lists_to h \<dots> {e, left_of l xs, right_of l ys} l (xs @ ys)"
    by (rule lists_to_bind_entry [OF list_del_entry_law [OF d]])
      (use d dlist_dom [OF d] in \<open>auto simp: lheap_simps dlist_def\<close>)
  ultimately show ?thesis by simp
qed

lemma list_del_init_law:
  assumes d: "dlist h l (xs @ e # ys)"
  shows "lists_to h (list_del_init h e) {e, left_of l xs, right_of l ys} l (xs @ ys)"
    and "lists_to h (list_del_init h e) {e, left_of l xs, right_of l ys} e []"
proof -
  let ?F = "{left_of l xs, right_of l ys}"
  have e: "e \<in> dom h" "e \<notin> insert l (set (xs @ ys))"
    using d dlist_dom [OF d] by (auto simp: dlist_def)
  have init: "lists_to h' (INIT_LIST_HEAD h' e) {e} e []" if "dom h' = dom h" for h'
    using that e(1) by (intro INIT_LIST_HEAD_law) auto
  have init': "\<exists>h''. INIT_LIST_HEAD h' e = Inr h'' \<and> dom h'' = dom h' \<and> (\<forall>q. q \<noteq> e \<longrightarrow> h'' q = h' q)"
    if "dom h' = dom h" for h'
    using init [OF that] by (auto simp: lists_to_def)
  show "lists_to h (list_del_init h e) {e, left_of l xs, right_of l ys} l (xs @ ys)"
    unfolding list_del_init_def
    by (rule lists_to_bind_entry [OF list_del_entry_law [OF d] e init'])
  from list_del_entry_law [OF d] obtain h' where h': "list_del_entry h e = Inr h'"
    "dom h' = dom h" "\<forall>q. q \<notin> ?F \<longrightarrow> h' q = h q" by (rule lists_toE)
  with init [OF h'(2)] show "lists_to h (list_del_init h e) {e, left_of l xs, right_of l ys} e []"
    by (auto simp: list_del_init_def lists_to_def)
qed

lemma lists_to_bind:
  assumes "lists_to h r F m xs" 
    and "\<And>h'. dom h' = dom h \<Longrightarrow> dlist h' m xs \<Longrightarrow> lists_to h' (f h') G l ys"
  shows "lists_to h (bindR r f) (F \<union> G) l ys"
proof -
  from assms(1) obtain h' where h': "r = Inr h'" "dom h' = dom h" "\<forall>q. q \<notin> F \<longrightarrow> h' q = h q"
    "dlist h' m xs" by (rule lists_toE)
  from assms(2) [OF h'(2,4)] obtain h'' where h'': "f h' = Inr h''" "dom h'' = dom h'"
    "\<forall>q. q \<notin> G \<longrightarrow> h'' q = h' q" "dlist h'' l ys" by (rule lists_toE)
  show ?thesis by (rule lists_toI [OF _ _ _ h''(4)]) (use h' h'' in auto)
qed

lemma lists_to_mono: "lists_to h r F l xs \<Longrightarrow> F \<subseteq> G \<Longrightarrow> lists_to h r G l xs"
  unfolding lists_to_def by blast

lemma neighbours_in: "insert (left_of l xs) {right_of l ys} \<subseteq> insert l (set xs \<union> set ys)"
  using left_of_in [of l xs] right_of_in [of l ys] by auto

lemma list_move_law:
  assumes d: "dlist h l (xs @ e # ys)"
  shows "lists_to h (list_move h e l) (insert e (insert l (set xs \<union> set ys))) l (e # xs @ ys)"
proof -
  have e: "e \<in> dom h" "e \<notin> insert l (set (xs @ ys))"
    using d dlist_dom [OF d] by (auto simp: dlist_def)
  have "lists_to h (list_move h e l)
      ({left_of l xs, right_of l ys} \<union> {e, l, right_of l (xs @ ys)}) l (e # xs @ ys)"
    unfolding list_move_def by (rule lists_to_bind [OF list_del_entry_law [OF d]])
      (rule list_add_law; use e in simp)
  then show ?thesis
    by (rule lists_to_mono) (use neighbours_in [of l xs ys] right_of_in [of l "xs @ ys"] in auto)
qed

lemma list_move_tail_law:
  assumes d: "dlist h l (xs @ e # ys)"
  shows "lists_to h (list_move_tail h e l) (insert e (insert l (set xs \<union> set ys))) l (xs @ ys @ [e])"
proof -
  have e: "e \<in> dom h" "e \<notin> insert l (set (xs @ ys))"
    using d dlist_dom [OF d] by (auto simp: dlist_def)
  have "lists_to h (list_move_tail h e l)
      ({left_of l xs, right_of l ys} \<union> {e, l, left_of l (xs @ ys)}) l ((xs @ ys) @ [e])"
    unfolding list_move_tail_def by (rule lists_to_bind [OF list_del_entry_law [OF d]])
      (rule list_add_tail_law; use e in simp)
  then show ?thesis
    by (subst append_assoc [symmetric], elim lists_to_mono)
      (use neighbours_in [of l xs ys] left_of_in [of l "xs @ ys"] in auto)
qed

lemma right_of_eq_head: "l \<notin> set ys \<Longrightarrow> right_of l ys = l \<longleftrightarrow> ys = []"
  by (cases ys) auto

lemma left_of_eq_head: "l \<notin> set ys \<Longrightarrow> left_of l ys = l \<longleftrightarrow> ys = []"
  using last_in_set [of ys] by (auto simp: left_of_def)

lemma list_empty_law: "dlist h l xs \<Longrightarrow> list_empty h l = Inr (xs = [])"
  by (simp add: list_empty_def dlist_head_next lheap_simps dlist_distinct [simplified] right_of_eq_head
      dlist_distinct [THEN distinct.simps(2) [THEN iffD1]])

lemma list_empty_careful_law: "dlist h l xs \<Longrightarrow> list_empty_careful h l = Inr (xs = [])"
  using dlist_distinct [of h l xs]
  by (auto simp: list_empty_careful_def dlist_head_next dlist_head_prev lheap_simps right_of_eq_head)

lemma right_eq_left: 
  "distinct (l # xs) \<Longrightarrow> right_of l xs = left_of l xs \<longleftrightarrow> length xs \<le> 1"
  by (cases xs) (auto simp: left_of_def)

lemma list_is_singular_law: "dlist h l xs \<Longrightarrow> list_is_singular h l = Inr (length xs = 1)"
  using dlist_distinct [of h l xs] right_eq_left [of l xs]
  by (cases xs) (auto simp: list_is_singular_def list_empty_law dlist_head_next dlist_head_prev lheap_simps)

lemma list_is_last_law:
  assumes "dlist h l (xs @ e # ys)"
  shows "list_is_last h e l = Inr (ys = [])"
  using assms dlist_entry_neighbours [OF assms] dlist_distinct [OF assms]
  by (auto simp: list_is_last_def lheap_simps right_of_eq_head)

lemma list_rotate_left_law:
  assumes d: "dlist h l xs"
  shows "lists_to h (list_rotate_left h l) (insert l (set xs)) l (rotate1 xs)"
proof (cases xs)
  case Nil
  with d show ?thesis by (simp add: list_rotate_left_def list_empty_law lists_to_def)
next
  case (Cons y ys)
  with d list_move_tail_law [of h l "[]" y ys] show ?thesis
    by (simp add: list_rotate_left_def list_empty_law dlist_head_next lheap_simps insert_commute)
qed

lemma list_replace_law:
  assumes d: "dlist h l (xs @ old # ys)" and a: "a \<in> dom h" "a \<notin> insert l (set (xs @ old # ys))"
  shows "lists_to h (list_replace h old a) {a, left_of l xs, right_of l ys} l (xs @ a # ys)"
proof -
  let ?p = "left_of l xs" and ?n = "right_of l ys"
  let ?h = "upd_next (upd_prev (upd_prev (upd_next h a ?n) ?n a) a ?p) ?p a"
  have ne: "a \<noteq> ?p" "a \<noteq> ?n" "old \<noteq> a" "old \<noteq> ?p" "old \<noteq> ?n"
    using a(2) d left_of_in [of l xs] right_of_in [of l ys] by (auto simp: dlist_def)
  note nb = dlist_entry_neighbours [OF d]
  show ?thesis
  proof (rule lists_toI)
    show "list_replace h old a = Inr ?h"
      using a(1) nb ne by (simp add: list_replace_def lheap_simps)
    have "dlist h l (xs @ [old] @ ys)" using d by simp
    then have "dlist ?h l (xs @ [a] @ ys)"
      by (rule dlist_surgery) (use d a ne nb in \<open>auto simp: lheap_simps lnk_def dlist_def\<close>)
    then show "dlist ?h l (xs @ a # ys)" by simp
  qed (auto simp: lheap_simps)
qed

lemma lists_to_INIT_other:
  assumes "lists_to h r F l xs" and "m \<in> dom h" and "m \<notin> insert l (set xs)"
  shows "lists_to h (bindR r (\<lambda>h. INIT_LIST_HEAD h m)) (insert m F) l xs"
    and "lists_to h (bindR r (\<lambda>h. INIT_LIST_HEAD h m)) (insert m F) m []"
proof -
  have init: "lists_to h' (INIT_LIST_HEAD h' m) {m} m []" if "dom h' = dom h" for h'
    using that assms(2) by (intro INIT_LIST_HEAD_law) simp
  then have init': "\<exists>h''. INIT_LIST_HEAD h' m = Inr h'' \<and> dom h'' = dom h' \<and> (\<forall>q. q \<noteq> m \<longrightarrow> h'' q = h' q)"
    if "dom h' = dom h" for h'
    using init [OF that] by (auto simp: lists_to_def)
  show "lists_to h (bindR r (\<lambda>h. INIT_LIST_HEAD h m)) (insert m F) l xs"
    by (rule lists_to_bind_entry [OF assms init'])
  show "lists_to h (bindR r (\<lambda>h. INIT_LIST_HEAD h m)) (insert m F) m []"
    using lists_to_bind [OF assms(1) init] by (simp add: insert_commute)
qed

lemma list_replace_init_law:
  assumes "dlist h l (xs @ old # ys)" and "a \<in> dom h" "a \<notin> insert l (set (xs @ old # ys))"
  shows "lists_to h (list_replace_init h old a) {old, a, left_of l xs, right_of l ys} l (xs @ a # ys)"
    and "lists_to h (list_replace_init h old a) {old, a, left_of l xs, right_of l ys} old []"
  unfolding list_replace_init_def
  using lists_to_INIT_other [OF list_replace_law [OF assms], of old] assms dlist_dom [OF assms(1)]
  by (auto simp: dlist_def)

text \<open>
  Splicing moves the entries of the list headed by \<open>m\<close> into the point between
  \<open>xs\<close> and \<open>ys\<close> of the list headed by \<open>l\<close>. The head \<open>m\<close> still points at
  them: only the \<^verbatim>\<open>_init\<close> variants make it an empty list again.
\<close>

lemma links_inner: "links h (x # zs @ [y]) \<Longrightarrow> links h zs"
  by (cases zs) (use links_append [of zs "[y]" h] in auto)

lemma list_splice_between_law:
  assumes d: "dlist h l (xs @ ys)" and m: "dlist h m zs" "zs \<noteq> []"
    and disj: "set (l # xs @ ys) \<inter> set (m # zs) = {}"
  shows "lists_to h (list_splice_between h m (left_of l xs) (right_of l ys))
    {hd zs, last zs, left_of l xs, right_of l ys} l (xs @ zs @ ys)"
proof -
  let ?p = "left_of l xs" and ?n = "right_of l ys" and ?f = "hd zs" and ?e = "last zs"
  define h' where "h' = upd_prev (upd_next (upd_next (upd_prev h ?f ?p) ?p ?f) ?e ?n) ?n ?e"
  have zs: "?f \<in> set zs" "?e \<in> set zs" using m(2) by auto
  have pn: "?p \<in> insert l (set xs)" "?n \<in> insert l (set ys)"
    by (rule left_of_in, rule right_of_in)
  have mz: "nx h m = Some ?f" "pv h m = Some ?e" "?f \<in> dom h" "?e \<in> dom h"
    using m(2) zs dlist_head_next [OF m(1)] dlist_head_prev [OF m(1)] dlist_dom [OF m(1)]
    by (simp_all add: right_of_def left_of_def subset_iff)
  note nb = dlist_neighbours [OF d]
  have run: "list_splice_between h m ?p ?n = Inr h'" "dom h' = dom h"
    using mz nb by (simp_all add: list_splice_between_def h'_def lheap_simps)
  have frame: "q \<notin> {?f, ?e, ?p, ?n} \<Longrightarrow> h' q = h q" for q by (simp add: h'_def lheap_simps)
  have nx': "nx h' q = (if q = ?e then Some ?n else if q = ?p then Some ?f else nx h q)"
    and pv': "pv h' q = (if q = ?n then Some ?e else if q = ?f then Some ?p else pv h q)"
    for q using mz nb by (simp_all add: h'_def lheap_simps)
  have out: "q \<noteq> ?f" "q \<noteq> ?e" if "q \<in> insert l (set xs \<union> set ys)" for q
    using that zs disj by auto
  have inz: "q \<noteq> ?p" "q \<noteq> ?n" if "q \<in> set zs" for q
    using that pn disj by auto
  have dz: "distinct zs" "links h zs"
    using m(1) links_inner [of h m zs m] by (auto simp: dlist_def)
  have "links h' zs \<longleftrightarrow> links h zs"
  proof (rule links_cong)
    fix x
    show "x \<in> set (butlast zs) \<Longrightarrow> nx h' x = nx h x"
      using in_butlast_distinct [OF _ dz(1), of x] inz by (simp add: nx')
    show "x \<in> set (tl zs) \<Longrightarrow> pv h' x = pv h x"
      using dz(1) m(2) inz by (cases zs) (auto simp: pv')
  qed
  then have "links h' (?p # zs @ [?n])"
    using links_append [of "[?p]" "zs @ [?n]" h'] links_append [of zs "[?n]" h'] m(2) dz(2) inz(1) [OF zs(2)] inz(2) [OF zs(1)]
    by (auto simp: lnk_def nx' pv')
  moreover have "dlist h l (xs @ [] @ ys)" using d by simp
  moreover have "distinct (l # xs @ zs @ ys)"
    using dlist_distinct [OF d] dz(1) disj by auto
  ultimately have "dlist h' l (xs @ zs @ ys)"
    by (intro dlist_surgery [of h l xs "[]" ys zs h']) (use out in \<open>simp_all add: nx' pv'\<close>)
  then show ?thesis using lists_toI [OF run frame] by blast
qed

lemma list_splice_law:
  assumes "dlist h l ys" and "dlist h m zs" and "set (l # ys) \<inter> set (m # zs) = {}"
  shows "lists_to h (list_splice h m l) (insert l (set ys \<union> set zs)) l (zs @ ys)"
proof (cases "zs = []")
  case True
  with assms show ?thesis by (auto simp: list_splice_def list_empty_law lists_to_def)
next
  case False
  have "lists_to h (list_splice h m l) {hd zs, last zs, l, right_of l ys} l (zs @ ys)"
    using list_splice_between_law [of h l "[]" ys m zs] assms False
    by (simp add: list_splice_def list_empty_law dlist_head_next lheap_simps)
  then show ?thesis
    by (rule lists_to_mono) (use False right_of_in [of l ys] in auto)
qed

lemma list_splice_tail_law:
  assumes "dlist h l ys" and "dlist h m zs" and "set (l # ys) \<inter> set (m # zs) = {}"
  shows "lists_to h (list_splice_tail h m l) (insert l (set ys \<union> set zs)) l (ys @ zs)"
proof (cases "zs = []")
  case True
  with assms show ?thesis by (auto simp: list_splice_tail_def list_empty_law lists_to_def)
next
  case False
  have "lists_to h (list_splice_tail h m l) {hd zs, last zs, left_of l ys, l} l (ys @ zs)"
    using list_splice_between_law [of h l ys "[]" m zs] assms False
    by (simp add: list_splice_tail_def list_empty_law dlist_head_prev lheap_simps)
  then show ?thesis
    by (rule lists_to_mono) (use False left_of_in [of l ys] in auto)
qed

lemma list_splice_init_eq:
  "dlist h m zs \<Longrightarrow> zs \<noteq> [] \<Longrightarrow>
   list_splice_init h m l = bindR (list_splice h m l) (\<lambda>h. INIT_LIST_HEAD h m)"
  "dlist h m zs \<Longrightarrow> zs \<noteq> [] \<Longrightarrow>
   list_splice_tail_init h m l = bindR (list_splice_tail h m l) (\<lambda>h. INIT_LIST_HEAD h m)"
  by (simp_all add: list_splice_init_def list_splice_def list_splice_tail_init_def
      list_splice_tail_def list_empty_law bindR_assoc)

lemma list_splice_init_law:
  assumes "dlist h l ys" and "dlist h m zs" and "set (l # ys) \<inter> set (m # zs) = {}"
  shows "lists_to h (list_splice_init h m l) (insert m (insert l (set ys \<union> set zs))) l (zs @ ys)"
    and "lists_to h (list_splice_init h m l) (insert m (insert l (set ys \<union> set zs))) m []"
  using assms list_splice_init_eq(1) [OF assms(2)] dlist_dom [OF assms(2)] dlist_distinct [OF assms(2)]
    lists_to_INIT_other [OF list_splice_law [OF assms], of m]
  by (cases "zs = []"; simp add: list_splice_init_def list_empty_law lists_to_def; blast)+

lemma list_splice_tail_init_law:
  assumes "dlist h l ys" and "dlist h m zs" and "set (l # ys) \<inter> set (m # zs) = {}"
  shows "lists_to h (list_splice_tail_init h m l) (insert m (insert l (set ys \<union> set zs))) l (ys @ zs)"
    and "lists_to h (list_splice_tail_init h m l) (insert m (insert l (set ys \<union> set zs))) m []"
  using assms list_splice_init_eq(2) [OF assms(2)] dlist_dom [OF assms(2)] dlist_distinct [OF assms(2)]
    lists_to_INIT_other [OF list_splice_tail_law [OF assms], of m]
  by (cases "zs = []"; simp add: list_splice_tail_init_def list_empty_law lists_to_def; blast)+

text \<open>
  Cutting the list headed by \<open>l\<close> after its entry \<open>e\<close>: the entries up to \<open>e\<close> go to the
  head \<open>m\<close>, the rest stays.
\<close>

lemma list_cut_position_raw_law:
  assumes d: "dlist h l (xs @ e # ys)" and m: "m \<in> dom h" "m \<notin> insert l (set (xs @ e # ys))"
  defines "F \<equiv> {m, l, e, right_of l (xs @ [e]), right_of l ys}"
  shows "lists_to h (list_cut_position_raw h m l e) F l ys"
    and "lists_to h (list_cut_position_raw h m l e) F m (xs @ [e])"
proof -
  let ?f = "right_of l (xs @ [e])" and ?n = "right_of l ys"
  define h' where "h' = upd_prev (upd_next (upd_next (upd_prev (upd_prev (upd_next h m ?f) ?f m) m e) e m) l ?n) ?n l"
  have f: "?f \<in> insert e (set xs)" "?f = right_of l (xs @ e # ys)" by (cases xs; simp)+
  have n: "?n \<in> insert l (set ys)" by (rule right_of_in)
  have ne: "m \<noteq> l" "m \<noteq> e" "m \<noteq> ?f" "m \<noteq> ?n" "l \<noteq> e" "l \<noteq> ?f" "e \<noteq> ?n" "?f \<noteq> ?n"
    using m(2) f(1) n d by (auto simp: dlist_def)
  have "{l, ?f, e, ?n} \<subseteq> insert l (set (xs @ e # ys))" using f(1) n by auto
  from subset_trans [OF this dlist_dom [OF d]]
  have dm: "l \<in> dom h" "?f \<in> dom h" "e \<in> dom h" "?n \<in> dom h" by simp_all
  note nb = dlist_entry_neighbours(1,2) [OF d] dlist_head_next [OF d, folded f(2)]
  have run: "list_cut_position_raw h m l e = Inr h'" "dom h' = dom h"
    using nb dm m(1) ne by (simp_all add: list_cut_position_raw_def h'_def lheap_simps)
  have frame: "q \<notin> F \<Longrightarrow> h' q = h q" for q by (simp add: h'_def F_def lheap_simps)
  have nx': "nx h' q = (if q = l then Some ?n else if q = e then Some m else if q = m then Some ?f else nx h q)"
    and pv': "pv h' q = (if q = ?n then Some l else if q = m then Some e else if q = ?f then Some m else pv h q)"
    for q using dm m(1) by (simp_all add: h'_def lheap_simps)
  have dn: "distinct (l # xs @ e # ys)" using d by (simp add: dlist_def)
  have ys: "q \<notin> {e, m, ?f}" if "q \<in> insert l (set ys)" for q
    using that dn m(2) f(1) by auto
  have "dlist h' l ([] @ [] @ ys)"
  proof (rule dlist_surgery [of h l "[]" "xs @ [e]" ys])
    show "links h' (left_of l [] # [] @ [?n])" by (simp add: lnk_def nx' pv')
    show "dlist h l ([] @ (xs @ [e]) @ ys)" "distinct (l # [] @ [] @ ys)" using d dn by simp_all
    fix q assume "q \<in> insert l (set [] \<union> set ys)"
    then have q: "q \<in> insert l (set ys)" by simp
    show "q \<noteq> left_of l [] \<Longrightarrow> nx h' q = nx h q" using ys [OF q] by (simp add: nx')
    show "q \<noteq> ?n \<Longrightarrow> pv h' q = pv h q" using ys [OF q] by (simp add: pv')
  qed
  then have left: "dlist h' l ys" by simp
  have right: "dlist h' m (xs @ [e])"
  proof -
    have "links h (xs @ [e])"
      using d links_append [of "l # xs @ [e]" "ys @ [l]" h] links_append [of "[l]" "xs @ [e]" h]
      by (simp add: dlist_def)
    moreover have "links h' (xs @ [e]) \<longleftrightarrow> links h (xs @ [e])"
    proof (rule links_cong)
      fix q
      have "q \<in> set xs \<Longrightarrow> q \<notin> {l, e, m}" using dn m(2) by auto
      then show "q \<in> set (butlast (xs @ [e])) \<Longrightarrow> nx h' q = nx h q" by (simp add: nx')
      have "q \<in> set (tl (xs @ [e])) \<Longrightarrow> q \<in> insert e (set xs) \<and> q \<noteq> ?f"
        using dn by (cases xs) auto
      moreover have "q \<in> insert e (set xs) \<Longrightarrow> q \<noteq> ?n \<and> q \<noteq> m" using dn m(2) n by auto
      ultimately show "q \<in> set (tl (xs @ [e])) \<Longrightarrow> pv h' q = pv h q" by (simp add: pv')
    qed
    ultimately have "links h' (m # (xs @ [e]) @ [m])"
      using links_append [of "[m]" "(xs @ [e]) @ [m]" h'] links_append [of "xs @ [e]" "[m]" h'] ne
      by (cases xs) (auto simp: lnk_def nx' pv')
    then show ?thesis using dn m(2) by (simp add: dlist_def)
  qed
  show "lists_to h (list_cut_position_raw h m l e) F l ys"
    and "lists_to h (list_cut_position_raw h m l e) F m (xs @ [e])"
    using lists_toI [OF run frame] left right by blast+
qed

lemma list_cut_position_law:
  assumes d: "dlist h l (xs @ e # ys)" and m: "m \<in> dom h" "m \<notin> insert l (set (xs @ e # ys))"
  defines "F \<equiv> {m, l, e, right_of l (xs @ [e]), right_of l ys}"
  shows "lists_to h (list_cut_position h m l e) F l ys"
    and "lists_to h (list_cut_position h m l e) F m (xs @ [e])"
proof -
  have "list_cut_position h m l e = list_cut_position_raw h m l e"
    using dlist_distinct [OF d] by (cases xs) (auto simp: list_cut_position_def list_empty_law [OF d]
        list_is_singular_law [OF d] get_next_eq [OF dlist_head_next [OF d]])
  with list_cut_position_raw_law [OF d m] show "lists_to h (list_cut_position h m l e) F l ys"
    and "lists_to h (list_cut_position h m l e) F m (xs @ [e])" by (simp_all add: F_def)
qed

section \<open>The interface the clients of a list use\<close>

text \<open>
  What the memory pool relies on: an entry can be put at the front of a list it is not
  on, and taken out of the list it is on; both leave every list that shares no cell with
  the one they change as it was.
\<close>

locale intrusive_list =
  fixes is_list :: "'h \<Rightarrow> 'p \<Rightarrow> 'p list \<Rightarrow> bool"
    and nodes :: "'h \<Rightarrow> 'p set"
    and add :: "'h \<Rightarrow> 'p \<Rightarrow> 'p \<Rightarrow> 'h res"
    and del :: "'h \<Rightarrow> 'p \<Rightarrow> 'h res"
  assumes list_distinct: "is_list h l xs \<Longrightarrow> distinct (l # xs)"
    and list_nodes: "is_list h l xs \<Longrightarrow> insert l (set xs) \<subseteq> nodes h"
    and add_ok: "is_list h l xs \<Longrightarrow> a \<in> nodes h \<Longrightarrow> a \<notin> insert l (set xs) \<Longrightarrow>
      \<exists>h'. add h a l = Inr h' \<and> nodes h' = nodes h \<and> is_list h' l (a # xs) \<and>
        (\<forall>m ys. is_list h m ys \<longrightarrow> insert m (set ys) \<inter> insert a (insert l (set xs)) = {} \<longrightarrow>
          is_list h' m ys)"
    and del_ok: "is_list h l (xs @ e # ys) \<Longrightarrow>
      \<exists>h'. del h e = Inr h' \<and> nodes h' = nodes h \<and> is_list h' l (xs @ ys) \<and>
        (\<forall>m zs. is_list h m zs \<longrightarrow> insert m (set zs) \<inter> insert l (set (xs @ e # ys)) = {} \<longrightarrow>
          is_list h' m zs)"
begin

text \<open>Taking an entry out of one list and putting it at the front of another.\<close>

lemma transfer:
  assumes l: "is_list h l (xs @ e # ys)" and m: "is_list h m zs"
    and disj: "insert l (set (xs @ e # ys)) \<inter> insert m (set zs) = {}"
  shows "\<exists>h'. bindR (del h e) (\<lambda>h. add h e m) = Inr h' \<and> nodes h' = nodes h \<and>
    is_list h' l (xs @ ys) \<and> is_list h' m (e # zs)"
proof -
  from del_ok [OF l] m disj obtain h1 where h1: "del h e = Inr h1" "nodes h1 = nodes h"
    "is_list h1 l (xs @ ys)" "is_list h1 m zs" by (auto simp: Int_commute)
  have e: "e \<in> nodes h1" "e \<notin> insert m (set zs)"
    using list_nodes [OF l] h1(2) disj by auto
  have "insert l (set (xs @ ys)) \<inter> insert e (insert m (set zs)) = {}"
    using disj list_distinct [OF l] by auto
  with add_ok [OF h1(4) e] h1 show ?thesis by auto
qed

text \<open>The two lists together hold the same entries before and after a transfer.\<close>

lemma transfer_entries:
  assumes "is_list h l (xs @ e # ys)" and "is_list h m zs"
    and "insert l (set (xs @ e # ys)) \<inter> insert m (set zs) = {}"
  shows "set (xs @ ys) \<union> set (e # zs) = set (xs @ e # ys) \<union> set zs"
    and "insert l (set (xs @ ys)) \<inter> insert m (set (e # zs)) = {}"
  using assms list_distinct [OF assms(1)] by auto

end

interpretation lh: intrusive_list dlist dom list_add list_del
proof unfold_locales
  fix h l xs a
  assume a: "dlist h l xs" "a \<in> dom h" "a \<notin> insert l (set xs)"
  have "lists_to h (list_add h a l) (insert a (insert l (set xs))) l (a # xs)"
    by (rule lists_to_mono [OF list_add_law [OF a]]) (use right_of_in [of l xs] in auto)
  then show "\<exists>h'. list_add h a l = Inr h' \<and> dom h' = dom h \<and> dlist h' l (a # xs) \<and>
      (\<forall>m ys. dlist h m ys \<longrightarrow> insert m (set ys) \<inter> insert a (insert l (set xs)) = {} \<longrightarrow> dlist h' m ys)"
    by (elim lists_toE) (auto elim!: dlist_frame)
next
  fix h l xs e ys
  assume d: "dlist h l (xs @ e # ys)"
  have "lists_to h (list_del h e) (insert l (set (xs @ e # ys))) l (xs @ ys)"
    by (rule lists_to_mono [OF list_del_law [OF d]]) (use neighbours_in [of l xs ys] in auto)
  then show "\<exists>h'. list_del h e = Inr h' \<and> dom h' = dom h \<and> dlist h' l (xs @ ys) \<and>
      (\<forall>m zs. dlist h m zs \<longrightarrow> insert m (set zs) \<inter> insert l (set (xs @ e # ys)) = {} \<longrightarrow> dlist h' m zs)"
    by (elim lists_toE) (auto elim!: dlist_frame)
qed (use dlist_distinct dlist_dom in blast)+

section \<open>Traversals\<close>

text \<open>
  The loops of the iteration macros. A traversal follows pointers until it meets the
  head again, so on an arbitrary store it need not return: the loops are partial
  functions, \<open>None\<close> is a loop that does not end. \<open>list_for_each\<close> and
  \<open>list_for_each_prev\<close> return the entries in the order the loop body sees them;
  \<open>list_for_each_safe\<close> runs a body that may unlink the entry it is given.
\<close>

partial_function (option) list_for_each_loop ::
    "lheap \<Rightarrow> ptr \<Rightarrow> ptr \<Rightarrow> ptr list \<Rightarrow> ptr list res option" where
  "list_for_each_loop h head pos seen =
     (if pos \<noteq> head
      then case get_next h pos of
             Inl e \<Rightarrow> Some (Inl e)
           | Inr n \<Rightarrow> list_for_each_loop h head n (seen @ [pos])
      else Some (Inr seen))"

definition list_for_each :: "lheap \<Rightarrow> ptr \<Rightarrow> ptr list res option" where
  "list_for_each h head =
     (case get_next h head of Inl e \<Rightarrow> Some (Inl e) | Inr p \<Rightarrow> list_for_each_loop h head p [])"

partial_function (option) list_for_each_prev_loop ::
    "lheap \<Rightarrow> ptr \<Rightarrow> ptr \<Rightarrow> ptr list \<Rightarrow> ptr list res option" where
  "list_for_each_prev_loop h head pos seen =
     (if pos \<noteq> head
      then case get_prev h pos of
             Inl e \<Rightarrow> Some (Inl e)
           | Inr n \<Rightarrow> list_for_each_prev_loop h head n (seen @ [pos])
      else Some (Inr seen))"

definition list_for_each_prev :: "lheap \<Rightarrow> ptr \<Rightarrow> ptr list res option" where
  "list_for_each_prev h head =
     (case get_prev h head of Inl e \<Rightarrow> Some (Inl e) | Inr p \<Rightarrow> list_for_each_prev_loop h head p [])"

partial_function (option) list_for_each_safe_loop ::
    "(lheap \<Rightarrow> ptr \<Rightarrow> lheap res) \<Rightarrow> lheap \<Rightarrow> ptr \<Rightarrow> ptr \<Rightarrow> ptr \<Rightarrow> lheap res option" where
  "list_for_each_safe_loop body h head pos n =
     (if pos \<noteq> head
      then case body h pos of
             Inl e \<Rightarrow> Some (Inl e)
           | Inr h \<Rightarrow> (case get_next h n of
                         Inl e \<Rightarrow> Some (Inl e)
                       | Inr n' \<Rightarrow> list_for_each_safe_loop body h head n n')
      else Some (Inr h))"

definition list_for_each_safe ::
    "(lheap \<Rightarrow> ptr \<Rightarrow> lheap res) \<Rightarrow> lheap \<Rightarrow> ptr \<Rightarrow> lheap res option" where
  "list_for_each_safe body h head =
     (case bindR (get_next h head) (\<lambda>pos. bindR (get_next h pos) (\<lambda>n. Inr (pos, n))) of
        Inl e \<Rightarrow> Some (Inl e)
      | Inr (pos, n) \<Rightarrow> list_for_each_safe_loop body h head pos n)"

lemma list_for_each_loop_run:
  "dlist h l (ys @ xs) \<Longrightarrow> list_for_each_loop h l (right_of l xs) seen = Some (Inr (seen @ xs))"
proof (induction xs arbitrary: ys seen)
  case Nil
  then show ?case by (simp add: list_for_each_loop.simps)
next
  case (Cons x xs)
  from dlist_entry_neighbours(1) [OF Cons.prems] have "get_next h x = Inr (right_of l xs)"
    by (rule get_next_eq)
  moreover have "x \<noteq> l" using dlist_distinct [OF Cons.prems] by auto
  moreover have "list_for_each_loop h l (right_of l xs) (seen @ [x]) = Some (Inr (seen @ x # xs))"
    using Cons.IH [of "ys @ [x]"] Cons.prems by simp
  ultimately show ?case by (subst list_for_each_loop.simps) simp
qed

lemma list_for_each_visits: "dlist h l xs \<Longrightarrow> list_for_each h l = Some (Inr xs)"
  using list_for_each_loop_run [of h l "[]" xs]
  by (simp add: list_for_each_def get_next_eq [OF dlist_head_next])

lemma list_for_each_prev_loop_run:
  "dlist h l (xs @ ys) \<Longrightarrow> list_for_each_prev_loop h l (left_of l xs) seen = Some (Inr (seen @ rev xs))"
proof (induction xs arbitrary: ys seen rule: rev_induct)
  case Nil
  then show ?case by (simp add: list_for_each_prev_loop.simps)
next
  case (snoc x xs)
  from snoc.prems have d: "dlist h l (xs @ x # ys)" by simp
  from dlist_entry_neighbours(2) [OF d] have "get_prev h x = Inr (left_of l xs)"
    by (rule get_prev_eq)
  moreover have "x \<noteq> l" using dlist_distinct [OF d] by auto
  ultimately show ?case
    using snoc.IH [OF d] by (subst list_for_each_prev_loop.simps) simp
qed

lemma list_for_each_prev_visits: "dlist h l xs \<Longrightarrow> list_for_each_prev h l = Some (Inr (rev xs))"
  using list_for_each_prev_loop_run [of h l xs "[]"]
  by (simp add: list_for_each_prev_def get_prev_eq [OF dlist_head_prev])

lemma list_for_each_safe_loop_del:
  "dlist h l (x # xs) \<Longrightarrow>
   \<exists>h'. list_for_each_safe_loop list_del h l x (right_of l xs) = Some (Inr h') \<and>
     dom h' = dom h \<and> dlist h' l []"
proof (induction xs arbitrary: h x)
  case Nil
  from lh.del_ok [of h l "[]" x "[]"] Nil obtain h1 where
    h1: "list_del h x = Inr h1" "dom h1 = dom h" "dlist h1 l []" by auto
  moreover have "x \<noteq> l" using dlist_distinct [OF Nil] by auto
  ultimately show ?case
    using get_next_eq [OF dlist_head_next [OF h1(3)]] by (simp add: list_for_each_safe_loop.simps)
next
  case (Cons y ys)
  from lh.del_ok [of h l "[]" x "y # ys"] Cons.prems obtain h1 where
    h1: "list_del h x = Inr h1" "dom h1 = dom h" "dlist h1 l (y # ys)" by auto
  from h1(3) have "get_next h1 y = Inr (right_of l ys)"
    using dlist_entry_neighbours(1) [of h1 l "[]" y ys] by (simp add: get_next_eq)
  moreover have "x \<noteq> l" using dlist_distinct [OF Cons.prems] by auto
  ultimately show ?case
    using Cons.IH [OF h1(3)] h1 by (subst list_for_each_safe_loop.simps) simp
qed

section \<open>Properties\<close>

text \<open>A store with the lists 10: [11, 12, 13] and 20: [21], and a free cell 30.\<close>

definition ex_lists :: lheap where
  "ex_lists = [10 \<mapsto> \<lparr>lh_next = 11, lh_prev = 13\<rparr>, 11 \<mapsto> \<lparr>lh_next = 12, lh_prev = 10\<rparr>,
     12 \<mapsto> \<lparr>lh_next = 13, lh_prev = 11\<rparr>, 13 \<mapsto> \<lparr>lh_next = 10, lh_prev = 12\<rparr>,
     20 \<mapsto> \<lparr>lh_next = 21, lh_prev = 21\<rparr>, 21 \<mapsto> \<lparr>lh_next = 20, lh_prev = 20\<rparr>,
     30 \<mapsto> \<lparr>lh_next = 0, lh_prev = 0\<rparr>]"

lemma ex_lists_dlist: "dlist ex_lists 10 [11, 12, 13]" "dlist ex_lists 20 [21]" "30 \<in> dom ex_lists"
  by (simp_all add: dlist_def ex_lists_def lnk_def nx_def pv_def)

text \<open>list_del takes exactly the given entry out of the list it is on, keeps the order
  of the others, poisons the two links of the entry, and writes no cell but the entry's
  and its two neighbours'.\<close>
theorem list_del_unlinks:
  assumes "dlist h l (xs @ e # ys)"
  shows "\<exists>h'. list_del h e = Inr h' \<and> dlist h' l (xs @ ys) \<and>
    h' e = Some \<lparr>lh_next = LIST_POISON1, lh_prev = LIST_POISON2\<rparr> \<and>
    (\<forall>q. q \<notin> {e, left_of l xs, right_of l ys} \<longrightarrow> h' q = h q)"
proof -
  from list_del_law [OF assms] obtain h' where h': "list_del h e = Inr h'"
    "\<forall>q. q \<notin> {e, left_of l xs, right_of l ys} \<longrightarrow> h' q = h q" "dlist h' l (xs @ ys)"
    by (rule lists_toE)
  then have "h' e = Some \<lparr>lh_next = LIST_POISON1, lh_prev = LIST_POISON2\<rparr>"
    by (auto simp: list_del_def set_next_def set_prev_def bindR_Inr_iff split: option.splits)
  with h' show ?thesis by blast
qed

theorem list_del_unlinks_witness:
  "\<exists>h'. list_del ex_lists 12 = Inr h' \<and> dlist h' 10 [11, 13] \<and>
    h' 12 = Some \<lparr>lh_next = LIST_POISON1, lh_prev = LIST_POISON2\<rparr> \<and>
    (\<forall>q. q \<notin> {12, 11, 13} \<longrightarrow> h' q = ex_lists q)"
  using list_del_unlinks [of ex_lists 10 "[11]" 12 "[13]"] ex_lists_dlist(1) by simp

text \<open>splicing a list onto the tail of another one joins the two sequences of entries in
  order and leaves the emptied head behind as a valid empty list.\<close>
theorem list_splice_tail_init_joins:
  assumes "dlist h l ys" and "dlist h m zs" and "set (l # ys) \<inter> set (m # zs) = {}"
  shows "\<exists>h'. list_splice_tail_init h m l = Inr h' \<and> dlist h' l (ys @ zs) \<and> dlist h' m [] \<and>
    (\<forall>q. q \<notin> set (l # ys) \<union> set (m # zs) \<longrightarrow> h' q = h q)"
  using list_splice_tail_init_law [OF assms] unfolding lists_to_def by auto

theorem list_splice_tail_init_joins_witness:
  "\<exists>h'. list_splice_tail_init ex_lists 20 10 = Inr h' \<and> dlist h' 10 ([11, 12, 13] @ [21]) \<and>
    dlist h' 20 [] \<and> (\<forall>q. q \<notin> set [10, 11, 12, 13] \<union> set [20, 21] \<longrightarrow> h' q = ex_lists q)"
  by (rule list_splice_tail_init_joins [OF ex_lists_dlist(1,2)]) simp

text \<open>cutting a list after one of its entries and splicing the cut part back in front
  restores the list, and the second head is left empty.\<close>
theorem list_cut_then_splice:
  assumes d: "dlist h l (xs @ e # ys)" and m: "m \<in> dom h" "m \<notin> insert l (set (xs @ e # ys))"
  shows "\<exists>h1 h2. list_cut_position h m l e = Inr h1 \<and> dlist h1 m (xs @ [e]) \<and> dlist h1 l ys \<and>
    list_splice_init h1 m l = Inr h2 \<and> dlist h2 l (xs @ e # ys) \<and> dlist h2 m []"
proof -
  from list_cut_position_law [OF d m] obtain h1 where h1: "list_cut_position h m l e = Inr h1"
    "dlist h1 l ys" "dlist h1 m (xs @ [e])" unfolding lists_to_def by auto
  have "set (l # ys) \<inter> set (m # xs @ [e]) = {}" using dlist_distinct [OF d] m(2) by auto
  from list_splice_init_law [OF h1(2,3) this] obtain h2 where
    "list_splice_init h1 m l = Inr h2" "dlist h2 l ((xs @ [e]) @ ys)" "dlist h2 m []"
    unfolding lists_to_def by auto
  with h1 show ?thesis by auto
qed

theorem list_cut_then_splice_witness:
  "\<exists>h1 h2. list_cut_position ex_lists 30 10 12 = Inr h1 \<and> dlist h1 30 ([11] @ [12]) \<and>
    dlist h1 10 [13] \<and> list_splice_init h1 30 10 = Inr h2 \<and> dlist h2 10 ([11] @ 12 # [13]) \<and>
    dlist h2 30 []"
  by (rule list_cut_then_splice) (use ex_lists_dlist in simp_all)

text \<open>list_for_each_safe with list_del as its body terminates on every list and leaves it
  empty, although every step unlinks the entry the loop stands on.\<close>
theorem list_for_each_safe_del_empties:
  assumes "dlist h l xs"
  shows "\<exists>h'. list_for_each_safe list_del h l = Some (Inr h') \<and> dom h' = dom h \<and> dlist h' l []"
proof (cases xs)
  case Nil
  with assms get_next_eq [OF dlist_head_next [OF assms]] show ?thesis
    by (simp add: list_for_each_safe_def list_for_each_safe_loop.simps)
next
  case (Cons x ys)
  with assms have "get_next h l = Inr x" "get_next h x = Inr (right_of l ys)"
    using dlist_head_next [of h l xs] dlist_entry_neighbours(1) [of h l "[]" x ys]
    by (simp_all add: get_next_eq)
  with assms Cons show ?thesis
    using list_for_each_safe_loop_del [of h l x ys] by (simp add: list_for_each_safe_def)
qed

theorem list_for_each_safe_del_empties_witness:
  "\<exists>h'. list_for_each_safe list_del ex_lists 10 = Some (Inr h') \<and> dom h' = dom ex_lists \<and> dlist h' 10 []"
  by (rule list_for_each_safe_del_empties [OF ex_lists_dlist(1)])

end
