(* ===== verification/MemPool.thy ===== *)
theory MemPool
  imports ListHead
begin

text \<open>
  The packet pool of \<^verbatim>\<open>src/src/mempool.c\<close>: a block of memory cut into nodes, each a
  \<^verbatim>\<open>struct list_head\<close> followed by the payload, and two intrusive lists, the free and
  the used nodes. The pool mutex makes each operation one atomic step; waiting on the
  condition variable is an outcome of its own.
\<close>

section \<open>Memory\<close>

text \<open>
  \<open>lists\<close> are the \<^verbatim>\<open>struct list_head\<close> cells, \<open>bytes\<close> the contents of the
  payload memory, \<open>blocks\<close> the allocated blocks with their sizes. \<open>junk\<close> is what
  fresh memory happens to contain. The address a call of \<^verbatim>\<open>malloc\<close> returns is an
  argument of the operation that makes the call (\<^verbatim>\<open>NULL\<close> when it fails).
\<close>

record mem =
  lists :: lheap
  bytes :: "ptr \<Rightarrow> u8"
  blocks :: "(ptr \<times> nat) list"
  junk :: "ptr \<Rightarrow> list_head"

definition SIZEOF_LIST_HEAD :: nat where "SIZEOF_LIST_HEAD = 16"
definition SIZEOF_MEM_POOL_ST :: nat where "SIZEOF_MEM_POOL_ST = 32"

text \<open>The addresses of the two heads inside \<^verbatim>\<open>struct mem_pool_st\<close>.\<close>

definition pool_free :: "ptr \<Rightarrow> ptr" where "pool_free p = p"
definition pool_use :: "ptr \<Rightarrow> ptr" where "pool_use p = p + SIZEOF_LIST_HEAD"

text \<open>The 16-byte cells of a block of \<open>n\<close> bytes at \<open>a\<close>.\<close>

definition in_block :: "ptr \<Rightarrow> nat \<Rightarrow> ptr \<Rightarrow> bool" where
  "in_block a n p \<longleftrightarrow> a \<le> p \<and> p + SIZEOF_LIST_HEAD \<le> a + n \<and> (p - a) mod SIZEOF_LIST_HEAD = 0"

definition malloc :: "mem \<Rightarrow> ptr \<Rightarrow> nat \<Rightarrow> mem" where
  "malloc m a n =
     (if a = NULL then m
      else m\<lparr>lists := (\<lambda>p. if in_block a n p then Some (junk m p) else lists m p),
             blocks := (a, n) # blocks m\<rparr>)"

definition free_block :: "mem \<Rightarrow> ptr \<Rightarrow> mem res" where
  "free_block m a =
     (case map_of (blocks m) a of
        None \<Rightarrow> Inl (BadFree a)
      | Some n \<Rightarrow> Inr (m\<lparr>lists := (\<lambda>p. if in_block a n p then None else lists m p),
                        blocks := filter (\<lambda>(b, _). b \<noteq> a) (blocks m)\<rparr>))"

definition valid_range :: "mem \<Rightarrow> ptr \<Rightarrow> nat \<Rightarrow> bool" where
  "valid_range m p n \<longleftrightarrow> list_ex (\<lambda>(a, s). a \<le> p \<and> p + n \<le> a + s) (blocks m)"

definition memcpy :: "mem \<Rightarrow> ptr \<Rightarrow> ptr \<Rightarrow> nat \<Rightarrow> mem res" where
  "memcpy m dst src n =
     (if valid_range m dst n \<and> valid_range m src n
      then Inr (m\<lparr>bytes := (\<lambda>p. if dst \<le> p \<and> p < dst + n then bytes m (src + (p - dst)) else bytes m p)\<rparr>)
      else Inl OutOfBounds)"

definition with_lists :: "mem \<Rightarrow> lheap res \<Rightarrow> mem res" where
  "with_lists m r = bindR r (\<lambda>h. Inr (m\<lparr>lists := h\<rparr>))"

section \<open>The operations\<close>

text \<open>
  \<^verbatim>\<open>size = ((size + 15) & 0xFFFFFFF0) + sizeof(struct list_head)\<close>: the addition is in
  \<^verbatim>\<open>int\<close>, the mask in \<^verbatim>\<open>unsigned int\<close>, and the assignment narrows to
  \<^verbatim>\<open>int\<close> again.
\<close>

definition pool_stride :: "int \<Rightarrow> int res" where
  "pool_stride sz =
     bindR (to_int (sz + 15)) (\<lambda>s.
     Inr (sint ((word_of_int s AND 0xFFFFFFF0 :: u32) + word_of_nat SIZEOF_LIST_HEAD)))"

primrec create_loop :: "nat \<Rightarrow> lheap \<Rightarrow> ptr \<Rightarrow> int \<Rightarrow> ptr \<Rightarrow> lheap res" where
  "create_loop 0 h list sz head = Inr h"
| "create_loop (Suc i) h list sz head =
     bindR (list_add h list head) (\<lambda>h.
     create_loop i h (nat (int list + sz)) sz head)"

definition mem_pool_create :: "mem \<Rightarrow> ptr \<Rightarrow> int \<Rightarrow> int \<Rightarrow> (mem \<times> ptr) res" where
  "mem_pool_create m a num sz =
     (if num \<le> 0 then Inr (m, NULL)
      else bindR (pool_stride sz) (\<lambda>sz.
           bindR (to_int (num * sz)) (\<lambda>total.
           let m = malloc m a (nat ((total + int SIZEOF_MEM_POOL_ST) mod 2 ^ 64)) in
           bindR (INIT_LIST_HEAD (lists m) (pool_free a)) (\<lambda>h.
           bindR (INIT_LIST_HEAD h (pool_use a)) (\<lambda>h.
           bindR (create_loop (nat num) h (a + SIZEOF_MEM_POOL_ST) sz (pool_free a)) (\<lambda>h.
           Inr (m\<lparr>lists := h\<rparr>, a)))))))"

text \<open>
  The part of \<^verbatim>\<open>mem_pool_get\<close> after the wait: the first free node is taken without
  looking again whether there is one.
\<close>

definition mem_pool_take :: "mem \<Rightarrow> ptr \<Rightarrow> (mem \<times> ptr) res" where
  "mem_pool_take m cache =
     bindR (get_next (lists m) (pool_free cache)) (\<lambda>list.
     bindR (with_lists m (list_del (lists m) list)) (\<lambda>m.
     bindR (with_lists m (list_add (lists m) list (pool_use cache))) (\<lambda>m.
     Inr (m, list + SIZEOF_LIST_HEAD))))"

definition mem_pool_get :: "mem \<Rightarrow> ptr \<Rightarrow> (mem \<times> ptr) outcome res" where
  "mem_pool_get m cache =
     bindR (list_empty (lists m) (pool_free cache)) (\<lambda>e.
     if e then Inr Wait
     else bindR (mem_pool_take m cache) (\<lambda>r. Inr (Done r)))"

text \<open>What a thread inside the wait does when it is woken.\<close>

definition mem_pool_get_resume :: "mem \<Rightarrow> ptr \<Rightarrow> (mem \<times> ptr) res" where
  "mem_pool_get_resume = mem_pool_take"

definition mem_pool_put :: "mem \<Rightarrow> ptr \<Rightarrow> ptr \<Rightarrow> (mem \<times> int) res" where
  "mem_pool_put m cache node =
     (if cache = NULL \<or> node = NULL then Inr (m, 1)
      else let list = node - SIZEOF_LIST_HEAD in
        bindR (get_prev (lists m) list) (\<lambda>p.
        bindR (if p = NULL then bindR (get_next (lists m) list) (\<lambda>n. Inr (n = NULL)) else Inr False) (\<lambda>cloned.
        if cloned
        then bindR (free_block m list) (\<lambda>m. Inr (m, 0))
        else bindR (with_lists m (list_del (lists m) list)) (\<lambda>m.
             bindR (with_lists m (list_add (lists m) list (pool_free cache))) (\<lambda>m.
             Inr (m, 0))))))"

definition mem_pool_clone :: "mem \<Rightarrow> ptr \<Rightarrow> ptr \<Rightarrow> int \<Rightarrow> (mem \<times> ptr) res" where
  "mem_pool_clone m a node sz =
     (let n = nat ((sz + int SIZEOF_LIST_HEAD) mod 2 ^ 64); m = malloc m a n in
      if a = NULL then Inr (m, NULL)
      else bindR (with_lists m (set_prev (lists m) a NULL)) (\<lambda>m.
           bindR (with_lists m (set_next (lists m) a NULL)) (\<lambda>m.
           bindR (memcpy m (a + SIZEOF_LIST_HEAD) node (nat (sz mod 2 ^ 64))) (\<lambda>m.
           Inr (m, a + SIZEOF_LIST_HEAD)))))"

definition mem_pool_destroy :: "mem \<Rightarrow> ptr \<Rightarrow> mem res" where
  "mem_pool_destroy m p = (if p = NULL then Inr m else free_block m p)"

section \<open>The pool invariant\<close>

text \<open>
  A buffer is known by its payload address, what \<^verbatim>\<open>mem_pool_get\<close> returns; its list
  cell is \<open>node_of\<close> it. The invariant: free and used buffers are on the two lists, in
  this order, no cell is on both, and \<^verbatim>\<open>NULL\<close> is no cell.
\<close>

definition node_of :: "ptr \<Rightarrow> ptr" where
  "node_of b = b - SIZEOF_LIST_HEAD"

definition two_lists :: "lheap \<Rightarrow> ptr \<Rightarrow> ptr list \<Rightarrow> ptr \<Rightarrow> ptr list \<Rightarrow> bool" where
  "two_lists h l xs m ys \<longleftrightarrow>
     h NULL = None \<and> dlist h l xs \<and> dlist h m ys \<and> insert l (set xs) \<inter> insert m (set ys) = {}"

definition pool_inv :: "ptr \<Rightarrow> mem \<Rightarrow> ptr list \<Rightarrow> ptr list \<Rightarrow> bool" where
  "pool_inv p m fs us \<longleftrightarrow>
     (\<forall>b \<in> set (fs @ us). SIZEOF_LIST_HEAD \<le> b) \<and>
     two_lists (lists m) (pool_free p) (map node_of fs) (pool_use p) (map node_of us)"

text \<open>The contract of a pool of buffers, as its users see it.\<close>

locale buffer_pool =
  fixes inv :: "'s \<Rightarrow> 'b list \<Rightarrow> 'b list \<Rightarrow> bool"
    and get :: "'s \<Rightarrow> ('s \<times> 'b) outcome res"
    and resume :: "'s \<Rightarrow> ('s \<times> 'b) res"
    and put :: "'s \<Rightarrow> 'b \<Rightarrow> ('s \<times> int) res"
  assumes inv_distinct: "inv s fs us \<Longrightarrow> distinct (fs @ us)"
    and get_free: "inv s (b # fs) us \<Longrightarrow> \<exists>s'. get s = Inr (Done (s', b)) \<and> inv s' fs (b # us)"
    and get_empty: "inv s [] us \<Longrightarrow> get s = Inr Wait"
    and resume_free: "inv s (b # fs) us \<Longrightarrow> \<exists>s'. resume s = Inr (s', b) \<and> inv s' fs (b # us)"
    and put_used: "inv s fs (xs @ b # ys) \<Longrightarrow> \<exists>s'. put s b = Inr (s', 0) \<and> inv s' (b # fs) (xs @ ys)"
begin

lemma get_fresh: "inv s fs us \<Longrightarrow> get s = Inr (Done (s', b)) \<Longrightarrow> b \<in> set fs \<and> b \<notin> set us"
proof -
  assume i: "inv s fs us" and g: "get s = Inr (Done (s', b))"
  then obtain gs where "fs = b # gs"
    using get_free [of s _ _ us] get_empty [of s us] by (cases fs) fastforce+
  with inv_distinct [OF i] show "b \<in> set fs \<and> b \<notin> set us" by auto
qed

lemma get_done_or_wait:
  assumes "inv s fs us"
  shows "get s = Inr Wait \<longleftrightarrow> fs = []"
  using assms get_empty [of s us] get_free [of s _ _ us] by (cases fs) fastforce+

lemma put_in_use: "inv s fs us \<Longrightarrow> b \<in> set us \<Longrightarrow>
    \<exists>s'. put s b = Inr (s', 0) \<and> inv s' (b # fs) (remove1 b us)"
proof -
  assume i: "inv s fs us" and b: "b \<in> set us"
  from b obtain xs ys where us: "us = xs @ b # ys" "b \<notin> set xs" by (meson split_list_first)
  then have "remove1 b us = xs @ ys" by (simp add: remove1_append)
  with put_used i us show "\<exists>s'. put s b = Inr (s', 0) \<and> inv s' (b # fs) (remove1 b us)" by simp
qed

text \<open>The free list is a stack: the buffer given back last is handed out next.\<close>

lemma put_get:
  assumes "inv s fs us" and "b \<in> set us"
  shows "\<exists>s1 s2. put s b = Inr (s1, 0) \<and> get s1 = Inr (Done (s2, b)) \<and> inv s2 fs (b # remove1 b us)"
  using put_in_use [OF assms] get_free by blast

lemma get_put:
  assumes "inv s (b # fs) us"
  shows "\<exists>s1 s2. get s = Inr (Done (s1, b)) \<and> put s1 b = Inr (s2, 0) \<and> inv s2 (b # fs) us"
  using get_free [OF assms] put_used [of _ fs "[]" b us] by fastforce

end

lemma with_lists_move:
  "bindR (with_lists m r) (\<lambda>m1. bindR (with_lists m1 (list_add (lists m1) a l)) k) =
   bindR (bindR r (\<lambda>h. list_add h a l)) (\<lambda>h. k (m\<lparr>lists := h\<rparr>))"
  by (cases r) (auto simp: with_lists_def bindR_assoc)

lemma two_lists_commute: "two_lists h l xs m ys \<longleftrightarrow> two_lists h m ys l xs"
  by (auto simp: two_lists_def)

lemma two_lists_transfer:
  assumes "two_lists h l (xs @ e # ys) m zs"
  shows "\<exists>h'. bindR (list_del h e) (\<lambda>h. list_add h e m) = Inr h' \<and> dom h' = dom h \<and>
    two_lists h' l (xs @ ys) m (e # zs)"
proof -
  from assms have l: "dlist h l (xs @ e # ys)" and m: "dlist h m zs" and n: "h NULL = None"
    and disj: "insert l (set (xs @ e # ys)) \<inter> insert m (set zs) = {}"
    by (simp_all add: two_lists_def)
  from lh.transfer [OF l m disj] obtain h' where
    "bindR (list_del h e) (\<lambda>h. list_add h e m) = Inr h'" "dom h' = dom h"
    "dlist h' l (xs @ ys)" "dlist h' m (e # zs)" by auto
  moreover from this(2) n have "h' NULL = None" by (metis domIff)
  ultimately show ?thesis
    using lh.transfer_entries(2) [OF l m disj] by (simp add: two_lists_def)
qed

lemma pool_inv_take:
  assumes "pool_inv p m (b # fs) us"
  shows "\<exists>h. bindR (list_del (lists m) (node_of b)) (\<lambda>h. list_add h (node_of b) (pool_use p)) = Inr h \<and>
    dom h = dom (lists m) \<and> pool_inv p (m\<lparr>lists := h\<rparr>) fs (b # us)"
  using assms two_lists_transfer [of "lists m" "pool_free p" "[]" "node_of b" "map node_of fs"]
  by (auto simp: pool_inv_def)

lemma pool_inv_give:
  assumes "pool_inv p m fs (xs @ b # ys)"
  shows "\<exists>h. bindR (list_del (lists m) (node_of b)) (\<lambda>h. list_add h (node_of b) (pool_free p)) = Inr h \<and>
    dom h = dom (lists m) \<and> pool_inv p (m\<lparr>lists := h\<rparr>) (b # fs) (xs @ ys)"
  using assms two_lists_transfer [of "lists m" "pool_use p" "map node_of xs" "node_of b" "map node_of ys"]
  by (auto simp: pool_inv_def two_lists_commute)

lemma node_of_payload: "SIZEOF_LIST_HEAD \<le> b \<Longrightarrow> node_of b + SIZEOF_LIST_HEAD = b"
  by (simp add: node_of_def)

lemma pool_inv_lists:
  assumes "pool_inv p m fs us"
  shows "dlist (lists m) (pool_free p) (map node_of fs)" "dlist (lists m) (pool_use p) (map node_of us)"
    "lists m NULL = None" "b \<in> set fs \<union> set us \<Longrightarrow> SIZEOF_LIST_HEAD \<le> b"
  using assms by (auto simp: pool_inv_def two_lists_def)

lemma pool_free_empty: "pool_inv p m fs us \<Longrightarrow> list_empty (lists m) (pool_free p) = Inr (fs = [])"
  using list_empty_law [OF pool_inv_lists(1)] by auto

lemma pool_inv_distinct:
  assumes "pool_inv p m fs us" shows "distinct (fs @ us)"
  using assms dlist_distinct [OF pool_inv_lists(1) [OF assms]] dlist_distinct [OF pool_inv_lists(2) [OF assms]]
  by (auto simp: pool_inv_def two_lists_def distinct_map)

lemma mem_pool_take_ok:
  assumes "pool_inv p m (b # fs) us"
  shows "\<exists>m'. mem_pool_take m p = Inr (m', b) \<and> pool_inv p m' fs (b # us)"
proof -
  have "get_next (lists m) (pool_free p) = Inr (node_of b)"
    using get_next_eq [OF dlist_head_next [OF pool_inv_lists(1) [OF assms]]] by simp
  moreover have "node_of b + SIZEOF_LIST_HEAD = b"
    using pool_inv_lists(4) [OF assms] by (simp add: node_of_payload)
  ultimately show ?thesis
    using pool_inv_take [OF assms] by (auto simp: mem_pool_take_def with_lists_move)
qed

lemma mem_pool_put_ok:
  assumes "pool_inv p m fs (xs @ b # ys)" and "p \<noteq> NULL"
  shows "\<exists>m'. mem_pool_put m p b = Inr (m', 0) \<and> pool_inv p m' (b # fs) (xs @ ys)"
proof -
  note l = pool_inv_lists(2) [OF assms(1)]
  have b: "b \<noteq> NULL" using pool_inv_lists(4) [OF assms(1), of b] by (simp add: SIZEOF_LIST_HEAD_def)
  from l have "get_prev (lists m) (node_of b) = Inr (left_of (pool_use p) (map node_of xs))"
    using get_prev_eq [OF dlist_entry_neighbours(2)] by simp
  moreover have "left_of (pool_use p) (map node_of xs) \<in> dom (lists m)"
    using dlist_entry_neighbours(6) l by simp
  then have "left_of (pool_use p) (map node_of xs) \<noteq> NULL"
    using pool_inv_lists(3) [OF assms(1)] by (metis domIff)
  ultimately show ?thesis
    using pool_inv_give [OF assms(1)] b assms(2)
    by (auto simp: mem_pool_put_def node_of_def [symmetric] with_lists_move Let_def)
qed

interpretation mp: buffer_pool "\<lambda>m fs us. pool_inv p m fs us \<and> p \<noteq> NULL" "\<lambda>m. mem_pool_get m p"
  "\<lambda>m. mem_pool_get_resume m p" "\<lambda>m. mem_pool_put m p" for p :: ptr
proof unfold_locales
  fix m fs us
  assume i: "pool_inv p m fs us \<and> p \<noteq> NULL"
  then show "distinct (fs @ us)" using pool_inv_distinct by blast
next
  fix m us
  assume "pool_inv p m [] us \<and> p \<noteq> NULL"
  then show "mem_pool_get m p = Inr Wait"
    using pool_free_empty [of p m "[]" us] by (simp add: mem_pool_get_def)
next
  fix m b fs us
  assume i: "pool_inv p m (b # fs) us \<and> p \<noteq> NULL"
  then show "\<exists>m'. mem_pool_get_resume m p = Inr (m', b) \<and> pool_inv p m' fs (b # us) \<and> p \<noteq> NULL"
    using mem_pool_take_ok [of p m b fs us] by (auto simp: mem_pool_get_resume_def)
  from i show "\<exists>m'. mem_pool_get m p = Inr (Done (m', b)) \<and> pool_inv p m' fs (b # us) \<and> p \<noteq> NULL"
    using mem_pool_take_ok [of p m b fs us] pool_free_empty [of p m "b # fs" us]
    by (auto simp: mem_pool_get_def)
next
  fix m fs xs b ys
  assume "pool_inv p m fs (xs @ b # ys) \<and> p \<noteq> NULL"
  then show "\<exists>m'. mem_pool_put m p b = Inr (m', 0) \<and> pool_inv p m' (b # fs) (xs @ ys) \<and> p \<noteq> NULL"
    using mem_pool_put_ok by blast
qed

section \<open>Creating a pool\<close>

lemma and_align16: "(w AND 0xFFFFFFF0 :: u32) = push_bit 4 (drop_bit 4 w)"
proof -
  have eq: "(0xFFFFFFF0 :: u32) = push_bit 4 (mask 28)" by (simp add: mask_eq_exp_minus_1)
  show ?thesis unfolding eq by (rule bit_word_eqI) (auto simp: bit_simps)
qed

lemma uint_align16: "uint (w AND 0xFFFFFFF0 :: u32) = 16 * (uint w div 16)"
proof -
  have "16 * (uint w div 16) \<le> uint w" by simp
  moreover have "uint w < 2 ^ 32" using uint_lt2p [of w] by simp
  moreover from this have tb: "take_bit 32 (uint w) = uint w" by (intro take_bit_int_eq_self) auto
  ultimately have "take_bit 32 (16 * (uint w div 16)) = 16 * (uint w div 16)"
    by (intro take_bit_int_eq_self) (auto simp: pos_imp_zdiv_nonneg_iff)
  moreover have "uint (push_bit 4 (drop_bit 4 w)) = take_bit 32 (16 * (uint w div 16))"
    by (subst unsigned_push_bit_eq, subst unsigned_drop_bit_eq)
      (simp add: push_bit_eq_mult drop_bit_eq_div mult.commute tb)
  ultimately show ?thesis unfolding and_align16 by simp
qed

lemma sint_eq_uint32: "uint (w :: u32) \<le> INT_MAX \<Longrightarrow> sint w = uint w"
  by (simp add: INT_MAX_def sint_uint signed_take_bit_int_eq_self_iff order.trans [OF _ uint_ge_0])

lemma pool_stride_eq:
  assumes "0 \<le> sz" and "sz + 31 \<le> INT_MAX"
  shows "pool_stride sz = Inr (16 * ((sz + 15) div 16) + 16)"
proof -
  let ?s = "16 * ((sz + 15) div 16)"
  define w :: u32 where "w = word_of_int (sz + 15)"
  have "uint w = sz + 15"
    using assms unfolding w_def uint_word_of_int by (simp add: INT_MAX_def)
  then have al: "uint (w AND 0xFFFFFFF0) = ?s" by (simp add: uint_align16)
  have "?s \<le> sz + 15" using assms(1) by (simp add: mult.commute)
  then have s: "0 \<le> ?s" "?s + 16 \<le> INT_MAX" using assms by auto
  then have u: "uint ((w AND 0xFFFFFFF0) + 16) = ?s + 16"
    by (simp add: uint_word_ariths al INT_MAX_def)
  then have "sint ((w AND 0xFFFFFFF0) + 16) = ?s + 16"
    using s by (simp add: sint_eq_uint32)
  then show ?thesis
    using assms by (simp add: pool_stride_def to_int_in_range INT_MIN_def SIZEOF_LIST_HEAD_def
        w_def [symmetric] del: of_int_add)
qed

lemma two_lists_add:
  assumes "two_lists h l xs m ys" and "a \<in> dom h" and "a \<notin> insert l (set xs) \<union> insert m (set ys)"
  shows "\<exists>h'. list_add h a l = Inr h' \<and> dom h' = dom h \<and> two_lists h' l (a # xs) m ys"
proof -
  from assms have l: "dlist h l xs" and m: "dlist h m ys" and n: "h NULL = None"
    and disj: "insert m (set ys) \<inter> insert a (insert l (set xs)) = {}"
    by (auto simp: two_lists_def)
  from assms(3) have "a \<notin> insert l (set xs)" by simp
  from lh.add_ok [OF l assms(2) this] m disj obtain h' where
    "list_add h a l = Inr h'" "dom h' = dom h" "dlist h' l (a # xs)" "dlist h' m ys" by blast
  moreover from this(2) n have "h' NULL = None" by (metis domIff)
  ultimately show ?thesis using disj by (auto simp: two_lists_def)
qed

lemma create_loop_ok:
  assumes "two_lists h l xs m ys" and "0 < k"
    and "\<And>i. i < n \<Longrightarrow> c + i * k \<in> dom h \<and> c + i * k \<notin> insert l (set xs) \<union> insert m (set ys)"
  shows "\<exists>h'. create_loop n h c (int k) l = Inr h' \<and> dom h' = dom h \<and>
    two_lists h' l (rev (map (\<lambda>i. c + i * k) [0..<n]) @ xs) m ys"
  using assms
proof (induction n arbitrary: h c xs)
  case 0
  then show ?case by simp
next
  case (Suc n)
  from Suc.prems(3) [of 0] two_lists_add [OF Suc.prems(1), of c] obtain h1 where
    h1: "list_add h c l = Inr h1" "dom h1 = dom h" "two_lists h1 l (c # xs) m ys" by auto
  have "(c + k) + i * k \<in> dom h1 \<and> (c + k) + i * k \<notin> insert l (set (c # xs)) \<union> insert m (set ys)"
    if "i < n" for i
    using Suc.prems(3) [of "Suc i"] Suc.prems(2) that h1(2) by (simp add: add.assoc)
  from Suc.IH [OF h1(3) Suc.prems(2) this] obtain h' where
    h': "create_loop n h1 (c + k) (int k) l = Inr h'" "dom h' = dom h1"
    "two_lists h' l (rev (map (\<lambda>i. c + k + i * k) [0..<n]) @ c # xs) m ys" by blast
  have "map (\<lambda>i. c + i * k) [0..<Suc n] = c # map (\<lambda>i. c + k + i * k) [0..<n]"
    by (simp only: upt_conv_Cons map_Suc_upt [symmetric] zero_less_Suc) (simp add: comp_def add.assoc)
  moreover have "nat (int c + int k) = c + k" by simp
  ultimately show ?case using h1 h' by simp
qed

text \<open>The payload address of the node number \<open>i\<close>, for nodes \<open>k\<close> bytes apart.\<close>

definition buffer_at :: "ptr \<Rightarrow> nat \<Rightarrow> nat \<Rightarrow> ptr" where
  "buffer_at a k i = a + SIZEOF_MEM_POOL_ST + i * k + SIZEOF_LIST_HEAD"

lemma mem_pool_create_ok:
  assumes num: "0 < num" and sz: "0 \<le> sz" "sz + 31 \<le> INT_MAX" and a: "a \<noteq> NULL" "lists m NULL = None"
    and k: "k = nat (16 * ((sz + 15) div 16) + 16)" and total: "num * int k \<le> INT_MAX"
  shows "\<exists>m'. mem_pool_create m a num sz = Inr (m', a) \<and>
    blocks m' = (a, nat num * k + SIZEOF_MEM_POOL_ST) # blocks m \<and>
    pool_inv a m' (rev (map (buffer_at a k) [0..<nat num])) []"
proof -
  let ?n = "nat num" and ?B = "SIZEOF_MEM_POOL_ST"
  have k16: "16 \<le> k" "k mod 16 = 0" and ik: "16 * ((sz + 15) div 16) + 16 = int k"
    using sz by (auto simp: k nat_add_distrib nat_mult_distrib)
  let ?m = "malloc m a (?n * k + ?B)"
  have nk: "nat ((num * int k + int ?B) mod 2 ^ 64) = ?n * k + ?B"
    using num total by (simp add: INT_MAX_def SIZEOF_MEM_POOL_ST_def nat_add_distrib nat_mult_distrib)
  have cell: "p \<in> dom (lists ?m)" if "in_block a (?n * k + ?B) p" for p
    using that a by (auto simp: malloc_def)
  have heads: "pool_free a \<in> dom (lists ?m)" "pool_use a \<in> dom (lists ?m)"
    by (rule cell; simp add: in_block_def pool_free_def pool_use_def SIZEOF_LIST_HEAD_def SIZEOF_MEM_POOL_ST_def)+
  obtain h1 where h1: "INIT_LIST_HEAD (lists ?m) (pool_free a) = Inr h1" "dom h1 = dom (lists ?m)"
    "dlist h1 (pool_free a) []"
    using INIT_LIST_HEAD_law [OF heads(1)] by (auto simp: lists_to_def)
  have "pool_use a \<in> dom h1" using heads(2) h1(2) by simp
  from INIT_LIST_HEAD_law [OF this] obtain h2 where
    h2: "INIT_LIST_HEAD h1 (pool_use a) = Inr h2" "dom h2 = dom (lists ?m)" "dlist h2 (pool_use a) []"
    "dlist h2 (pool_free a) []"
    using h1(2,3) by (auto elim!: lists_to_other
        simp: pool_use_def pool_free_def SIZEOF_LIST_HEAD_def)
  have "lists ?m NULL = None" using a by (simp add: malloc_def in_block_def)
  then have "h2 NULL = None" using h2(2) by (metis domIff)
  then have two: "two_lists h2 (pool_free a) [] (pool_use a) []"
    using h2 by (simp add: two_lists_def pool_free_def pool_use_def SIZEOF_LIST_HEAD_def)
  have cells: "a + ?B + i * k \<in> dom h2 \<and>
      a + ?B + i * k \<notin> insert (pool_free a) (set []) \<union> insert (pool_use a) (set [])" if "i < ?n" for i
  proof -
    have "Suc i * k \<le> ?n * k" using that by (intro mult_le_mono1) simp
    then have "in_block a (?n * k + ?B) (a + ?B + i * k)"
      using k16 by (simp add: in_block_def SIZEOF_MEM_POOL_ST_def SIZEOF_LIST_HEAD_def mod_eq_0_iff_dvd)
    from cell [OF this] h2(2) show ?thesis
      by (simp add: pool_free_def pool_use_def SIZEOF_MEM_POOL_ST_def SIZEOF_LIST_HEAD_def)
  qed
  have "0 < k" using k16 by simp
  from create_loop_ok [OF two this cells] obtain h3 where
    h3: "create_loop ?n h2 (a + ?B) (int k) (pool_free a) = Inr h3"
    "two_lists h3 (pool_free a) (rev (map (\<lambda>i. a + ?B + i * k) [0..<?n]) @ []) (pool_use a) []" by blast
  have "0 \<le> num * int k" using num by simp
  then have "to_int (num * int k) = Inr (num * int k)"
    using total by (intro to_int_in_range) (simp_all add: INT_MIN_def)
  then have "mem_pool_create m a num sz = Inr (?m\<lparr>lists := h3\<rparr>, a)"
    using num h1 h2 h3 by (simp add: mem_pool_create_def pool_stride_eq [OF sz] ik Let_def nk [simplified]
        del: of_nat_add of_nat_mult)
  moreover have "map node_of (rev (map (buffer_at a k) [0..<?n])) = rev (map (\<lambda>i. a + ?B + i * k) [0..<?n])"
    by (simp add: node_of_def buffer_at_def rev_map)
  then have "pool_inv a (?m\<lparr>lists := h3\<rparr>) (rev (map (buffer_at a k) [0..<?n])) []"
    using h3(2) by (simp add: pool_inv_def buffer_at_def)
  ultimately show ?thesis using a by (simp add: malloc_def)
qed

section \<open>Waking up without a free buffer\<close>

text \<open>
  What the two list operations do when the entry is the list head itself, the case the
  laws above exclude: the code reaches it when \<^verbatim>\<open>pthread_cond_wait\<close> returns while
  the free list is empty.
\<close>

lemma list_del_run:
  "pv h e = Some p \<Longrightarrow> nx h e = Some n \<Longrightarrow> p \<in> dom h \<Longrightarrow> n \<in> dom h \<Longrightarrow>
   list_del h e = Inr (upd_prev (upd_next (upd_next (upd_prev h n p) p n) e LIST_POISON1) e LIST_POISON2)"
  using nx_dom [of h e n] by (simp add: list_del_def list_del_between_def lheap_simps)

lemma list_add_run:
  "nx h l = Some n \<Longrightarrow> n \<in> dom h \<Longrightarrow> a \<in> dom h \<Longrightarrow>
   list_add h a l = Inr (upd_next (upd_prev (upd_next (upd_prev h n a) a n) a l) l a)"
  using nx_dom [of h l n] by (simp add: list_add_def list_add_between_def lheap_simps)

lemma mem_pool_take_run:
  assumes "get_next (lists m) (pool_free p) = Inr e" and "list_del (lists m) e = Inr h1"
    and "list_add h1 e (pool_use p) = Inr h2"
  shows "mem_pool_take m p = Inr (m\<lparr>lists := h2\<rparr>, e + SIZEOF_LIST_HEAD)"
  using assms by (simp add: mem_pool_take_def with_lists_def)

lemma spurious_wakeup:
  assumes "pool_inv p m [] (u # us)"
  shows "\<exists>m'. mem_pool_get_resume m p = Inr (m', pool_use p) \<and>
    nx (lists m') (pool_free p) = Some (node_of u) \<and> pv (lists m') (node_of u) = Some (pool_free p) \<and>
    nx (lists m') (node_of u) = nx (lists m) (node_of u) \<and>
    nx (lists m') (pool_use p) = Some (pool_free p) \<and> dom (lists m') = dom (lists m)"
proof -
  let ?h = "lists m" and ?F = "pool_free p" and ?U = "pool_use p" and ?n = "node_of u"
  note l = pool_inv_lists(1,2) [OF assms]
  have F: "nx ?h ?F = Some ?F" "pv ?h ?F = Some ?F" "?F \<in> dom ?h"
    using dlist_head_next [OF l(1)] dlist_head_prev [OF l(1)] dlist_dom [OF l(1)] by auto
  have U: "nx ?h ?U = Some ?n" "?U \<in> dom ?h" "?n \<in> dom ?h"
    using dlist_head_next [OF l(2)] dlist_dom [OF l(2)] by simp_all
  have ne: "?F \<noteq> ?U" "?F \<noteq> ?n" "?n \<noteq> ?U"
    using assms dlist_distinct [OF l(2)] by (auto simp: pool_inv_def two_lists_def)
  define h1 where "h1 = upd_prev (upd_next (upd_next (upd_prev ?h ?F ?F) ?F ?F) ?F LIST_POISON1) ?F LIST_POISON2"
  have h1: "list_del ?h ?F = Inr h1" "dom h1 = dom ?h" "nx h1 ?U = Some ?n" "nx h1 ?n = nx ?h ?n"
    using F U ne by (simp_all add: list_del_run h1_def lheap_simps)
  define h2 where "h2 = upd_next (upd_prev (upd_next (upd_prev h1 ?n ?F) ?F ?n) ?F ?U) ?U ?F"
  have h2: "list_add h1 ?F ?U = Inr h2"
    using F U h1 by (simp add: list_add_run h2_def)
  have "mem_pool_take m p = Inr (m\<lparr>lists := h2\<rparr>, ?F + SIZEOF_LIST_HEAD)"
    using F h1 h2 by (intro mem_pool_take_run) (simp_all add: lheap_simps)
  then show ?thesis
    using F U h1 ne by (simp add: mem_pool_get_resume_def pool_free_def pool_use_def h2_def lheap_simps)
qed

lemma pool_take_after_spurious:
  assumes n: "nx (lists m) (pool_free p) = Some n" "pv (lists m) n = Some (pool_free p)"
    "nx (lists m) n = Some k" "k \<in> dom (lists m)" "n \<noteq> pool_free p" "n \<noteq> pool_use p"
    and u: "nx (lists m) (pool_use p) = Some (pool_free p)" "pool_free p \<noteq> pool_use p"
  shows "\<exists>m'. mem_pool_get m p = Inr (Done (m', n + SIZEOF_LIST_HEAD))"
proof -
  let ?h = "lists m" and ?F = "pool_free p" and ?U = "pool_use p"
  define h1 where "h1 = upd_prev (upd_next (upd_next (upd_prev ?h k ?F) ?F k) n LIST_POISON1) n LIST_POISON2"
  have F: "?F \<in> dom ?h" "n \<in> dom ?h" using n by (auto dest: nx_dom)
  have h1: "list_del ?h n = Inr h1" "dom h1 = dom ?h" "nx h1 ?U = Some ?F"
    using n u F by (simp_all add: list_del_run h1_def lheap_simps)
  have "list_add h1 n ?U = Inr (upd_next (upd_prev (upd_next (upd_prev h1 ?F n) n ?F) n ?U) ?U n)"
    using F h1 by (intro list_add_run) auto
  from mem_pool_take_run [OF get_next_eq [OF n(1)] h1(1) this] n(1,5) show ?thesis
    by (simp add: mem_pool_get_def list_empty_def lheap_simps)
qed

section \<open>Cloned buffers\<close>

lemma mem_pool_clone_ok:
  assumes a: "a \<noteq> NULL" and sz: "0 \<le> sz" "sz \<le> INT_MAX" and src: "valid_range m node (nat sz)"
  shows "\<exists>m'. mem_pool_clone m a node sz = Inr (m', a + SIZEOF_LIST_HEAD) \<and>
    lists m' = (lists (malloc m a (nat sz + SIZEOF_LIST_HEAD)))(a \<mapsto> (junk m a)\<lparr>lh_prev := NULL, lh_next := NULL\<rparr>) \<and>
    blocks m' = (a, nat sz + SIZEOF_LIST_HEAD) # blocks m \<and>
    (\<forall>q. bytes m' q = (if a + SIZEOF_LIST_HEAD \<le> q \<and> q < a + SIZEOF_LIST_HEAD + nat sz
                       then bytes m (node + (q - (a + SIZEOF_LIST_HEAD))) else bytes m q))"
proof -
  let ?m = "malloc m a (nat sz + SIZEOF_LIST_HEAD)"
  have n: "nat ((sz + int SIZEOF_LIST_HEAD) mod 2 ^ 64) = nat sz + SIZEOF_LIST_HEAD"
    "nat (sz mod 2 ^ 64) = nat sz"
    using sz by (simp_all add: INT_MAX_def SIZEOF_LIST_HEAD_def nat_add_distrib)
  have cell: "lists ?m a = Some (junk m a)" "blocks ?m = (a, nat sz + SIZEOF_LIST_HEAD) # blocks m"
    "bytes ?m = bytes m"
    using a by (simp_all add: malloc_def in_block_def)
  have "valid_range (?m\<lparr>lists := h\<rparr>) node (nat sz)"
    "valid_range (?m\<lparr>lists := h\<rparr>) (a + SIZEOF_LIST_HEAD) (nat sz)" for h
    using src by (simp_all add: valid_range_def cell)
  then show ?thesis
    using a cell by (simp add: mem_pool_clone_def Let_def n [simplified] with_lists_def set_prev_def
        set_next_def memcpy_def)
qed

section \<open>Properties\<close>

text \<open>Memory with a pool at 1024 (nodes 48 bytes apart): 1072 is free, 1120 and 1168 are used.\<close>

definition ex_mem :: mem where
  "ex_mem = \<lparr>lists = [1024 \<mapsto> \<lparr>lh_next = 1056, lh_prev = 1056\<rparr>, 1056 \<mapsto> \<lparr>lh_next = 1024, lh_prev = 1024\<rparr>,
     1040 \<mapsto> \<lparr>lh_next = 1104, lh_prev = 1152\<rparr>, 1104 \<mapsto> \<lparr>lh_next = 1152, lh_prev = 1040\<rparr>,
     1152 \<mapsto> \<lparr>lh_next = 1040, lh_prev = 1104\<rparr>],
     bytes = (\<lambda>p. word_of_nat p), blocks = [(1024, 176)], junk = (\<lambda>_. \<lparr>lh_next = 7, lh_prev = 9\<rparr>)\<rparr>"

lemma ex_mem_pool: "pool_inv 1024 ex_mem [1072] [1120, 1168]"
  by (simp add: pool_inv_def two_lists_def dlist_def ex_mem_def lnk_def nx_def pv_def pool_free_def
      pool_use_def node_of_def SIZEOF_LIST_HEAD_def)

definition ex_drained :: mem where
  "ex_drained = ex_mem\<lparr>lists := (lists ex_mem)(1024 \<mapsto> \<lparr>lh_next = 1024, lh_prev = 1024\<rparr>)\<rparr>"

lemma ex_drained_pool: "pool_inv 1024 ex_drained [] [1120, 1168]"
  by (simp add: pool_inv_def two_lists_def dlist_def ex_drained_def ex_mem_def lnk_def nx_def pv_def
      pool_free_def pool_use_def node_of_def SIZEOF_LIST_HEAD_def)

text \<open>C31: mem_pool_create builds a pool of \<open>num\<close> free buffers and no used one; the buffers lie
  inside the block it allocated, in order, and no buffer of \<open>sz\<close> bytes reaches into the
  list cell of the next one.\<close>
theorem mem_pool_create_pool:
  assumes "0 < num" and "0 \<le> sz" "sz + 31 \<le> INT_MAX" and "a \<noteq> NULL" "lists m NULL = None"
    and k: "k = nat (16 * ((sz + 15) div 16) + 16)" and "num * int k \<le> INT_MAX"
  shows "\<exists>m'. mem_pool_create m a num sz = Inr (m', a) \<and>
    pool_inv a m' (rev (map (buffer_at a k) [0..<nat num])) [] \<and>
    map_of (blocks m') a = Some (nat num * k + SIZEOF_MEM_POOL_ST) \<and>
    (\<forall>i. Suc i < nat num \<longrightarrow> buffer_at a k i + nat sz \<le> node_of (buffer_at a k (Suc i))) \<and>
    buffer_at a k (nat num - 1) + nat sz \<le> a + (nat num * k + SIZEOF_MEM_POOL_ST)"
proof -
  have k: "nat sz + 16 \<le> k" using assms(2) by (simp add: k nat_add_distrib nat_mult_distrib)
  have "(nat num - 1) * k + k = nat num * k"
    using assms(1) by (cases "nat num") (auto simp: zero_less_nat_eq)
  with k have "buffer_at a k (nat num - 1) + nat sz \<le> a + (nat num * k + SIZEOF_MEM_POOL_ST)"
    by (simp add: buffer_at_def SIZEOF_LIST_HEAD_def)
  moreover have "buffer_at a k i + nat sz \<le> node_of (buffer_at a k (Suc i))" for i
    using k by (simp add: buffer_at_def node_of_def SIZEOF_LIST_HEAD_def)
  ultimately show ?thesis using mem_pool_create_ok [OF assms] by auto
qed

theorem mem_pool_create_pool_witness:
  "\<exists>m'. mem_pool_create (ex_mem\<lparr>lists := Map.empty, blocks := []\<rparr>) 4096 2 20 = Inr (m', 4096) \<and>
    pool_inv 4096 m' (rev (map (buffer_at 4096 48) [0..<nat 2])) [] \<and>
    map_of (blocks m') 4096 = Some (nat 2 * 48 + SIZEOF_MEM_POOL_ST) \<and>
    (\<forall>i. Suc i < nat 2 \<longrightarrow> buffer_at 4096 48 i + nat 20 \<le> node_of (buffer_at 4096 48 (Suc i))) \<and>
    buffer_at 4096 48 (nat 2 - 1) + nat 20 \<le> 4096 + (nat 2 * 48 + SIZEOF_MEM_POOL_ST)"
  by (rule mem_pool_create_pool) (simp_all add: INT_MAX_def)

text \<open>C14: mem_pool_get hands out the first free buffer, never one in use, and waits exactly when
  there is none; the buffer it hands out, given back with mem_pool_put, is the first free one
  again and both lists are as before.\<close>
theorem mem_pool_get_put:
  assumes "pool_inv p m fs us" and "p \<noteq> NULL"
  shows "case fs of
      [] \<Rightarrow> mem_pool_get m p = Inr Wait
    | b # fs' \<Rightarrow> b \<notin> set us \<and> (\<exists>m1 m2. mem_pool_get m p = Inr (Done (m1, b)) \<and> pool_inv p m1 fs' (b # us) \<and>
        mem_pool_put m1 p b = Inr (m2, 0) \<and> pool_inv p m2 (b # fs') us)"
proof (cases fs)
  case Nil
  with assms mp.get_empty [of p m us] show ?thesis by simp
next
  case (Cons b fs')
  with assms mp.get_free [of p m b fs' us] obtain m1 where m1: "mem_pool_get m p = Inr (Done (m1, b))"
    "pool_inv p m1 fs' (b # us)" by auto
  moreover from m1(2) assms(2) mp.put_used [of p m1 fs' "[]" b us] obtain m2 where
    "mem_pool_put m1 p b = Inr (m2, 0)" "pool_inv p m2 (b # fs') us" by auto
  ultimately show ?thesis using mp.get_fresh [of p m fs us m1 b] assms Cons by auto
qed

theorem mem_pool_get_put_witness:
  "1072 \<notin> set [1120, 1168::nat] \<and> (\<exists>m1 m2. mem_pool_get ex_mem 1024 = Inr (Done (m1, 1072)) \<and>
     pool_inv 1024 m1 [] [1072, 1120, 1168] \<and> mem_pool_put m1 1024 1072 = Inr (m2, 0) \<and>
     pool_inv 1024 m2 [1072] [1120, 1168])"
  using mem_pool_get_put [OF ex_mem_pool] by simp

text \<open>the wait of mem_pool_get is not repeated: a wake-up that finds the free list still empty
  (a spurious one) returns the address of the used list's head as a buffer, and the call after
  it hands out a buffer that is already in use.\<close>
theorem mem_pool_get_spurious_wakeup:
  assumes "pool_inv p m [] (u # us)"
  shows "mem_pool_get m p = Inr Wait \<and>
    (\<exists>m1 m2. mem_pool_get_resume m p = Inr (m1, pool_use p) \<and> mem_pool_get m1 p = Inr (Done (m2, u)))"
proof -
  note l = pool_inv_lists(2) [OF assms]
  have ne: "node_of u \<noteq> pool_free p" "node_of u \<noteq> pool_use p" "pool_free p \<noteq> pool_use p"
    using assms dlist_distinct [OF l] by (auto simp: pool_inv_def two_lists_def)
  obtain k where k: "nx (lists m) (node_of u) = Some k" "k \<in> dom (lists m)"
    using dlist_entry_neighbours(1,7) [of "lists m" "pool_use p" "[]" "node_of u" "map node_of us"] l by simp
  from spurious_wakeup [OF assms] obtain m1 where m1: "mem_pool_get_resume m p = Inr (m1, pool_use p)"
    "nx (lists m1) (pool_free p) = Some (node_of u)" "pv (lists m1) (node_of u) = Some (pool_free p)"
    "nx (lists m1) (node_of u) = nx (lists m) (node_of u)"
    "nx (lists m1) (pool_use p) = Some (pool_free p)" "dom (lists m1) = dom (lists m)" by blast
  have "node_of u + SIZEOF_LIST_HEAD = u" using pool_inv_lists(4) [OF assms] by (simp add: node_of_payload)
  with pool_take_after_spurious [OF m1(2,3) _ _ ne(1,2) m1(5) ne(3)] k m1 pool_free_empty [OF assms]
  show ?thesis by (simp add: mem_pool_get_def)
qed

theorem mem_pool_get_spurious_wakeup_witness:
  "mem_pool_get ex_drained 1024 = Inr Wait \<and>
   (\<exists>m1 m2. mem_pool_get_resume ex_drained 1024 = Inr (m1, pool_use 1024) \<and>
     mem_pool_get m1 1024 = Inr (Done (m2, 1120)))"
  by (rule mem_pool_get_spurious_wakeup [OF ex_drained_pool])

text \<open>a clone holds the bytes of the original, and mem_pool_put, which knows a clone by its
  two null links, frees it: the allocated blocks and the list cells are those before the clone,
  whatever pool it is put to.\<close>
theorem mem_pool_clone_put_frees:
  assumes a: "a \<noteq> NULL" "a \<notin> fst ` set (blocks m)"
      "\<forall>q \<in> {a..a + nat sz}. in_block a (nat sz + SIZEOF_LIST_HEAD) q \<longrightarrow> lists m q = None"
    and sz: "0 \<le> sz" "sz \<le> INT_MAX" and src: "valid_range m node (nat sz)" and p: "p \<noteq> NULL"
  shows "\<exists>m1 m2. mem_pool_clone m a node sz = Inr (m1, a + SIZEOF_LIST_HEAD) \<and>
    map (bytes m1) [a + SIZEOF_LIST_HEAD ..< a + SIZEOF_LIST_HEAD + nat sz] = map (bytes m) [node ..< node + nat sz] \<and>
    mem_pool_put m1 p (a + SIZEOF_LIST_HEAD) = Inr (m2, 0) \<and>
    lists m2 = lists m \<and> blocks m2 = blocks m"
proof -
  from mem_pool_clone_ok [OF a(1) sz src] obtain m1 where m1:
    "mem_pool_clone m a node sz = Inr (m1, a + SIZEOF_LIST_HEAD)"
    "lists m1 = (lists (malloc m a (nat sz + SIZEOF_LIST_HEAD)))(a \<mapsto> (junk m a)\<lparr>lh_prev := NULL, lh_next := NULL\<rparr>)"
    "blocks m1 = (a, nat sz + SIZEOF_LIST_HEAD) # blocks m"
    "\<forall>q. bytes m1 q = (if a + SIZEOF_LIST_HEAD \<le> q \<and> q < a + SIZEOF_LIST_HEAD + nat sz
       then bytes m (node + (q - (a + SIZEOF_LIST_HEAD))) else bytes m q)" by blast
  have fl: "filter (\<lambda>(b, _). b \<noteq> a) (blocks m) = blocks m"
    using a(2) by (auto simp: filter_id_conv image_iff)
  have cells: "(\<lambda>q. if in_block a (nat sz + SIZEOF_LIST_HEAD) q then None else lists m1 q) = lists m"
    using a(1,3) by (auto simp: m1(2) malloc_def in_block_def fun_eq_iff)
  obtain m2 where m2: "free_block m1 a = Inr m2" "lists m2 = lists m" "blocks m2 = blocks m"
    by (simp add: free_block_def m1(3) fl cells)
  have "mem_pool_put m1 p (a + SIZEOF_LIST_HEAD) = Inr (m2, 0)"
    using p m2(1) by (simp add: mem_pool_put_def m1(2) get_prev_def get_next_def SIZEOF_LIST_HEAD_def)
  moreover have "map (bytes m1) [a + SIZEOF_LIST_HEAD ..< a + SIZEOF_LIST_HEAD + nat sz] =
      map (bytes m) [node ..< node + nat sz]"
    by (intro nth_equalityI) (simp_all add: m1(4))
  ultimately show ?thesis using m1(1) m2(2,3) by blast
qed

theorem mem_pool_clone_put_frees_witness:
  "\<exists>m1 m2. mem_pool_clone ex_mem 8192 1072 32 = Inr (m1, 8192 + SIZEOF_LIST_HEAD) \<and>
    map (bytes m1) [8192 + SIZEOF_LIST_HEAD ..< 8192 + SIZEOF_LIST_HEAD + nat 32] =
      map (bytes ex_mem) [1072 ..< 1072 + nat 32] \<and>
    mem_pool_put m1 1024 (8192 + SIZEOF_LIST_HEAD) = Inr (m2, 0) \<and>
    lists m2 = lists ex_mem \<and> blocks m2 = blocks ex_mem"
  by (rule mem_pool_clone_put_frees) (simp_all add: ex_mem_def INT_MAX_def valid_range_def)

end
