(* ===== verification/Fifo.thy ===== *)
theory Fifo
  imports Prelude
begin

text \<open>
  The contract the two packet queues share: what is put in comes out, in order. A queue
  is known by the list it represents; putting needs something the environment supplies
  (a memory cell, a free slot), which the predicate \<open>avail\<close> describes.
\<close>

datatype ('r, 'a) qop = Put 'r 'a | Get

fun puts :: "('r, 'a) qop list \<Rightarrow> 'a list" where
  "puts [] = []"
| "puts (Put r x # ops) = x # puts ops"
| "puts (Get # ops) = puts ops"

text \<open>
  \<open>qrun avail put get s ops outs s'\<close>: the operations \<open>ops\<close> lead from \<open>s\<close> to \<open>s'\<close>,
  and the gets among them that found something returned \<open>outs\<close>.
\<close>

inductive qrun :: "('s \<Rightarrow> 'r \<Rightarrow> bool) \<Rightarrow> ('s \<Rightarrow> 'r \<Rightarrow> 'a \<Rightarrow> ('s \<times> int) res) \<Rightarrow>
    ('s \<Rightarrow> ('s \<times> 'a) option res) \<Rightarrow> 's \<Rightarrow> ('r, 'a) qop list \<Rightarrow> 'a list \<Rightarrow> 's \<Rightarrow> bool"
  for avail put get where
  qrun_done: "qrun avail put get s [] [] s"
| qrun_put: "avail s r \<Longrightarrow> put s r x = Inr (s1, c) \<Longrightarrow> qrun avail put get s1 ops outs s' \<Longrightarrow>
    qrun avail put get s (Put r x # ops) outs s'"
| qrun_get: "get s = Inr (Some (s1, x)) \<Longrightarrow> qrun avail put get s1 ops outs s' \<Longrightarrow>
    qrun avail put get s (Get # ops) (x # outs) s'"
| qrun_get_none: "get s = Inr None \<Longrightarrow> qrun avail put get s ops outs s' \<Longrightarrow>
    qrun avail put get s (Get # ops) outs s'"

locale fifo =
  fixes rep :: "'s \<Rightarrow> 'a list \<Rightarrow> bool"
    and avail :: "'s \<Rightarrow> 'r \<Rightarrow> bool"
    and put :: "'s \<Rightarrow> 'r \<Rightarrow> 'a \<Rightarrow> ('s \<times> int) res"
    and get :: "'s \<Rightarrow> ('s \<times> 'a) option res"
  assumes put_ok: "rep s xs \<Longrightarrow> avail s r \<Longrightarrow> \<exists>s'. put s r x = Inr (s', 0) \<and> rep s' (xs @ [x])"
    and get_ok: "rep s (x # xs) \<Longrightarrow> \<exists>s'. get s = Inr (Some (s', x)) \<and> rep s' xs"
    and get_empty: "rep s [] \<Longrightarrow> get s = Inr None"
begin

lemma get_cases:
  assumes "rep s xs"
  shows "\<exists>s'. get s = Inr (case xs of [] \<Rightarrow> None | x # _ \<Rightarrow> Some (s', x)) \<and> (xs \<noteq> [] \<longrightarrow> rep s' (tl xs))"
  using assms get_ok get_empty by (cases xs) auto

text \<open>Whatever is run, the outputs followed by what is left are the inputs, in order.\<close>

lemma run_order:
  assumes "qrun avail put get s ops outs s'" and "rep s xs"
  shows "\<exists>ys. rep s' ys \<and> xs @ puts ops = outs @ ys"
  using assms
proof (induction arbitrary: xs rule: qrun.induct)
  case (qrun_done s)
  then show ?case by simp
next
  case (qrun_put s r x s1 c ops outs s')
  from put_ok [OF qrun_put.prems qrun_put.hyps(1), of x] qrun_put.hyps(2) have "rep s1 (xs @ [x])" by auto
  from qrun_put.IH [OF this] show ?case by simp
next
  case (qrun_get s s1 x ops outs s')
  from qrun_get.prems qrun_get.hyps(1) obtain ys where "xs = x # ys" "rep s1 ys"
    using get_ok get_empty by (cases xs) fastforce+
  with qrun_get.IH [OF this(2)] show ?case by simp
next
  case (qrun_get_none s ops outs s')
  from qrun_get_none.IH [OF qrun_get_none.prems] show ?case by simp
qed

text \<open>A get finds nothing only when everything put in has come out.\<close>

lemma run_drained:
  assumes "qrun avail put get s ops outs s'" and "rep s []" and "get s' = Inr None"
  shows "outs = puts ops"
proof -
  from run_order [OF assms(1,2)] obtain ys where ys: "rep s' ys" "puts ops = outs @ ys" by auto
  with assms(3) get_ok have "ys = []" by (cases ys) fastforce+
  with ys show ?thesis by simp
qed

end

end
