(* ===== verification/ListQueue.thy ===== *)
theory ListQueue
  imports Fifo
begin

text \<open>
  The packet queue of \<^verbatim>\<open>src/src/queue.c\<close>, functions \<^verbatim>\<open>list_queue_*\<close>: a singly
  linked chain of \<^verbatim>\<open>MyList\<close> cells with a pointer to each end, a count and an abort
  flag. The queue mutex makes each operation one atomic step; a wait on the condition
  variable is an outcome of its own, and the loop around it tests everything again.
\<close>

section \<open>State\<close>

record mylist =
  ml_pkt :: ptr
  ml_next :: ptr

text \<open>
  \<open>lq_cells\<close> are the allocated \<^verbatim>\<open>MyList\<close> cells; the other fields are those of
  \<^verbatim>\<open>struct ListQueue\<close>, \<open>lq_signals\<close> counts the calls of
  \<^verbatim>\<open>pthread_cond_signal\<close>.
\<close>

record list_queue =
  lq_cells :: "ptr \<rightharpoonup> mylist"
  lq_first :: ptr
  lq_last :: ptr
  lq_num :: int
  lq_abort :: int
  lq_signals :: nat

definition ml_set_next :: "(ptr \<rightharpoonup> mylist) \<Rightarrow> ptr \<Rightarrow> ptr \<Rightarrow> (ptr \<rightharpoonup> mylist) res" where
  "ml_set_next h p v =
     (case h p of None \<Rightarrow> Inl (BadPtr p) | Some c \<Rightarrow> Inr (h(p \<mapsto> c\<lparr>ml_next := v\<rparr>)))"

definition lq_signal :: "list_queue \<Rightarrow> list_queue" where
  "lq_signal q = q\<lparr>lq_signals := Suc (lq_signals q)\<rparr>"

section \<open>Operations\<close>

text \<open>
  \<open>a\<close> is the address \<^verbatim>\<open>malloc\<close> returns for the new cell, \<^verbatim>\<open>NULL\<close> when it fails.
\<close>

definition list_queue_put_private :: "list_queue \<Rightarrow> ptr \<Rightarrow> ptr \<Rightarrow> (list_queue \<times> int) res" where
  "list_queue_put_private q pkt a =
     (if lq_abort q \<noteq> 0 then Inr (q, -1)
      else if a = NULL then Inr (q, -1)
      else
        let h = (lq_cells q)(a \<mapsto> \<lparr>ml_pkt = pkt, ml_next = NULL\<rparr>) in
        bindR (if lq_last q = NULL then Inr (q\<lparr>lq_cells := h, lq_first := a\<rparr>)
               else bindR (ml_set_next h (lq_last q) a) (\<lambda>h. Inr (q\<lparr>lq_cells := h\<rparr>))) (\<lambda>q.
        bindR (to_int (lq_num q + 1)) (\<lambda>n.
        Inr (lq_signal (q\<lparr>lq_last := a, lq_num := n\<rparr>), 0))))"

definition list_queue_put :: "list_queue \<Rightarrow> ptr \<Rightarrow> ptr \<Rightarrow> (list_queue \<times> int) res" where
  "list_queue_put q pkt a = list_queue_put_private q pkt a"

definition list_queue_init :: "list_queue \<Rightarrow> list_queue \<times> int" where
  "list_queue_init q =
     (q\<lparr>lq_first := NULL, lq_last := NULL, lq_num := 0, lq_signals := 0, lq_abort := 1\<rparr>, 0)"

text \<open>
  The loop of \<^verbatim>\<open>list_queue_flush\<close>: each round reads the next pointer and frees the
  cell. A damaged chain need not end, so the loop is a partial function.
\<close>

partial_function (option) flush_loop :: "(ptr \<rightharpoonup> mylist) \<Rightarrow> ptr \<Rightarrow> (ptr \<rightharpoonup> mylist) res option" where
  "flush_loop h pkt =
     (if pkt = NULL then Some (Inr h)
      else case h pkt of
             None \<Rightarrow> Some (Inl (BadPtr pkt))
           | Some c \<Rightarrow> flush_loop (h(pkt := None)) (ml_next c))"

definition list_queue_flush :: "list_queue \<Rightarrow> list_queue res option" where
  "list_queue_flush q =
     (case flush_loop (lq_cells q) (lq_first q) of
        None \<Rightarrow> None
      | Some r \<Rightarrow> Some (bindR r (\<lambda>h.
          Inr (q\<lparr>lq_cells := h, lq_last := NULL, lq_first := NULL, lq_num := 0\<rparr>))))"

definition list_queue_destroy :: "list_queue \<Rightarrow> list_queue res option" where
  "list_queue_destroy q = list_queue_flush q"

definition list_queue_abort :: "list_queue \<Rightarrow> list_queue" where
  "list_queue_abort q = lq_signal (q\<lparr>lq_abort := 1\<rparr>)"

text \<open>
  One round of the loop of \<^verbatim>\<open>list_queue_get\<close>: the return value and what the
  caller's \<^verbatim>\<open>*pkt\<close> holds afterwards (it is written only when a packet is returned),
  or the wait, after which the loop starts over.
\<close>

datatype get_outcome = Got list_queue int ptr | GetWait

definition list_queue_get :: "list_queue \<Rightarrow> ptr \<Rightarrow> int \<Rightarrow> get_outcome res" where
  "list_queue_get q pkt block =
     (if lq_abort q \<noteq> 0 then Inr (Got q (-1) pkt)
      else
        let pkt1 = lq_first q in
        if pkt1 \<noteq> NULL
        then case lq_cells q pkt1 of
               None \<Rightarrow> Inl (BadPtr pkt1)
             | Some c \<Rightarrow>
                 let q = q\<lparr>lq_first := ml_next c\<rparr>;
                     q = (if lq_first q = NULL then q\<lparr>lq_last := NULL\<rparr> else q)
                 in bindR (to_int (lq_num q - 1)) (\<lambda>n.
                    Inr (Got (q\<lparr>lq_num := n, lq_cells := (lq_cells q)(pkt1 := None)\<rparr>) 1 (ml_pkt c)))
        else if block = 0 then Inr (Got q 0 pkt)
        else Inr GetWait)"

section \<open>The list a queue represents\<close>

text \<open>\<open>seg h p ps q\<close>: the cells \<open>ps\<close> lead from \<open>p\<close> to \<open>q\<close>.\<close>

fun seg :: "(ptr \<rightharpoonup> mylist) \<Rightarrow> ptr \<Rightarrow> ptr list \<Rightarrow> ptr \<Rightarrow> bool" where
  "seg h p [] q \<longleftrightarrow> p = q"
| "seg h p (a # as) q \<longleftrightarrow>
     p = a \<and> a \<noteq> NULL \<and> (case h a of None \<Rightarrow> False | Some c \<Rightarrow> seg h (ml_next c) as q)"

definition pkt_at :: "(ptr \<rightharpoonup> mylist) \<Rightarrow> ptr \<Rightarrow> ptr" where
  "pkt_at h p = (case h p of None \<Rightarrow> NULL | Some c \<Rightarrow> ml_pkt c)"

definition lq_cells_are :: "list_queue \<Rightarrow> ptr list \<Rightarrow> bool" where
  "lq_cells_are q ps \<longleftrightarrow>
     seg (lq_cells q) (lq_first q) ps NULL \<and> distinct ps \<and>
     lq_last q = (if ps = [] then NULL else last ps) \<and> lq_num q = int (length ps)"

text \<open>The abstract value of a queue: the packets waiting in it, oldest first.\<close>

definition lq_rep :: "list_queue \<Rightarrow> ptr list \<Rightarrow> bool" where
  "lq_rep q xs \<longleftrightarrow> (\<exists>ps. lq_cells_are q ps \<and> xs = map (pkt_at (lq_cells q)) ps)"

lemma seg_append: "seg h p (as @ bs) q \<longleftrightarrow> (\<exists>r. seg h p as r \<and> seg h r bs q)"
  by (induction as arbitrary: p) (auto split: option.splits)

lemma seg_upd: "a \<notin> set ps \<Longrightarrow> seg (h(a := v)) p ps q \<longleftrightarrow> seg h p ps q"
  by (induction ps arbitrary: p) (auto split: option.splits)

lemma seg_cells: "seg h p ps q \<Longrightarrow> x \<in> set ps \<Longrightarrow> \<exists>c. h x = Some c"
  by (induction ps arbitrary: p) (auto split: option.splits)

lemma pkt_at_upd [simp]: "p \<noteq> a \<Longrightarrow> pkt_at (h(a := v)) p = pkt_at h p"
  by (simp add: pkt_at_def)

lemma pkt_at_upd_map: "a \<notin> set ps \<Longrightarrow> map (pkt_at (h(a := v))) ps = map (pkt_at h) ps"
  by (auto intro!: map_cong pkt_at_upd)

text \<open>What supplies a put: a cell that is not in use, and a count that does not overflow.\<close>

definition lq_avail :: "list_queue \<Rightarrow> ptr \<Rightarrow> bool" where
  "lq_avail q a \<longleftrightarrow> a \<noteq> NULL \<and> lq_cells q a = None \<and> lq_num q < INT_MAX"

lemma put_empty_cells:
  assumes "lq_cells_are q []" and "lq_avail q a" and "lq_abort q = 0"
  shows "\<exists>q'. list_queue_put q x a = Inr (q', 0) \<and> lq_cells_are q' [a] \<and>
    lq_cells q' = (lq_cells q)(a \<mapsto> \<lparr>ml_pkt = x, ml_next = NULL\<rparr>) \<and> lq_abort q' = 0 \<and>
    lq_signals q' = Suc (lq_signals q)"
  using assms by (simp add: list_queue_put_def list_queue_put_private_def lq_cells_are_def lq_avail_def
      to_int_def INT_MIN_def INT_MAX_def lq_signal_def)

lemma put_snoc_cells:
  assumes q: "lq_cells_are q (ps @ [l])" and a: "lq_avail q a" and ab: "lq_abort q = 0"
  shows "\<exists>q' c. list_queue_put q x a = Inr (q', 0) \<and> lq_cells_are q' (ps @ [l, a]) \<and>
    lq_cells q l = Some c \<and>
    lq_cells q' = (lq_cells q)(a \<mapsto> \<lparr>ml_pkt = x, ml_next = NULL\<rparr>, l \<mapsto> c\<lparr>ml_next := a\<rparr>) \<and>
    lq_abort q' = 0 \<and> lq_signals q' = Suc (lq_signals q)"
proof -
  let ?h = "lq_cells q"
  from q have s: "seg ?h (lq_first q) ps l" "l \<noteq> NULL" "distinct (ps @ [l])" "lq_last q = l"
    "lq_num q = int (length ps + 1)"
    by (auto simp: lq_cells_are_def seg_append split: option.splits)
  from q obtain c where c: "?h l = Some c"
    using seg_cells [of ?h "lq_first q" "ps @ [l]" NULL l] by (auto simp: lq_cells_are_def)
  let ?h' = "?h(a \<mapsto> \<lparr>ml_pkt = x, ml_next = NULL\<rparr>, l \<mapsto> c\<lparr>ml_next := a\<rparr>)"
  from a have a': "a \<noteq> NULL" "?h a = None" by (simp_all add: lq_avail_def)
  have al: "a \<noteq> l" "a \<notin> set ps"
    using a'(2) c seg_cells [OF s(1), of a] by auto
  have "seg ?h' (lq_first q) ps l" using s al by (simp add: seg_upd)
  then have "seg ?h' (lq_first q) (ps @ [l, a]) NULL"
    using s(2) a' al by (auto simp: seg_append)
  then show ?thesis
    using s a a' al c ab by (simp add: list_queue_put_def list_queue_put_private_def lq_cells_are_def
        lq_avail_def to_int_def INT_MIN_def INT_MAX_def lq_signal_def ml_set_next_def)
qed

lemma list_queue_put_ok:
  assumes "lq_rep q xs" and "lq_abort q = 0" and "lq_avail q a"
  shows "\<exists>q'. list_queue_put q x a = Inr (q', 0) \<and> lq_rep q' (xs @ [x]) \<and> lq_abort q' = 0 \<and>
    lq_signals q' = Suc (lq_signals q) \<and> lq_num q' = lq_num q + 1"
proof -
  from assms(1) obtain ps where ps: "lq_cells_are q ps" "xs = map (pkt_at (lq_cells q)) ps"
    by (auto simp: lq_rep_def)
  show ?thesis
  proof (cases ps rule: rev_cases)
    case Nil
    with put_empty_cells [of q a x] ps assms obtain q' where
      q': "list_queue_put q x a = Inr (q', 0)" "lq_cells_are q' [a]"
      "lq_cells q' = (lq_cells q)(a \<mapsto> \<lparr>ml_pkt = x, ml_next = NULL\<rparr>)" "lq_abort q' = 0"
      "lq_signals q' = Suc (lq_signals q)" by auto
    then have "lq_rep q' (xs @ [x])"
      using Nil ps(2) by (auto simp: lq_rep_def pkt_at_def)
    with q' ps Nil show ?thesis by (simp add: lq_cells_are_def)
  next
    case (snoc qs l)
    with put_snoc_cells [of q qs l a x] ps assms obtain q' c where
      q': "list_queue_put q x a = Inr (q', 0)" "lq_cells_are q' (qs @ [l, a])" "lq_cells q l = Some c"
      "lq_cells q' = (lq_cells q)(a \<mapsto> \<lparr>ml_pkt = x, ml_next = NULL\<rparr>, l \<mapsto> c\<lparr>ml_next := a\<rparr>)"
      "lq_abort q' = 0" "lq_signals q' = Suc (lq_signals q)" by auto
    have "distinct (qs @ [l, a])" using q'(2) by (simp add: lq_cells_are_def)
    then have "map (pkt_at (lq_cells q')) (qs @ [l, a]) = xs @ [x]"
      using ps(2) snoc q'(3) by (auto simp: q'(4) pkt_at_upd_map pkt_at_def)
    with q'(2) have "lq_rep q' (xs @ [x])" by (metis lq_rep_def)
    with q' ps snoc show ?thesis by (simp add: lq_cells_are_def)
  qed
qed

lemma list_queue_get_ok:
  assumes "lq_rep q (x # xs)" and "lq_abort q = 0" and "int (length xs) < INT_MAX"
  shows "\<exists>q'. list_queue_get q old block = Inr (Got q' 1 x) \<and> lq_rep q' xs \<and> lq_abort q' = 0 \<and>
    lq_signals q' = lq_signals q \<and> lq_num q' = lq_num q - 1"
proof -
  from assms(1) obtain p ps where ps: "lq_cells_are q (p # ps)" "x = pkt_at (lq_cells q) p"
    "xs = map (pkt_at (lq_cells q)) ps" by (auto simp: lq_rep_def)
  then obtain c where c: "lq_cells q p = Some c" "lq_first q = p" "p \<noteq> NULL"
    "seg (lq_cells q) (ml_next c) ps NULL" "p \<notin> set ps"
    by (auto simp: lq_cells_are_def split: option.splits)
  let ?h = "(lq_cells q)(p := None)"
  have nx: "ml_next c = NULL \<longleftrightarrow> ps = []" using c(4) by (cases ps) (auto split: option.splits)
  define q' where "q' = q\<lparr>lq_first := ml_next c, lq_last := (if ml_next c = NULL then NULL else lq_last q),
    lq_num := lq_num q - 1, lq_cells := ?h\<rparr>"
  have "lq_num q = int (length ps) + 1" using ps(1) by (simp add: lq_cells_are_def)
  then have run: "list_queue_get q old block = Inr (Got q' 1 x)"
    using c assms(2,3) ps(2,3) by (simp add: list_queue_get_def to_int_def INT_MIN_def q'_def pkt_at_def Let_def)
  have "lq_cells_are q' ps"
    using ps(1) c nx by (simp add: lq_cells_are_def q'_def seg_upd)
  moreover have "xs = map (pkt_at (lq_cells q')) ps"
    using ps(3) c(5) by (simp add: q'_def pkt_at_upd_map)
  ultimately have "lq_rep q' xs" by (auto simp: lq_rep_def)
  with run assms(2) show ?thesis by (auto simp: q'_def)
qed

section \<open>The queue contract\<close>

text \<open>A blocking get, seen from outside: a packet with the queue after it, or nothing yet.\<close>

definition lq_take :: "list_queue \<Rightarrow> (list_queue \<times> ptr) option res" where
  "lq_take q =
     bindR (list_queue_get q NULL 1) (\<lambda>r.
     Inr (case r of GetWait \<Rightarrow> None | Got q' c p \<Rightarrow> if c = 1 then Some (q', p) else None))"

text \<open>An open queue: not aborted, with a count in the range of \<^verbatim>\<open>int\<close>.\<close>

definition lq_open :: "list_queue \<Rightarrow> ptr list \<Rightarrow> bool" where
  "lq_open q xs \<longleftrightarrow> lq_rep q xs \<and> lq_abort q = 0 \<and> lq_num q \<le> INT_MAX"

lemma lq_rep_num: "lq_rep q xs \<Longrightarrow> lq_num q = int (length xs)"
  by (auto simp: lq_rep_def lq_cells_are_def)

lemma lq_rep_Nil: "lq_rep q [] \<longleftrightarrow> lq_first q = NULL \<and> lq_last q = NULL \<and> lq_num q = 0"
  by (auto simp: lq_rep_def lq_cells_are_def)

lemma list_queue_get_empty:
  "lq_rep q [] \<Longrightarrow> lq_abort q = 0 \<Longrightarrow>
   list_queue_get q old block = Inr (if block = 0 then Got q 0 old else GetWait)"
  by (simp add: lq_rep_Nil list_queue_get_def)

lemma list_queue_get_aborted: "lq_abort q \<noteq> 0 \<Longrightarrow> list_queue_get q old block = Inr (Got q (-1) old)"
  by (simp add: list_queue_get_def)

interpretation lq: fifo lq_open lq_avail "\<lambda>q a x. list_queue_put q x a" lq_take
proof unfold_locales
  fix q xs a x
  assume "lq_open q xs" "lq_avail q a"
  then show "\<exists>q'. list_queue_put q x a = Inr (q', 0) \<and> lq_open q' (xs @ [x])"
    using list_queue_put_ok [of q xs a x] by (auto simp: lq_open_def lq_avail_def)
next
  fix q x xs
  assume q: "lq_open q (x # xs)"
  then have "int (length xs) < INT_MAX" using lq_rep_num [of q "x # xs"] by (simp add: lq_open_def)
  with q show "\<exists>q'. lq_take q = Inr (Some (q', x)) \<and> lq_open q' xs"
    using list_queue_get_ok [of q x xs NULL 1] by (auto simp: lq_open_def lq_take_def)
next
  fix q
  assume "lq_open q []"
  then show "lq_take q = Inr None" by (simp add: lq_open_def lq_take_def list_queue_get_empty)
qed

lemma flush_loop_run:
  "seg h p ps NULL \<Longrightarrow> distinct ps \<Longrightarrow> flush_loop h p = Some (Inr (h |` (- set ps)))"
proof (induction ps arbitrary: h p)
  case Nil
  then show ?case by (simp add: flush_loop.simps)
next
  case (Cons a ps)
  then obtain c where c: "h a = Some c" "p = a" "a \<noteq> NULL" "seg h (ml_next c) ps NULL"
    by (auto split: option.splits)
  from Cons.prems(2) c(4) have "seg (h(a := None)) (ml_next c) ps NULL" by (simp add: seg_upd)
  then have "flush_loop (h(a := None)) (ml_next c) = Some (Inr ((h(a := None)) |` (- set ps)))"
    by (rule Cons.IH) (use Cons.prems(2) in simp)
  also have "(h(a := None)) |` (- set ps) = h |` (- set (a # ps))"
    by (auto simp: restrict_map_def fun_eq_iff)
  finally have tl: "flush_loop (h(a := None)) (ml_next c) = Some (Inr (h |` (- set (a # ps))))" .
  show ?case by (subst flush_loop.simps) (simp add: c(1-3) tl del: set_simps)
qed

lemma list_queue_init_rep: "lq_rep (fst (list_queue_init q)) []"
  by (simp add: list_queue_init_def lq_rep_Nil)

section \<open>Properties\<close>

text \<open>An open queue with the packets 7, 8 and 9.\<close>

definition ex_queue :: list_queue where
  "ex_queue = \<lparr>lq_cells = [100 \<mapsto> \<lparr>ml_pkt = 7, ml_next = 200\<rparr>, 200 \<mapsto> \<lparr>ml_pkt = 8, ml_next = 300\<rparr>,
     300 \<mapsto> \<lparr>ml_pkt = 9, ml_next = 0\<rparr>, 900 \<mapsto> \<lparr>ml_pkt = 1, ml_next = 2\<rparr>],
     lq_first = 100, lq_last = 300, lq_num = 3, lq_abort = 0, lq_signals = 0\<rparr>"

lemma ex_queue_cells: "lq_cells_are ex_queue [100, 200, 300]"
  by (simp add: lq_cells_are_def ex_queue_def)

lemma ex_queue_rep: "lq_rep ex_queue [7, 8, 9]"
  unfolding lq_rep_def by (rule exI [of _ "[100, 200, 300]"]) (simp add: ex_queue_cells, simp add: ex_queue_def pkt_at_def)

text \<open>C15: the queue is first in, first out: whatever sequence of puts and gets an empty open queue
  goes through, the packets that came out followed by those still waiting are the packets put in,
  in order, and the count is the number of those waiting.\<close>
theorem list_queue_first_in_first_out:
  assumes "qrun lq_avail (\<lambda>q a x. list_queue_put q x a) lq_take q ops outs q'"
    and "lq_rep q []" and "lq_abort q = 0"
  shows "\<exists>ys. lq_rep q' ys \<and> puts ops = outs @ ys \<and> lq_num q' = int (length ys)"
proof -
  have "lq_open q []" using assms(2,3) by (simp add: lq_open_def lq_rep_Nil INT_MAX_def)
  from lq.run_order [OF assms(1) this] show ?thesis by (auto simp: lq_open_def lq_rep_num)
qed

theorem list_queue_first_in_first_out_witness:
  "\<exists>q0 q'. qrun lq_avail (\<lambda>q a x. list_queue_put q x a) lq_take q0 [Put 100 7, Get, Put 100 8] [7] q' \<and>
    (\<exists>ys. lq_rep q' ys \<and> [7, 8] = [7] @ ys \<and> lq_num q' = int (length ys))"
proof -
  let ?q0 = "\<lparr>lq_cells = Map.empty, lq_first = 0, lq_last = 0, lq_num = 0, lq_abort = 0, lq_signals = 0\<rparr>"
  let ?q1 = "\<lparr>lq_cells = [100 \<mapsto> \<lparr>ml_pkt = 7, ml_next = 0\<rparr>], lq_first = 100, lq_last = 100,
    lq_num = 1, lq_abort = 0, lq_signals = 1\<rparr>"
  let ?q2 = "\<lparr>lq_cells = Map.empty, lq_first = 0, lq_last = 0, lq_num = 0, lq_abort = 0, lq_signals = 1\<rparr>"
  let ?q3 = "\<lparr>lq_cells = [100 \<mapsto> \<lparr>ml_pkt = 8, ml_next = 0\<rparr>], lq_first = 100, lq_last = 100,
    lq_num = 1, lq_abort = 0, lq_signals = 2\<rparr>"
  note defs = list_queue_put_def list_queue_put_private_def lq_take_def list_queue_get_def lq_avail_def
    lq_signal_def to_int_def INT_MIN_def INT_MAX_def
  have run: "qrun lq_avail (\<lambda>q a x. list_queue_put q x a) lq_take ?q0 [Put 100 7, Get, Put 100 8] [7] ?q3"
    by (rule qrun_put [where ?s1.0 = ?q1 and c = 0], simp add: defs, simp add: defs,
        rule qrun_get [where ?s1.0 = ?q2], simp add: defs,
        rule qrun_put [where ?s1.0 = ?q3 and c = 0], simp add: defs, simp add: defs, rule qrun_done)
  from list_queue_first_in_first_out [OF run] have
    "\<exists>ys. lq_rep ?q3 ys \<and> [7, 8] = [7] @ ys \<and> lq_num ?q3 = int (length ys)"
    by (simp add: lq_rep_Nil)
  with run show ?thesis by blast
qed

text \<open>list_queue_get on every branch: -1 on an aborted queue, 1 with the oldest packet, 0 on an
  empty queue when not blocking, the wait otherwise; the caller's packet pointer is written only
  when a packet is returned, and the queue changes only then.\<close>
theorem list_queue_get_branches:
  assumes "lq_rep q xs" and "lq_num q \<le> INT_MAX"
  shows "if lq_abort q \<noteq> 0 then list_queue_get q old block = Inr (Got q (-1) old)
    else case xs of
      [] \<Rightarrow> list_queue_get q old block = Inr (if block = 0 then Got q 0 old else GetWait)
    | x # ys \<Rightarrow> \<exists>q'. list_queue_get q old block = Inr (Got q' 1 x) \<and> lq_rep q' ys \<and>
        lq_num q' = lq_num q - 1 \<and> lq_abort q' = 0"
proof (cases xs)
  case Nil
  with assms show ?thesis by (simp add: list_queue_get_empty list_queue_get_aborted)
next
  case (Cons x ys)
  moreover have "int (length ys) < INT_MAX" using assms lq_rep_num [OF assms(1)] Cons by simp
  ultimately show ?thesis
    using list_queue_get_ok [of q x ys old block] assms by (auto simp: list_queue_get_aborted)
qed

theorem list_queue_get_branches_witness:
  "\<exists>q'. list_queue_get ex_queue 5 1 = Inr (Got q' 1 7) \<and> lq_rep q' [8, 9] \<and>
    lq_num q' = lq_num ex_queue - 1 \<and> lq_abort q' = 0"
  using list_queue_get_branches [OF ex_queue_rep, of 5 1] by (simp add: ex_queue_def INT_MAX_def)

text \<open>list_queue_flush ends on every well-formed queue, frees each of its cells once and no
  other one, and leaves an empty queue.\<close>
theorem list_queue_flush_frees:
  assumes "lq_cells_are q ps"
  shows "\<exists>q'. list_queue_flush q = Some (Inr q') \<and> lq_rep q' [] \<and>
    dom (lq_cells q') = dom (lq_cells q) - set ps \<and> (\<forall>p. p \<notin> set ps \<longrightarrow> lq_cells q' p = lq_cells q p) \<and>
    lq_abort q' = lq_abort q"
proof -
  have "flush_loop (lq_cells q) (lq_first q) = Some (Inr (lq_cells q |` (- set ps)))"
    using assms by (intro flush_loop_run) (simp_all add: lq_cells_are_def)
  then show ?thesis by (auto simp: list_queue_flush_def lq_rep_Nil restrict_map_def split: if_splits)
qed

theorem list_queue_flush_frees_witness:
  "\<exists>q'. list_queue_flush ex_queue = Some (Inr q') \<and> lq_rep q' [] \<and>
    dom (lq_cells q') = dom (lq_cells ex_queue) - set [100, 200, 300] \<and>
    (\<forall>p. p \<notin> set [100, 200, 300] \<longrightarrow> lq_cells q' p = lq_cells ex_queue p) \<and>
    lq_abort q' = lq_abort ex_queue"
  by (rule list_queue_flush_frees [OF ex_queue_cells])

end
