(* ===== verification/Pipeline.thy ===== *)
theory Pipeline
  imports Process Network MemPool ListQueue
begin

text \<open>
  The program of \<^verbatim>\<open>src/src/main.c\<close>: a thread that receives packets into buffers of the
  pool and queues them, and a thread that takes them from the queue, parses them and gives
  the buffers back. Each call that holds a mutex is one atomic step, and so is the work on a
  buffer that only its thread has; the scheduler may interleave the steps of the two threads
  in any order. What the environment decides (the frames, the clock, the addresses of new
  queue cells, whether an allocation fails) is free in every step.
\<close>

section \<open>State\<close>

text \<open>
  Where a thread is. The receiver asks the pool for a buffer, may wait for one (\<open>NWoken\<close>: it
  was signalled and has not resumed yet), receives into it and queues it. The parser takes a
  packet, parses it and gives it back.
\<close>

datatype net_pc = NGet | NWait | NWoken | NHave ptr | NFilled ptr
datatype proc_pc = PGet | PHave ptr | PDone ptr

record world =
  w_pool :: mem
  w_queue :: list_queue
  w_pkts :: "ptr \<Rightarrow> packet"
  w_sess :: table
  w_net :: net_pc
  w_proc :: proc_pc
  w_log :: printed
  w_lost :: "ptr list"

definition MAX_PKTPOOL_SIZE :: int where "MAX_PKTPOOL_SIZE = 32"
definition SIZEOF_PACKET :: int where "SIZEOF_PACKET = 1536"

text \<open>\<^verbatim>\<open>main\<close> up to the start of the threads: pool, queue and session table, and the queue opened.\<close>

definition main_init :: "mem \<Rightarrow> ptr \<Rightarrow> list_queue \<Rightarrow> table \<Rightarrow> (ptr \<Rightarrow> packet) \<Rightarrow> (world \<times> ptr) res" where
  "main_init m a q0 t0 pk =
     bindR (mem_pool_create m a MAX_PKTPOOL_SIZE SIZEOF_PACKET) (\<lambda>(m, g_pktpool).
     let (q, _) = list_queue_init q0 in
     bindR (sess_init t0) (\<lambda>(t, _).
     Inr (\<lparr>w_pool = m, w_queue = q\<lparr>lq_abort := 0\<rparr>, w_pkts = pk, w_sess = t, w_net = NGet, w_proc = PGet,
       w_log = [], w_lost = []\<rparr>, g_pktpool)))"

definition world_start :: "ptr \<Rightarrow> world \<Rightarrow> bool" where
  "world_start p w \<longleftrightarrow> (\<exists>m q0 t0 pk. p \<noteq> NULL \<and> lists m NULL = None \<and> length t0 = MAX_SESS_NODE \<and>
     (\<forall>b. length (p_buf (pk b)) = MAX_PACKET_SIZE) \<and> main_init m p q0 t0 pk = Inr (w, p))"

section \<open>Steps\<close>

text \<open>The signal of \<^verbatim>\<open>mem_pool_put\<close> wakes the receiver if it waits.\<close>

definition wake_net :: "net_pc \<Rightarrow> net_pc" where
  "wake_net n = (if n = NWait then NWoken else n)"

inductive world_step :: "ptr \<Rightarrow> target \<Rightarrow> world \<Rightarrow> world \<Rightarrow> bool" for p :: ptr and g :: target where
  n_get: "w_net w = NGet \<Longrightarrow> mem_pool_get (w_pool w) p = Inr (Done (m, b)) \<Longrightarrow>
    world_step p g w (w\<lparr>w_pool := m, w_net := NHave b\<rparr>)"
| n_wait: "w_net w = NGet \<Longrightarrow> mem_pool_get (w_pool w) p = Inr Wait \<Longrightarrow>
    world_step p g w (w\<lparr>w_net := NWait\<rparr>)"
| n_resume: "w_net w = NWoken \<Longrightarrow> mem_pool_get_resume (w_pool w) p = Inr (m, b) \<Longrightarrow>
    world_step p g w (w\<lparr>w_pool := m, w_net := NHave b\<rparr>)"
| n_recv_again: "w_net w = NHave b \<Longrightarrow> eth_recv g frame (w_pkts w b) = Inr (pkt, ret) \<Longrightarrow> ret \<noteq> 0 \<Longrightarrow>
    world_step p g w (w\<lparr>w_pkts := (w_pkts w)(b := pkt)\<rparr>)"
| n_recv: "w_net w = NHave b \<Longrightarrow> eth_recv g frame (w_pkts w b) = Inr (pkt, 0) \<Longrightarrow>
    world_step p g w (w\<lparr>w_pkts := (w_pkts w)(b := pkt), w_net := NFilled b\<rparr>)"
| n_put: "w_net w = NFilled b \<Longrightarrow> a \<noteq> NULL \<Longrightarrow> lq_cells (w_queue w) a = None \<Longrightarrow>
    list_queue_put (w_queue w) b a = Inr (q, c) \<Longrightarrow>
    world_step p g w (w\<lparr>w_queue := q, w_net := NGet\<rparr>)"
| n_put_fails: "w_net w = NFilled b \<Longrightarrow> list_queue_put (w_queue w) b NULL = Inr (q, c) \<Longrightarrow>
    world_step p g w (w\<lparr>w_queue := q, w_net := NGet, w_lost := b # w_lost w\<rparr>)"
| p_take: "w_proc w = PGet \<Longrightarrow> list_queue_get (w_queue w) old 1 = Inr (Got q c b) \<Longrightarrow>
    world_step p g w (w\<lparr>w_queue := q, w_proc := PHave b\<rparr>)"
| p_parse: "w_proc w = PHave b \<Longrightarrow> pkt = w_pkts w b \<Longrightarrow> p_len pkt \<noteq> 0 \<and> p_action pkt \<noteq> RESULT_DROP \<Longrightarrow>
    mainprocess (w_sess w) now (p_buf pkt) (p_data pkt) (unat (p_len pkt)) (p_key pkt) (p_dir pkt) = Inr (t, out, ret) \<Longrightarrow>
    world_step p g w (w\<lparr>w_sess := t, w_log := w_log w @ out, w_proc := PDone b\<rparr>)"
| p_ignore: "w_proc w = PHave b \<Longrightarrow> pkt = w_pkts w b \<Longrightarrow> \<not> (p_len pkt \<noteq> 0 \<and> p_action pkt \<noteq> RESULT_DROP) \<Longrightarrow>
    world_step p g w (w\<lparr>w_proc := PDone b\<rparr>)"
| p_give: "w_proc w = PDone b \<Longrightarrow> mem_pool_put (w_pool w) p b = Inr (m, c) \<Longrightarrow>
    world_step p g w (w\<lparr>w_pool := m, w_net := wake_net (w_net w), w_proc := PGet\<rparr>)"

section \<open>The invariant\<close>

fun net_hand :: "net_pc \<Rightarrow> ptr list" where
  "net_hand (NHave b) = [b]"
| "net_hand (NFilled b) = [b]"
| "net_hand _ = []"

fun proc_hand :: "proc_pc \<Rightarrow> ptr list" where
  "proc_hand (PHave b) = [b]"
| "proc_hand (PDone b) = [b]"
| "proc_hand PGet = []"

text \<open>A buffer with a packet that \<^verbatim>\<open>eth_recv\<close> accepted: its session key ends at the server.\<close>

definition received_ok :: "target \<Rightarrow> packet \<Rightarrow> bool" where
  "received_ok g pkt \<longleftrightarrow> dip (norm_key (p_key pkt) (p_dir pkt)) = g_target_ip g"

text \<open>
  \<open>fs\<close> are the free buffers, \<open>us\<close> those in use, \<open>q\<close> those in the queue, \<open>bs\<close> all buffers.
\<close>

definition world_at :: "ptr \<Rightarrow> target \<Rightarrow> world \<Rightarrow> ptr list \<Rightarrow> ptr list \<Rightarrow> ptr list \<Rightarrow> ptr set \<Rightarrow> bool" where
  "world_at p g w fs us q bs \<longleftrightarrow>
     (pool_inv p (w_pool w) fs us \<and> p \<noteq> NULL) \<and> lq_open (w_queue w) q \<and>
     distinct (net_hand (w_net w) @ q @ proc_hand (w_proc w) @ w_lost w) \<and>
     set us = set (net_hand (w_net w) @ q @ proc_hand (w_proc w) @ w_lost w) \<and>
     set fs \<union> set us = bs \<and> card bs = 32 \<and>
     (w_net w = NWait \<longrightarrow> fs = []) \<and> (w_net w = NWoken \<longrightarrow> fs \<noteq> []) \<and>
     (\<forall>b. length (p_buf (w_pkts w b)) = MAX_PACKET_SIZE) \<and>
     (\<forall>b. w_net w = NFilled b \<longrightarrow> received_ok g (w_pkts w b)) \<and>
     (\<forall>b \<in> set (q @ proc_hand (w_proc w)). received_ok g (w_pkts w b)) \<and>
     described (w_sess w) \<and> (g_target_ip g \<noteq> 0 \<longrightarrow> reach sess_start sess_step (w_sess w))"

definition world_inv :: "ptr \<Rightarrow> target \<Rightarrow> world \<Rightarrow> bool" where
  "world_inv p g w \<longleftrightarrow> (\<exists>fs us q bs. world_at p g w fs us q bs)"

lemma eth_recv_frame: "eth_recv g r pkt = Inr (pkt', 0) \<Longrightarrow> \<exists>f. r = Frame f"
  by (cases r) (auto simp: eth_recv_def recv_via_dev_def Let_def)

lemma world_queue_short:
  assumes "world_at p g w fs us q bs" shows "length q \<le> 32"
proof -
  have "set q \<subseteq> bs" "distinct q" "card bs = 32" using assms by (auto simp: world_at_def)
  moreover from this have "finite bs" by (metis card.infinite zero_neq_numeral)
  ultimately show ?thesis by (metis card_mono distinct_card)
qed

lemma world_pool: "world_at p g w fs us q bs \<Longrightarrow> pool_inv p (w_pool w) fs us \<and> p \<noteq> NULL"
  by (simp add: world_at_def)

lemma step_n_take:
  assumes at: "world_at p g w fs us q bs" and pc: "w_net w = NGet \<or> w_net w = NWoken"
    and inv: "pool_inv p m gs (b # us)" and fs: "fs = b # gs"
  shows "world_at p g (w\<lparr>w_pool := m, w_net := NHave b\<rparr>) gs (b # us) q bs"
proof -
  have "b \<notin> set us" using pool_inv_distinct [OF inv] by simp
  with at pc inv fs show ?thesis unfolding world_at_def by auto
qed

lemma step_n_get:
  assumes at: "world_at p g w fs us q bs" and "w_net w = NGet" and "mem_pool_get (w_pool w) p = Inr (Done (m, b))"
  shows "world_inv p g (w\<lparr>w_pool := m, w_net := NHave b\<rparr>)"
proof -
  have "fs \<noteq> []" using mp.get_empty [of p "w_pool w" us] world_pool [OF at] assms(3) by auto
  then obtain c gs where fs: "fs = c # gs" by (cases fs) auto
  with mp.get_free [of p "w_pool w" c gs us] world_pool [OF at] assms(3)
  have "b = c" "pool_inv p m gs (b # us)" by auto
  with step_n_take [OF at, of m gs b] assms(2) fs show ?thesis unfolding world_inv_def by blast
qed

lemma step_n_resume:
  assumes at: "world_at p g w fs us q bs" and "w_net w = NWoken" and "mem_pool_get_resume (w_pool w) p = Inr (m, b)"
  shows "world_inv p g (w\<lparr>w_pool := m, w_net := NHave b\<rparr>)"
proof -
  have "fs \<noteq> []" using at assms(2) by (simp add: world_at_def)
  then obtain c gs where fs: "fs = c # gs" by (cases fs) auto
  with mp.resume_free [of p "w_pool w" c gs us] world_pool [OF at] assms(3)
  have "b = c" "pool_inv p m gs (b # us)" by auto
  with step_n_take [OF at, of m gs b] assms(2) fs show ?thesis unfolding world_inv_def by blast
qed

lemma step_n_wait:
  assumes at: "world_at p g w fs us q bs" and "w_net w = NGet" and "mem_pool_get (w_pool w) p = Inr Wait"
  shows "world_inv p g (w\<lparr>w_net := NWait\<rparr>)"
proof -
  have "fs = []" using mp.get_done_or_wait [OF world_pool [OF at]] assms(3) by simp
  with at assms(2) have "world_at p g (w\<lparr>w_net := NWait\<rparr>) fs us q bs" unfolding world_at_def by auto
  then show ?thesis unfolding world_inv_def by blast
qed

lemma step_n_recv:
  assumes at: "world_at p g w fs us q bs" and pc: "w_net w = NHave b" and "eth_recv g frame (w_pkts w b) = Inr (pkt, ret)"
  shows "world_inv p g (w\<lparr>w_pkts := (w_pkts w)(b := pkt)\<rparr>)"
    and "ret = 0 \<Longrightarrow> world_inv p g (w\<lparr>w_pkts := (w_pkts w)(b := pkt), w_net := NFilled b\<rparr>)"
proof -
  have len: "length (p_buf (w_pkts w b)) = MAX_PACKET_SIZE" using at by (simp add: world_at_def)
  note buf = eth_recv_buffer [OF len assms(3)]
  have "b \<notin> set (q @ proc_hand (w_proc w))" using at pc by (auto simp: world_at_def)
  with at pc buf have "world_at p g (w\<lparr>w_pkts := (w_pkts w)(b := pkt)\<rparr>) fs us q bs"
    unfolding world_at_def by auto
  then show "world_inv p g (w\<lparr>w_pkts := (w_pkts w)(b := pkt)\<rparr>)" unfolding world_inv_def by blast
  assume r: "ret = 0"
  with assms(3) obtain f where "frame = Frame f" using eth_recv_frame by blast
  with eth_recv_target [OF len] assms(3) r have "received_ok g pkt" by (simp add: received_ok_def)
  with at pc buf \<open>b \<notin> set (q @ proc_hand (w_proc w))\<close>
  have "world_at p g (w\<lparr>w_pkts := (w_pkts w)(b := pkt), w_net := NFilled b\<rparr>) fs us q bs"
    unfolding world_at_def by auto
  then show "world_inv p g (w\<lparr>w_pkts := (w_pkts w)(b := pkt), w_net := NFilled b\<rparr>)"
    unfolding world_inv_def by blast
qed

lemma step_n_put:
  assumes at: "world_at p g w fs us q bs" and pc: "w_net w = NFilled b" and "a \<noteq> NULL" "lq_cells (w_queue w) a = None"
    and put: "list_queue_put (w_queue w) b a = Inr (lq', c)"
  shows "world_inv p g (w\<lparr>w_queue := lq', w_net := NGet\<rparr>)"
proof -
  have open_q: "lq_open (w_queue w) q" using at by (simp add: world_at_def)
  then have "lq_avail (w_queue w) a"
    using assms(3,4) world_queue_short [OF at] lq_rep_num [of "w_queue w" q] by (simp add: lq_avail_def lq_open_def INT_MAX_def)
  from lq.put_ok [OF open_q this, of b] put have "lq_open lq' (q @ [b])" by auto
  with at pc have "world_at p g (w\<lparr>w_queue := lq', w_net := NGet\<rparr>) fs us (q @ [b]) bs"
    unfolding world_at_def by auto
  then show ?thesis unfolding world_inv_def by blast
qed

lemma step_n_put_fails:
  assumes at: "world_at p g w fs us q bs" and pc: "w_net w = NFilled b"
    and put: "list_queue_put (w_queue w) b NULL = Inr (lq', c)"
  shows "world_inv p g (w\<lparr>w_queue := lq', w_net := NGet, w_lost := b # w_lost w\<rparr>)"
proof -
  have "lq' = w_queue w" using put by (auto simp: list_queue_put_def list_queue_put_private_def split: if_splits)
  with at pc have "world_at p g (w\<lparr>w_queue := lq', w_net := NGet, w_lost := b # w_lost w\<rparr>) fs us q bs"
    unfolding world_at_def by auto
  then show ?thesis unfolding world_inv_def by blast
qed

lemma step_p_take:
  assumes at: "world_at p g w fs us q bs" and pc: "w_proc w = PGet"
    and get: "list_queue_get (w_queue w) old 1 = Inr (Got lq' c b)"
  shows "world_inv p g (w\<lparr>w_queue := lq', w_proc := PHave b\<rparr>)"
proof -
  have o: "lq_rep (w_queue w) q" "lq_abort (w_queue w) = 0" using at by (simp_all add: world_at_def lq_open_def)
  show ?thesis
  proof (cases q)
    case Nil
    with o get show ?thesis by (simp add: list_queue_get_empty)
  next
    case (Cons x xs)
    have "int (length xs) < INT_MAX" using world_queue_short [OF at] Cons by (simp add: INT_MAX_def)
    from list_queue_get_ok [OF o(1) [unfolded Cons] o(2) this, of old 1] get
    have "b = x" "lq_rep lq' xs" "lq_abort lq' = 0" "lq_num lq' = lq_num (w_queue w) - 1" by auto
    moreover from this at have "lq_open lq' xs" by (simp add: lq_open_def world_at_def)
    ultimately have "world_at p g (w\<lparr>w_queue := lq', w_proc := PHave b\<rparr>) fs us xs bs"
      using at pc Cons unfolding world_at_def by auto
    then show ?thesis unfolding world_inv_def by blast
  qed
qed

lemma step_p_parse:
  assumes at: "world_at p g w fs us q bs" and pc: "w_proc w = PHave b"
    and m: "mainprocess (w_sess w) now m d n (p_key (w_pkts w b)) (p_dir (w_pkts w b)) = Inr (t, out, ret)"
  shows "world_inv p g (w\<lparr>w_sess := t, w_log := lg, w_proc := PDone b\<rparr>)"
proof -
  have desc: "described (w_sess w)" using at by (simp add: world_at_def)
  note k = mainprocess_keeps [OF desc m]
  have "reach sess_start sess_step t" if g: "g_target_ip g \<noteq> 0"
  proof -
    have "received_ok g (w_pkts w b)" using at pc by (simp add: world_at_def)
    with g have "norm_key (p_key (w_pkts w b)) (p_dir (w_pkts w b)) \<noteq> zero_key"
      by (auto simp: received_ok_def zero_key_def)
    with k have "sess_step (w_sess w) t" by blast
    moreover have "reach sess_start sess_step (w_sess w)" using at g by (simp add: world_at_def)
    ultimately show ?thesis by (rule reach_step [rotated])
  qed
  with at pc k have "world_at p g (w\<lparr>w_sess := t, w_log := lg, w_proc := PDone b\<rparr>) fs us q bs"
    unfolding world_at_def by auto
  then show ?thesis unfolding world_inv_def by blast
qed

lemma step_p_ignore:
  assumes at: "world_at p g w fs us q bs" and pc: "w_proc w = PHave b"
  shows "world_inv p g (w\<lparr>w_proc := PDone b\<rparr>)"
proof -
  from at pc have "world_at p g (w\<lparr>w_proc := PDone b\<rparr>) fs us q bs" unfolding world_at_def by auto
  then show ?thesis unfolding world_inv_def by blast
qed

lemma step_p_give:
  assumes at: "world_at p g w fs us q bs" and pc: "w_proc w = PDone b" and put: "mem_pool_put (w_pool w) p b = Inr (m, c)"
  shows "world_inv p g (w\<lparr>w_pool := m, w_net := wake_net (w_net w), w_proc := PGet\<rparr>)"
proof -
  have b: "b \<in> set us" using at pc by (simp add: world_at_def)
  from mp.put_in_use [OF world_pool [OF at] b] put have inv: "pool_inv p m (b # fs) (remove1 b us)" by auto
  have "distinct us" using pool_inv_distinct world_pool [OF at] by fastforce
  then have us: "set (remove1 b us) = set us - {b}" by simp
  have hand: "net_hand (wake_net n) = net_hand n" for n by (cases n) (simp_all add: wake_net_def)
  have "wake_net n \<noteq> NWait" for n by (simp add: wake_net_def)
  moreover have "wake_net n = NFilled x \<longleftrightarrow> n = NFilled x" for n x by (auto simp: wake_net_def)
  ultimately have "world_at p g (w\<lparr>w_pool := m, w_net := wake_net (w_net w), w_proc := PGet\<rparr>) (b # fs) (remove1 b us) q bs"
    using at pc inv us b hand unfolding world_at_def by auto
  then show ?thesis unfolding world_inv_def by blast
qed

lemma world_step_inv:
  assumes "world_inv p g w" and "world_step p g w w'"
  shows "world_inv p g w'"
proof -
  from assms(1) obtain fs us q bs where at: "world_at p g w fs us q bs" by (auto simp: world_inv_def)
  from assms(2) show ?thesis
    by cases (blast intro: step_n_get [OF at] step_n_wait [OF at] step_n_resume [OF at] step_n_recv [OF at]
      step_n_put [OF at] step_n_put_fails [OF at] step_p_take [OF at] step_p_parse [OF at] step_p_ignore [OF at]
      step_p_give [OF at])+
qed

lemma main_init_run:
  assumes "a \<noteq> NULL" and "lists m NULL = None" and "length t0 = MAX_SESS_NODE"
  shows "\<exists>w fs. main_init m a q0 t0 pk = Inr (w, a) \<and> pool_inv a (w_pool w) fs [] \<and> length fs = 32 \<and>
    lq_open (w_queue w) [] \<and> w_sess w = replicate 32 zero_session \<and> w_pkts w = pk \<and>
    w_net w = NGet \<and> w_proc w = PGet \<and> w_lost w = []"
proof -
  have k: "(1552::nat) = nat (16 * ((SIZEOF_PACKET + 15) div 16) + 16)" by (simp add: SIZEOF_PACKET_def)
  have "\<exists>m'. mem_pool_create m a MAX_PKTPOOL_SIZE SIZEOF_PACKET = Inr (m', a) \<and>
      blocks m' = (a, nat MAX_PKTPOOL_SIZE * 1552 + SIZEOF_MEM_POOL_ST) # blocks m \<and>
      pool_inv a m' (rev (map (buffer_at a 1552) [0..<nat MAX_PKTPOOL_SIZE])) []"
    by (rule mem_pool_create_ok [OF _ _ _ assms(1,2) k]) (simp_all add: MAX_PKTPOOL_SIZE_def SIZEOF_PACKET_def INT_MAX_def)
  then obtain m' where m': "mem_pool_create m a MAX_PKTPOOL_SIZE SIZEOF_PACKET = Inr (m', a)"
    "pool_inv a m' (rev (map (buffer_at a 1552) [0..<nat MAX_PKTPOOL_SIZE])) []" by blast
  have "sess_init t0 = Inr (replicate 32 zero_session, 0)"
    using assms(3) by (simp add: sess_init_run MAX_SESS_NODE_def)
  with m' show ?thesis
    by (auto simp: main_init_def list_queue_init_def Let_def lq_open_def lq_rep_Nil INT_MAX_def MAX_PKTPOOL_SIZE_def
        intro!: exI [of _ "rev (map (buffer_at a 1552) [0..<32])"])
qed

lemma world_start_inv:
  assumes "world_start p w"
  shows "world_inv p g w"
proof -
  from assms obtain m q0 t0 pk where s: "p \<noteq> NULL" "lists m NULL = None" "length t0 = MAX_SESS_NODE"
    "\<forall>b. length (p_buf (pk b)) = MAX_PACKET_SIZE" "main_init m p q0 t0 pk = Inr (w, p)"
    by (auto simp: world_start_def)
  from main_init_run [OF s(1-3), of q0 pk] s(5) obtain fs where r: "pool_inv p (w_pool w) fs []" "length fs = 32"
    "lq_open (w_queue w) []" "w_sess w = replicate 32 zero_session" "w_pkts w = pk"
    "w_net w = NGet" "w_proc w = PGet" "w_lost w = []" by auto
  have "distinct fs" using pool_inv_distinct [OF r(1)] by simp
  moreover have "sess_start (w_sess w)"
    using s(3) r(4) by (auto simp: sess_start_def MAX_SESS_NODE_def intro: sess_init_run)
  then have "reach sess_start sess_step (w_sess w)" by (rule reach_init)
  moreover have "described (w_sess w)" unfolding r(4) by (rule ex_described)
  ultimately have "world_at p g w fs [] [] (set fs)"
    using s(1,4) r by (simp add: world_at_def distinct_card)
  then show ?thesis unfolding world_inv_def by blast
qed

interpretation main: safe_system "world_start p" "world_step p g" "world_inv p g" for p g
  by unfold_locales (fact world_start_inv, fact world_step_inv)

definition ex_start_mem :: mem where
  "ex_start_mem = \<lparr>lists = Map.empty, bytes = (\<lambda>_. 0), blocks = [], junk = (\<lambda>_. \<lparr>lh_next = 7, lh_prev = 9\<rparr>)\<rparr>"

lemma ex_world: "\<exists>w. world_start 4096 w"
proof -
  let ?q = "\<lparr>lq_cells = Map.empty, lq_first = 5, lq_last = 6, lq_num = 7, lq_abort = 8, lq_signals = 0\<rparr>"
  have "lists ex_start_mem NULL = None" "length (replicate 32 zero_session) = MAX_SESS_NODE"
    by (simp_all add: ex_start_mem_def MAX_SESS_NODE_def)
  with main_init_run [of 4096 ex_start_mem "replicate 32 zero_session" ?q "\<lambda>_. ex_packet"]
  obtain w where "main_init ex_start_mem 4096 ?q (replicate 32 zero_session) (\<lambda>_. ex_packet) = Inr (w, 4096)" by auto
  with \<open>lists ex_start_mem NULL = None\<close> \<open>length (replicate 32 zero_session) = MAX_SESS_NODE\<close> show ?thesis
    unfolding world_start_def by (metis ex_packet_simps(1) zero_neq_numeral)
qed

section \<open>Correctness\<close>





text \<open>the program tracks one flow at a time: with any monitored address but 0.0.0.0, in every reachable state of the two
  threads only the first of the 32 sessions has ever been used.\<close>
theorem pipeline_tracks_one_flow:
  assumes "reach (world_start p) (world_step p g) w" and "g_target_ip g \<noteq> 0"
  shows "length (w_sess w) = MAX_SESS_NODE \<and> (\<forall>i. 0 < i \<and> i < MAX_SESS_NODE \<longrightarrow> w_sess w ! i = zero_session)"
proof -
  from main.reach_inv [OF assms(1)] obtain fs us q bs where "world_at p g w fs us q bs" by (auto simp: world_inv_def)
  with assms(2) have "reach sess_start sess_step (w_sess w)" by (simp add: world_at_def)
  from sess.reach_inv [OF this] show ?thesis by (simp add: one_session_def)
qed

theorem pipeline_tracks_one_flow_witness:
  "\<exists>w. world_start 4096 w \<and> (\<forall>i. 0 < i \<and> i < MAX_SESS_NODE \<longrightarrow> w_sess w ! i = zero_session)"
proof -
  obtain w where w: "world_start 4096 w" using ex_world by blast
  have "reach (world_start 4096) (world_step 4096 ex_target) w" using w by (rule reach_init)
  from pipeline_tracks_one_flow [OF this] w show ?thesis by (auto simp: ex_target_def)
qed

end
