(* ===== verification/Delivery.thy ===== *)
theory Delivery
  imports Pipeline
begin

text \<open>
  What the two threads of \<^verbatim>\<open>src/src/main.c\<close> do together, against what one thread would do:
  every packet \<^verbatim>\<open>eth_recv\<close> accepted and \<^verbatim>\<open>list_queue_put\<close> took is parsed once, in the order
  of reception, and as it was received, although its buffer is shared.
\<close>

section \<open>The sequential program\<close>

text \<open>One thread that parses a sequence of packets, one after the other; the clock is free.\<close>

inductive parse_all :: "table \<Rightarrow> packet list \<Rightarrow> table \<Rightarrow> printed \<Rightarrow> bool" for t0 :: table where
  pa_none: "parse_all t0 [] t0 []"
| pa_parse: "parse_all t0 pkts t lg \<Longrightarrow> p_len pkt \<noteq> 0 \<and> p_action pkt \<noteq> RESULT_DROP \<Longrightarrow>
    mainprocess t now (p_buf pkt) (p_data pkt) (unat (p_len pkt)) (p_key pkt) (p_dir pkt) = Inr (t', out, ret) \<Longrightarrow>
    parse_all t0 (pkts @ [pkt]) t' (lg @ out)"
| pa_ignore: "parse_all t0 pkts t lg \<Longrightarrow> \<not> (p_len pkt \<noteq> 0 \<and> p_action pkt \<noteq> RESULT_DROP) \<Longrightarrow>
    parse_all t0 (pkts @ [pkt]) t lg"

text \<open>A packet as \<^verbatim>\<open>eth_recv\<close> leaves it when it accepts a frame.\<close>

definition was_received :: "target \<Rightarrow> packet \<Rightarrow> bool" where
  "was_received g pkt \<longleftrightarrow> (\<exists>f old. length (p_buf old) = MAX_PACKET_SIZE \<and> eth_recv g (Frame f) old = Inr (pkt, 0))"

section \<open>Runs with what goes in and out\<close>

text \<open>
  The packet a step puts into the queue, and the packet a step has parsed (or has looked at
  and ignored), read off the states before and after it.
\<close>

definition queued_by :: "world \<Rightarrow> world \<Rightarrow> packet list" where
  "queued_by w w' = (case w_net w of
     NFilled b \<Rightarrow> if w_net w' = NGet \<and> w_lost w' = w_lost w then [w_pkts w b] else []
   | _ \<Rightarrow> [])"

definition parsed_by :: "world \<Rightarrow> world \<Rightarrow> packet list" where
  "parsed_by w w' = (case w_proc w of
     PHave b \<Rightarrow> if w_proc w' = PDone b then [w_pkts w b] else []
   | _ \<Rightarrow> [])"

inductive world_run :: "ptr \<Rightarrow> target \<Rightarrow> world \<Rightarrow> packet list \<Rightarrow> packet list \<Rightarrow> world \<Rightarrow> bool"
  for p :: ptr and g :: target and w0 :: world where
  wr_start: "world_run p g w0 [] [] w0"
| wr_step: "world_run p g w0 ins outs w \<Longrightarrow> world_step p g w w' \<Longrightarrow>
    world_run p g w0 (ins @ queued_by w w') (outs @ parsed_by w w') w'"

lemma world_run_reach: "world_run p g w0 ins outs w \<Longrightarrow> world_start p w0 \<Longrightarrow> reach (world_start p) (world_step p g) w"
  by (induction rule: world_run.induct) (auto intro: reach_init reach_step)

section \<open>The refinement\<close>

fun taken :: "proc_pc \<Rightarrow> ptr list" where
  "taken (PHave b) = [b]"
| "taken _ = []"

lemma seg_functional: "seg h p ps NULL \<Longrightarrow> seg h p qs NULL \<Longrightarrow> ps = qs"
proof (induction ps arbitrary: p qs)
  case Nil
  then show ?case by (cases qs) auto
next
  case (Cons a ps)
  then show ?case by (cases qs) (auto split: option.splits)
qed

lemma lq_rep_functional: "lq_rep q xs \<Longrightarrow> lq_rep q ys \<Longrightarrow> xs = ys"
  unfolding lq_rep_def lq_cells_are_def using seg_functional by blast

text \<open>
  In flight: the packets that were queued are those that were parsed, the one the parser
  has taken, and those in the queue, in this order and with the contents they had when they
  were queued; the session table and the output are those of the sequential program.
\<close>

definition in_flight :: "target \<Rightarrow> table \<Rightarrow> printed \<Rightarrow> packet list \<Rightarrow> packet list \<Rightarrow> world \<Rightarrow> ptr list \<Rightarrow> bool" where
  "in_flight g t0 lg0 ins outs w q \<longleftrightarrow>
     ins = outs @ map (w_pkts w) (taken (w_proc w) @ q) \<and>
     (\<exists>lg. parse_all t0 outs (w_sess w) lg \<and> w_log w = lg0 @ lg) \<and>
     (\<forall>pkt \<in> set ins. was_received g pkt) \<and> (\<forall>b. w_net w = NFilled b \<longrightarrow> was_received g (w_pkts w b))"

definition flies :: "target \<Rightarrow> table \<Rightarrow> printed \<Rightarrow> packet list \<Rightarrow> packet list \<Rightarrow> world \<Rightarrow> bool" where
  "flies g t0 lg0 ins outs w \<longleftrightarrow> (\<exists>q. lq_rep (w_queue w) q \<and> in_flight g t0 lg0 ins outs w q)"

text \<open>What the invariant of the threads gives for the buffers of the packets in flight.\<close>

lemma world_at_flight:
  assumes "world_inv p g w" and "lq_rep (w_queue w) q"
  shows "set (net_hand (w_net w)) \<inter> set (q @ proc_hand (w_proc w)) = {}" and "lq_abort (w_queue w) = 0" and "length q \<le> 32"
    and "set (taken (w_proc w)) \<subseteq> set (proc_hand (w_proc w))"
proof -
  from assms(1) obtain fs us r bs where at: "world_at p g w fs us r bs" by (auto simp: world_inv_def)
  then have "lq_rep (w_queue w) r" by (simp add: world_at_def lq_open_def)
  with assms(2) have "r = q" by (simp add: lq_rep_functional)
  with at world_queue_short [OF at] show "set (net_hand (w_net w)) \<inter> set (q @ proc_hand (w_proc w)) = {}"
    "lq_abort (w_queue w) = 0" "length q \<le> 32"
    by (auto simp: world_at_def lq_open_def)
  show "set (taken (w_proc w)) \<subseteq> set (proc_hand (w_proc w))" by (cases "w_proc w") auto
qed

lemma flies_recv:
  assumes inv: "world_inv p g w" and fl: "flies g t0 lg0 ins outs w" and b: "w_net w = NHave b"
    and r: "eth_recv g frame (w_pkts w b) = Inr (pkt, ret)"
  shows "flies g t0 lg0 ins outs (w\<lparr>w_pkts := (w_pkts w)(b := pkt)\<rparr>)"
    and "ret = 0 \<Longrightarrow> flies g t0 lg0 ins outs (w\<lparr>w_pkts := (w_pkts w)(b := pkt), w_net := NFilled b\<rparr>)"
proof -
  from fl obtain q where q: "lq_rep (w_queue w) q" "in_flight g t0 lg0 ins outs w q" by (auto simp: flies_def)
  have "b \<notin> set (taken (w_proc w) @ q)" using world_at_flight [OF inv q(1)] b by auto
  then have m: "map ((w_pkts w)(b := pkt)) (taken (w_proc w) @ q) = map (w_pkts w) (taken (w_proc w) @ q)"
    by (intro map_cong) auto
  have "length (p_buf (w_pkts w b)) = MAX_PACKET_SIZE" using inv by (auto simp: world_inv_def world_at_def)
  then have "was_received g pkt" if "ret = 0"
    using r that eth_recv_frame [of g frame "w_pkts w b" pkt] by (auto simp: was_received_def)
  with q m b show "flies g t0 lg0 ins outs (w\<lparr>w_pkts := (w_pkts w)(b := pkt)\<rparr>)"
    "ret = 0 \<Longrightarrow> flies g t0 lg0 ins outs (w\<lparr>w_pkts := (w_pkts w)(b := pkt), w_net := NFilled b\<rparr>)"
    unfolding flies_def in_flight_def by (auto simp del: map_append)
qed

lemma flies_put:
  assumes inv: "world_inv p g w" and fl: "flies g t0 lg0 ins outs w" and b: "w_net w = NFilled b"
    and a: "a \<noteq> NULL" "lq_cells (w_queue w) a = None" and put: "list_queue_put (w_queue w) b a = Inr (q', c)"
  shows "flies g t0 lg0 (ins @ [w_pkts w b]) outs (w\<lparr>w_queue := q', w_net := NGet\<rparr>)"
proof -
  from fl obtain q where q: "lq_rep (w_queue w) q" "in_flight g t0 lg0 ins outs w q" by (auto simp: flies_def)
  have "lq_avail (w_queue w) a"
    using a world_at_flight(3) [OF inv q(1)] lq_rep_num [OF q(1)] by (simp add: lq_avail_def INT_MAX_def)
  from list_queue_put_ok [OF q(1) world_at_flight(2) [OF inv q(1)] this, of b] put have "lq_rep q' (q @ [b])" by auto
  with q(2) b show ?thesis unfolding flies_def in_flight_def by fastforce
qed

lemma flies_take:
  assumes inv: "world_inv p g w" and fl: "flies g t0 lg0 ins outs w" and pc: "w_proc w = PGet"
    and get: "list_queue_get (w_queue w) old 1 = Inr (Got q' c b)"
  shows "flies g t0 lg0 ins outs (w\<lparr>w_queue := q', w_proc := PHave b\<rparr>)"
proof -
  from fl obtain q where q: "lq_rep (w_queue w) q" "in_flight g t0 lg0 ins outs w q" by (auto simp: flies_def)
  note o = world_at_flight(2,3) [OF inv q(1)]
  show ?thesis
  proof (cases q)
    case Nil
    with q(1) o(1) get show ?thesis by (simp add: list_queue_get_empty)
  next
    case (Cons x xs)
    then have "int (length xs) < INT_MAX" using o(2) by (simp add: INT_MAX_def)
    from list_queue_get_ok [OF q(1) [unfolded Cons] o(1) this, of old 1] get
    have "b = x" "lq_rep q' xs" by auto
    with q(2) pc Cons show ?thesis unfolding flies_def in_flight_def by auto
  qed
qed

lemma flies_done:
  assumes fl: "flies g t0 lg0 ins outs w" and pc: "w_proc w = PHave b"
    and pa: "\<And>lg. parse_all t0 outs (w_sess w) lg \<Longrightarrow> parse_all t0 (outs @ [w_pkts w b]) t (lg @ out)"
  shows "flies g t0 lg0 ins (outs @ [w_pkts w b]) (w\<lparr>w_sess := t, w_log := w_log w @ out, w_proc := PDone b\<rparr>)"
proof -
  from fl obtain q lg where q: "lq_rep (w_queue w) q" "in_flight g t0 lg0 ins outs w q"
    "parse_all t0 outs (w_sess w) lg" "w_log w = lg0 @ lg" by (auto simp: flies_def in_flight_def)
  from pa [OF q(3)] q pc show ?thesis unfolding flies_def in_flight_def by auto
qed

lemma flies_step:
  assumes inv: "world_inv p g w" and fl: "flies g t0 lg0 ins outs w" and step: "world_step p g w w'"
  shows "flies g t0 lg0 (ins @ queued_by w w') (outs @ parsed_by w w') w'"
  using step
proof cases
  case (n_get m b)
  with fl show ?thesis by (auto simp: queued_by_def parsed_by_def flies_def in_flight_def split: proc_pc.split)
next
  case n_wait
  with fl show ?thesis by (auto simp: queued_by_def parsed_by_def flies_def in_flight_def split: proc_pc.split)
next
  case (n_resume m b)
  with fl show ?thesis by (auto simp: queued_by_def parsed_by_def flies_def in_flight_def split: proc_pc.split)
next
  case (n_recv_again b frame pkt ret)
  with flies_recv(1) [OF inv fl] show ?thesis by (auto simp: queued_by_def parsed_by_def split: proc_pc.split)
next
  case (n_recv b frame pkt)
  with flies_recv(2) [OF inv fl] show ?thesis by (auto simp: queued_by_def parsed_by_def split: proc_pc.split)
next
  case (n_put b a q c)
  with flies_put [OF inv fl] show ?thesis by (auto simp: queued_by_def parsed_by_def split: proc_pc.split)
next
  case (n_put_fails b q c)
  have "q = w_queue w" using n_put_fails(3)
    by (auto simp: list_queue_put_def list_queue_put_private_def split: if_splits)
  with fl n_put_fails show ?thesis by (auto simp: queued_by_def parsed_by_def flies_def in_flight_def split: proc_pc.split)
next
  case (p_take old q c b)
  with flies_take [OF inv fl] show ?thesis by (auto simp: queued_by_def parsed_by_def split: net_pc.split)
next
  case (p_parse b pkt now t out ret)
  with flies_done [OF fl, of b t out] pa_parse [of t0 outs "w_sess w" _ "w_pkts w b"] show ?thesis
    by (auto simp: queued_by_def parsed_by_def split: net_pc.split)
next
  case (p_ignore b pkt)
  with flies_done [OF fl, of b "w_sess w" "[]"] pa_ignore [of t0 outs "w_sess w" _ "w_pkts w b"] show ?thesis
    by (auto simp: queued_by_def parsed_by_def split: net_pc.split)
next
  case (p_give b m c)
  have "wake_net n = NFilled x \<longleftrightarrow> n = NFilled x" for n x by (auto simp: wake_net_def)
  with fl p_give show ?thesis
    by (auto simp: queued_by_def parsed_by_def flies_def in_flight_def wake_net_def split: net_pc.split)
qed

lemma start_state:
  assumes "main_init m p q0 t0 pk = Inr (w, p)"
  shows "w_queue w = (fst (list_queue_init q0))\<lparr>lq_abort := 0\<rparr>" "w_pkts w = pk" "w_log w = []" "w_net w = NGet" "w_proc w = PGet"
    "w_lost w = []"
  using assms by (auto simp: main_init_def bindR_Inr_iff Let_def split_def)

lemma flies_start:
  assumes "world_start p w" shows "flies g (w_sess w) [] [] [] w"
proof -
  from assms obtain m q0 t0 pk where "main_init m p q0 t0 pk = Inr (w, p)" by (auto simp: world_start_def)
  note s = start_state [OF this]
  have "lq_rep (w_queue w) []" unfolding s(1) by (simp add: list_queue_init_def lq_rep_Nil)
  then show ?thesis unfolding flies_def in_flight_def by (auto simp: s intro: pa_none)
qed

lemma world_run_flies:
  assumes "world_run p g w0 ins outs w" and "world_start p w0"
  shows "flies g (w_sess w0) [] ins outs w"
  using assms
proof (induction rule: world_run.induct)
  case wr_start
  then show ?case by (rule flies_start)
next
  case (wr_step ins outs w w')
  have "world_inv p g w" using main.reach_inv [OF world_run_reach [OF wr_step.hyps(1) wr_step.prems]] .
  from flies_step [OF this wr_step.IH [OF wr_step.prems] wr_step.hyps(2)] show ?case .
qed

section \<open>Correctness\<close>


text \<open>A run of four steps: a buffer is taken, the example frame received into it and queued, and the parser takes it.\<close>

lemma ex_delivery_run:
  assumes init: "main_init ex_start_mem 4096 q0 (replicate 32 zero_session) (\<lambda>_. ex_packet) = Inr (w, 4096)"
    and q0: "lq_cells q0 = Map.empty"
  shows "world_start 4096 w \<and> (\<exists>pkt w'. world_run 4096 ex_target w [pkt] [] w' \<and> p_dir pkt = REQUEST)"
proof -
  have mem: "lists ex_start_mem NULL = None" "length (replicate 32 zero_session) = MAX_SESS_NODE"
    by (simp_all add: ex_start_mem_def MAX_SESS_NODE_def)
  from main_init_run [OF _ mem, of 4096 q0 "\<lambda>_. ex_packet"] init obtain fs
    where fs: "pool_inv 4096 (w_pool w) fs []" "length fs = 32" "lq_open (w_queue w) []" by auto
  note s = start_state [OF init]
  have w: "lq_rep (w_queue w) []" "lq_abort (w_queue w) = 0" "lq_cells (w_queue w) = Map.empty" "w_pkts w = (\<lambda>_. ex_packet)"
    "w_net w = NGet" "w_proc w = PGet" "w_lost w = []"
    using fs(3) s q0 by (simp_all add: lq_open_def list_queue_init_def)
  from fs(2) obtain b gs where "fs = b # gs" by (cases fs) auto
  with mp.get_free [of 4096 "w_pool w" b gs "[]"] fs(1) obtain m where
    m: "mem_pool_get (w_pool w) 4096 = Inr (Done (m, b))" by auto
  define pkt where "pkt = accepted ex_target ex_headers (ex_packet\<lparr>p_buf := ex_frame @ drop (length ex_frame) (p_buf ex_packet)\<rparr>)"
  have recv: "eth_recv ex_target (Frame ex_frame) ex_packet = Inr (pkt, 0)"
    using eth_recv_spec [OF ex_packet_simps ex_frame_headers, of ex_target] by (simp add: Let_def ex_wanted pkt_def)
  have "lq_avail (w_queue w) 64" using w(3) lq_rep_num [OF w(1)] by (simp add: lq_avail_def INT_MAX_def)
  from list_queue_put_ok [OF w(1,2) this, of b] obtain q1 where
    q1: "list_queue_put (w_queue w) b 64 = Inr (q1, 0)" "lq_rep q1 [b]" "lq_abort q1 = 0" by auto
  from list_queue_get_ok [OF q1(2,3), of NULL 1] obtain q2 where q2: "list_queue_get q1 NULL 1 = Inr (Got q2 1 b)"
    by (auto simp: INT_MAX_def)
  define w1 where "w1 = w\<lparr>w_pool := m, w_net := NHave b\<rparr>"
  define w2 where "w2 = w1\<lparr>w_pkts := (w_pkts w1)(b := pkt), w_net := NFilled b\<rparr>"
  define w3 where "w3 = w2\<lparr>w_queue := q1, w_net := NGet\<rparr>"
  define w4 where "w4 = w3\<lparr>w_queue := q2, w_proc := PHave b\<rparr>"
  note ws = w w1_def w2_def w3_def w4_def
  have steps: "world_step 4096 ex_target w w1" "world_step 4096 ex_target w1 w2" "world_step 4096 ex_target w2 w3"
      "world_step 4096 ex_target w3 w4"
    unfolding w4_def w3_def w2_def
    by (simp add: w1_def n_get [OF w(5) m]) (intro n_recv n_put [where a = 64 and b = b and c = 0] p_take;
      use recv q1(1) q2 in \<open>simp add: ws\<close>)+
  have ev: "queued_by w w1 = []" "queued_by w1 w2 = []" "queued_by w2 w3 = [pkt]" "queued_by w3 w4 = []"
      "parsed_by w w1 = []" "parsed_by w1 w2 = []" "parsed_by w2 w3 = []" "parsed_by w3 w4 = []"
    by (simp_all add: queued_by_def parsed_by_def ws)
  have "world_run 4096 ex_target w [pkt] [] w4"
    using wr_step [OF wr_step [OF wr_step [OF wr_step [OF wr_start steps(1)] steps(2)] steps(3)] steps(4)] by (simp add: ev)
  moreover have "p_dir pkt = REQUEST" by (simp add: pkt_def accepted_def ex_wanted)
  moreover have "world_start 4096 w" unfolding world_start_def using mem init by (metis ex_packet_simps(1) zero_neq_numeral)
  ultimately show ?thesis by blast
qed

definition ex_queue0 :: list_queue where
  "ex_queue0 = \<lparr>lq_cells = Map.empty, lq_first = 5, lq_last = 6, lq_num = 7, lq_abort = 8, lq_signals = 0\<rparr>"


end
