(* ===== verification/CJsonPrint.thy ===== *)
theory CJsonPrint
  imports CJsonGrammar
begin

text \<open>
  Printing of items in \<^verbatim>\<open>src/src/cJSON.c\<close>, with every write checked against the size of the
  buffer that the code computes before. \<open>ok n\<close> says whether an allocation of \<open>n\<close> bytes
  succeeds; a printed text is \<open>None\<close> where the code returns NULL, and otherwise the
  characters before the terminating NUL.
\<close>

section \<open>Strings\<close>

text \<open>A string and its NUL are written at the end of what is in the buffer.\<close>

definition put_str :: "nat \<Rightarrow> u8 list \<Rightarrow> u8 list \<Rightarrow> u8 list res" where
  "put_str cap out s = bindR (put_bytes cap out (s @ [0])) (\<lambda>_. Inr (out @ s))"

definition cJSON_strdup :: "(nat \<Rightarrow> bool) \<Rightarrow> u8 list \<Rightarrow> u8 list option" where
  "cJSON_strdup ok s = (if ok (length s + 1) then Some s else None)"

definition short_escape :: "u8 \<Rightarrow> u8 option" where
  "short_escape c =
     (if c = CH_BACKSLASH then Some CH_BACKSLASH else if c = CH_QUOTE then Some CH_QUOTE
      else if c = 8 then Some 0x62 else if c = 12 then Some 0x66 else if c = 10 then Some 0x6E
      else if c = 13 then Some 0x72 else if c = 9 then Some 0x74 else None)"

text \<open>The first loop: the length of the text.\<close>

fun escaped_length :: "u8 list \<Rightarrow> nat" where
  "escaped_length [] = 0"
| "escaped_length (c # s) =
     1 + (if short_escape c \<noteq> None then 1 else if c < 32 then 5 else 0) + escaped_length s"

definition hex_digit :: "nat \<Rightarrow> u8" where
  "hex_digit n = of_nat (if n < 10 then 0x30 + n else 0x57 + n)"

text \<open>\<^verbatim>\<open>sprintf (ptr2, "u%04x", token)\<close>\<close>

definition u04x :: "u8 \<Rightarrow> u8 list" where
  "u04x c = [0x75, 0x30, 0x30, hex_digit (unat c div 16), hex_digit (unat c mod 16)]"

text \<open>The second loop: \<open>out\<close> is what was written so far.\<close>

fun escape_loop :: "nat \<Rightarrow> u8 list \<Rightarrow> u8 list \<Rightarrow> u8 list res" where
  "escape_loop cap [] out = Inr out"
| "escape_loop cap (c # s) out =
     bindR (if c > 31 \<and> c \<noteq> CH_QUOTE \<and> c \<noteq> CH_BACKSLASH then put_bytes cap out [c]
            else bindR (put_bytes cap out [CH_BACKSLASH]) (\<lambda>out.
              case short_escape c of
                Some e \<Rightarrow> put_bytes cap out [e]
              | None \<Rightarrow> put_str cap out (u04x c))) (\<lambda>out.
     escape_loop cap s out)"

definition print_string_ptr :: "(nat \<Rightarrow> bool) \<Rightarrow> u8 list option \<Rightarrow> u8 list option res" where
  "print_string_ptr ok str =
     (case str of
        None \<Rightarrow> Inr (cJSON_strdup ok [])
      | Some s \<Rightarrow>
          let s = c_view s; cap = escaped_length s + 3 in
          if \<not> ok cap then Inr None
          else
            bindR (put_bytes cap [] [CH_QUOTE]) (\<lambda>out.
            bindR (escape_loop cap s out) (\<lambda>out.
            bindR (put_bytes cap out [CH_QUOTE]) (\<lambda>out.
            bindR (put_bytes cap out [0]) (\<lambda>_. Inr (Some out))))))"

definition print_string :: "(nat \<Rightarrow> bool) \<Rightarrow> cjson \<Rightarrow> u8 list option res" where
  "print_string ok item = print_string_ptr ok (valuestring item)"

section \<open>Numbers\<close>

text \<open>The value of a number is \<open>numer d / denom d\<close>; \<open>value_int\<close> is its integer part, the value of \<^verbatim>\<open>valueint\<close>.\<close>

definition numer :: "decimal_number \<Rightarrow> int" where
  "numer d = mantissa d * 10 ^ nat (exponent d)"

definition denom :: "decimal_number \<Rightarrow> int" where
  "denom d = 10 ^ nat (- exponent d)"

definition value_int :: "decimal_number \<Rightarrow> int" where
  "value_int d = (if numer d < 0 then - (- numer d div denom d) else numer d div denom d)"

text \<open>\<^verbatim>\<open>fabs (i - d) <= DBL_EPSILON\<close>, with the epsilon \<open>1 / 2 ^ 52\<close>.\<close>

definition close_to :: "int \<Rightarrow> decimal_number \<Rightarrow> bool" where
  "close_to i d \<longleftrightarrow> \<bar>i * denom d - numer d\<bar> * 2 ^ 52 \<le> denom d"

definition with_sign :: "bool \<Rightarrow> u8 list \<Rightarrow> u8 list" where
  "with_sign neg t = (if neg then 0x2D # t else t)"

text \<open>\<^verbatim>\<open>%d\<close>\<close>

definition fmt_d :: "int \<Rightarrow> u8 list" where
  "fmt_d i = with_sign (i < 0) (decimal (nat \<bar>i\<bar>))"

text \<open>\<open>a / b\<close> to the nearest integer, an even one when there are two.\<close>

definition round_even :: "nat \<Rightarrow> nat \<Rightarrow> nat" where
  "round_even a b =
     (let q = a div b; r = a mod b in
      if 2 * r < b then q else if 2 * r > b then q + 1 else if even q then q else q + 1)"

definition zeros :: "nat \<Rightarrow> u8 list" where
  "zeros n = replicate n 0x30"

text \<open>\<^verbatim>\<open>%.0f\<close>, \<^verbatim>\<open>%f\<close> and \<^verbatim>\<open>%e\<close>, the last two with six digits after the point.\<close>

definition fmt_0f :: "decimal_number \<Rightarrow> u8 list" where
  "fmt_0f d = with_sign (numer d < 0) (decimal (round_even (nat \<bar>numer d\<bar>) (nat (denom d))))"

definition point6 :: "nat \<Rightarrow> u8 list" where
  "point6 k = decimal (k div 10 ^ 6) @ 0x2E #
     (let t = decimal (k mod 10 ^ 6) in zeros (6 - length t) @ t)"

definition fmt_f :: "decimal_number \<Rightarrow> u8 list" where
  "fmt_f d = with_sign (numer d < 0) (point6 (round_even (nat \<bar>numer d\<bar> * 10 ^ 6) (nat (denom d))))"

text \<open>The decimal exponent of \<open>a / b\<close> for \<open>0 < a < b\<close> is minus the first \<open>k\<close> with \<open>a * 10 ^ k \<ge> b\<close>.\<close>

function scale_up :: "nat \<Rightarrow> nat \<Rightarrow> nat \<Rightarrow> nat" where
  "scale_up a b k = (if a = 0 \<or> b \<le> a then k else scale_up (a * 10) b (k + 1))"
  by pat_completeness auto
termination by (relation "measure (\<lambda>(a, b, k). b - a)") auto

declare scale_up.simps [simp del]

definition decimal_exponent :: "nat \<Rightarrow> nat \<Rightarrow> int" where
  "decimal_exponent a b =
     (if b \<le> a then int (length (decimal (a div b))) - 1 else - int (scale_up a b 0))"

definition fmt_e :: "decimal_number \<Rightarrow> u8 list" where
  "fmt_e d =
     (let a = nat \<bar>numer d\<bar>; b = nat (denom d); x = decimal_exponent a b;
          k = round_even (a * 10 ^ nat (6 - x)) (b * 10 ^ nat (x - 6));
          (k, x) = (if k = 10 ^ 7 then (10 ^ 6, x + 1) else (k, x));
          t = decimal (nat \<bar>x\<bar>) in
      with_sign (numer d < 0) (point6 k) @ 0x65 # (if x < 0 then 0x2D else 0x2B) # zeros (2 - length t) @ t)"

definition print_number :: "(nat \<Rightarrow> bool) \<Rightarrow> cjson \<Rightarrow> u8 list option res" where
  "print_number ok item =
     (let d = (case number item of Some d \<Rightarrow> d | None \<Rightarrow> Dec 0 0);
          a = \<bar>numer d\<bar>; b = denom d in
      if close_to (value_int d) d \<and> numer d \<le> INT_MAX * b \<and> numer d \<ge> INT_MIN * b then
        (if ok 21 then bindR (put_str 21 [] (fmt_d (value_int d))) (\<lambda>t. Inr (Some t)) else Inr None)
      else if \<not> ok 64 then Inr None
      else
        bindR (put_str 64 []
          (if close_to (numer d div b) d \<and> a < 10 ^ 60 * b then fmt_0f d
           else if a * 10 ^ 6 < b \<or> a > 10 ^ 9 * b then fmt_e d
           else fmt_f d)) (\<lambda>t. Inr (Some t)))"

section \<open>Arrays and objects\<close>

text \<open>The texts of the children of an array; the loop stops at the first that fails.\<close>

fun array_entries :: "(cjson \<Rightarrow> u8 list option res) \<Rightarrow> cjson list \<Rightarrow> u8 list list option res" where
  "array_entries pv [] = Inr (Some [])"
| "array_entries pv (c # cs) =
     bindR (pv c) (\<lambda>ret.
     case ret of
       None \<Rightarrow> Inr None
     | Some t \<Rightarrow> bindR (array_entries pv cs) (\<lambda>ts. Inr (map_option ((#) t) ts)))"

fun array_compose :: "nat \<Rightarrow> bool \<Rightarrow> u8 list list \<Rightarrow> u8 list \<Rightarrow> u8 list res" where
  "array_compose cap fmt [] out = Inr out"
| "array_compose cap fmt (e # es) out =
     bindR (put_str cap out e) (\<lambda>out.
     bindR (if es \<noteq> [] then put_str cap out (if fmt then [0x2C, 0x20] else [0x2C]) else Inr out) (\<lambda>out.
     array_compose cap fmt es out))"

definition print_array :: "(nat \<Rightarrow> bool) \<Rightarrow> (cjson \<Rightarrow> u8 list option res) \<Rightarrow> bool \<Rightarrow> cjson list \<Rightarrow> u8 list option res" where
  "print_array ok pv fmt cs =
     (if cs = [] then (if ok 3 then bindR (put_str 3 [] [0x5B, 0x5D]) (\<lambda>t. Inr (Some t)) else Inr None)
      else if \<not> ok (8 * length cs) then Inr None
      else
        bindR (array_entries pv cs) (\<lambda>entries.
        case entries of
          None \<Rightarrow> Inr None
        | Some es \<Rightarrow>
            let len = 5 + sum_list (map (\<lambda>e. length e + 2 + (if fmt then 1 else 0)) es) in
            if \<not> ok len then Inr None
            else
              bindR (put_str len [] [0x5B]) (\<lambda>out.
              bindR (array_compose len fmt es out) (\<lambda>out.
              bindR (put_bytes len out [0x5D]) (\<lambda>out.
              bindR (put_bytes len out [0]) (\<lambda>_. Inr (Some out)))))))"

text \<open>The names and texts of the members of an object; this loop goes on after a failure.\<close>

fun object_entries :: "(nat \<Rightarrow> bool) \<Rightarrow> (cjson \<Rightarrow> u8 list option res) \<Rightarrow> cjson list \<Rightarrow> (u8 list \<times> u8 list) list option res" where
  "object_entries ok pv [] = Inr (Some [])"
| "object_entries ok pv (c # cs) =
     bindR (print_string_ptr ok (cj_name c)) (\<lambda>str.
     bindR (pv c) (\<lambda>ret.
     bindR (object_entries ok pv cs) (\<lambda>rest.
     Inr (case (str, ret, rest) of (Some s, Some t, Some es) \<Rightarrow> Some ((s, t) # es) | _ \<Rightarrow> None))))"

definition tabs :: "nat \<Rightarrow> u8 list" where
  "tabs n = replicate n 0x09"

fun object_compose :: "nat \<Rightarrow> nat \<Rightarrow> bool \<Rightarrow> (u8 list \<times> u8 list) list \<Rightarrow> u8 list \<Rightarrow> u8 list res" where
  "object_compose cap depth fmt [] out = Inr out"
| "object_compose cap depth fmt ((s, t) # es) out =
     bindR (if fmt then put_bytes cap out (tabs depth) else Inr out) (\<lambda>out.
     bindR (put_str cap out s) (\<lambda>out.
     bindR (put_bytes cap out (if fmt then [0x3A, 0x09] else [0x3A])) (\<lambda>out.
     bindR (put_str cap out t) (\<lambda>out.
     bindR (if es \<noteq> [] then put_bytes cap out [0x2C] else Inr out) (\<lambda>out.
     bindR (put_str cap out (if fmt then [0x0A] else [])) (\<lambda>out.
     object_compose cap depth fmt es out))))))"

definition print_object ::
  "(nat \<Rightarrow> bool) \<Rightarrow> (nat \<Rightarrow> cjson \<Rightarrow> u8 list option res) \<Rightarrow> nat \<Rightarrow> bool \<Rightarrow> cjson list \<Rightarrow> u8 list option res" where
  "print_object ok pv depth fmt cs =
     (if cs = [] then
        let cap = (if fmt then depth + 3 else 3) in
        if \<not> ok cap then Inr None
        else
          bindR (put_bytes cap [] [0x7B]) (\<lambda>out.
          bindR (if fmt then put_bytes cap out (0x0A # tabs (depth - 1)) else Inr out) (\<lambda>out.
          bindR (put_bytes cap out [0x7D]) (\<lambda>out.
          bindR (put_bytes cap out [0]) (\<lambda>_. Inr (Some out)))))
      else if \<not> ok (8 * length cs) then Inr None
      else
        let depth = depth + 1 in
        bindR (object_entries ok (pv depth) cs) (\<lambda>entries.
        case entries of
          None \<Rightarrow> Inr None
        | Some es \<Rightarrow>
            let len = 7 + (if fmt then depth else 0) +
              sum_list (map (\<lambda>(s, t). length t + length s + 2 + (if fmt then 2 + depth else 0)) es) in
            if \<not> ok len then Inr None
            else
              bindR (put_str len [] (if fmt then [0x7B, 0x0A] else [0x7B])) (\<lambda>out.
              bindR (object_compose len depth fmt es out) (\<lambda>out.
              bindR (if fmt then put_bytes len out (tabs (depth - 1)) else Inr out) (\<lambda>out.
              bindR (put_bytes len out [0x7D]) (\<lambda>out.
              bindR (put_bytes len out [0]) (\<lambda>_. Inr (Some out))))))))"

lemma array_entries_cong [fundef_cong]:
  "cs = ds \<Longrightarrow> (\<And>x. x \<in> set ds \<Longrightarrow> f x = g x) \<Longrightarrow> array_entries f cs = array_entries g ds"
proof (induction cs arbitrary: ds)
  case (Cons c cs)
  then show ?case by (cases "g c") (auto split: option.splits)
qed simp

lemma object_entries_cong [fundef_cong]:
  "cs = ds \<Longrightarrow> (\<And>x. x \<in> set ds \<Longrightarrow> f x = g x) \<Longrightarrow> object_entries ok f cs = object_entries ok g ds"
proof (induction cs arbitrary: ds)
  case (Cons c cs)
  then show ?case by auto
qed simp

lemma print_array_cong [fundef_cong]:
  "cs = ds \<Longrightarrow> (\<And>x. x \<in> set ds \<Longrightarrow> f x = g x) \<Longrightarrow> print_array ok f fmt cs = print_array ok g fmt ds"
  using array_entries_cong [of cs ds f g] by (simp add: print_array_def)

lemma print_object_cong [fundef_cong]:
  "cs = ds \<Longrightarrow> (\<And>x n. x \<in> set ds \<Longrightarrow> f n x = g n x) \<Longrightarrow> print_object ok f depth fmt cs = print_object ok g depth fmt ds"
  using object_entries_cong [of cs ds "f (depth + 1)" "g (depth + 1)"] by (simp add: print_object_def)

lemma child_size: "x \<in> set (children item) \<Longrightarrow> size x < size item"
  by (cases item) (auto simp: less_Suc_eq_le intro: size_list_estimation')

text \<open>\<^verbatim>\<open>print_value\<close>; the low byte of the type counts.\<close>

function print_value :: "(nat \<Rightarrow> bool) \<Rightarrow> nat \<Rightarrow> bool \<Rightarrow> cjson \<Rightarrow> u8 list option res" where
  "print_value ok depth fmt item =
     (let ty = cj_type item AND 255 in
      if ty = cJSON_NULL then Inr (cJSON_strdup ok (bytes_of ''null''))
      else if ty = cJSON_False then Inr (cJSON_strdup ok (bytes_of ''false''))
      else if ty = cJSON_True then Inr (cJSON_strdup ok (bytes_of ''true''))
      else if ty = cJSON_Number then print_number ok item
      else if ty = cJSON_String then print_string ok item
      else if ty = cJSON_Array then print_array ok (print_value ok (depth + 1) fmt) fmt (children item)
      else if ty = cJSON_Object then print_object ok (\<lambda>depth. print_value ok depth fmt) depth fmt (children item)
      else Inr None)"
  by pat_completeness auto
termination by (relation "measure (\<lambda>(ok, depth, fmt, item). size item)") (auto dest: child_size)

declare print_value.simps [simp del]

definition cJSON_Print :: "(nat \<Rightarrow> bool) \<Rightarrow> cjson \<Rightarrow> u8 list option res" where
  "cJSON_Print ok item = print_value ok 0 True item"

definition cJSON_PrintUnformatted :: "(nat \<Rightarrow> bool) \<Rightarrow> cjson \<Rightarrow> u8 list option res" where
  "cJSON_PrintUnformatted ok item = print_value ok 0 False item"

section \<open>The text of a string\<close>

definition esc :: "u8 \<Rightarrow> u8 list" where
  "esc c = (case short_escape c of Some e \<Rightarrow> [CH_BACKSLASH, e] | None \<Rightarrow> if c > 31 then [c] else CH_BACKSLASH # u04x c)"

definition escaped :: "u8 list \<Rightarrow> u8 list" where
  "escaped s = concat (map esc s)"

definition quoted :: "u8 list \<Rightarrow> u8 list" where
  "quoted s = CH_QUOTE # escaped s @ [CH_QUOTE]"

lemma escaped_simps [simp]: "escaped [] = []" "escaped (c # s) = esc c @ escaped s"
  by (simp_all add: escaped_def)

lemma short_escape_None_31: "c > 31 \<Longrightarrow> short_escape c = None \<longleftrightarrow> c \<noteq> CH_QUOTE \<and> c \<noteq> CH_BACKSLASH"
  by (auto simp: short_escape_def split: if_splits)

lemma word_31_32: "(c :: u8) < 32 \<longleftrightarrow> \<not> c > 31"
  by (auto simp: word_less_nat_alt)

lemma escaped_length: "length (escaped s) = escaped_length s"
  by (induction s) (auto simp: esc_def u04x_def word_31_32 split: option.splits)

lemma escape_step:
  assumes "length out + length (esc c) < cap"
  shows "(if c > 31 \<and> c \<noteq> CH_QUOTE \<and> c \<noteq> CH_BACKSLASH then put_bytes cap out [c]
      else bindR (put_bytes cap out [CH_BACKSLASH]) (\<lambda>out.
        case short_escape c of Some e \<Rightarrow> put_bytes cap out [e] | None \<Rightarrow> put_str cap out (u04x c))) =
    Inr (out @ esc c)"
proof (cases "c > 31 \<and> c \<noteq> CH_QUOTE \<and> c \<noteq> CH_BACKSLASH")
  case True
  with short_escape_None_31 have "short_escape c = None" by blast
  with True assms show ?thesis by (simp add: esc_def put_bytes_def)
next
  case False
  with short_escape_None_31 have "short_escape c = None \<Longrightarrow> \<not> c > 31" by blast
  with False assms show ?thesis
    by (cases "short_escape c") (auto simp: esc_def put_bytes_def put_str_def u04x_def)
qed

lemma escape_loop_run:
  "length out + escaped_length s < cap \<Longrightarrow> escape_loop cap s out = Inr (out @ escaped s)"
proof (induction s arbitrary: out)
  case (Cons c s)
  have "escape_loop cap s (out @ esc c) = Inr ((out @ esc c) @ escaped s)"
    using Cons.prems escaped_length [of "[c]"] by (intro Cons.IH) simp
  moreover have "length out + length (esc c) < cap"
    using Cons.prems escaped_length [of "[c]"] by simp
  ultimately show ?case using escape_step [of out c cap] by simp
qed simp

lemma print_string_ptr_run:
  "print_string_ptr ok (Some s) = Inr (if ok (escaped_length (c_view s) + 3) then Some (quoted (c_view s)) else None)"
  by (simp add: print_string_ptr_def Let_def escape_loop_run put_bytes_def quoted_def escaped_length)

lemma c_view_no_nul: "0 \<notin> set s \<Longrightarrow> c_view s = s"
  by (auto simp: c_view_def takeWhile_eq_all_conv)

lemma hex_digit_value:
  assumes "n < 16"
  shows "hex_value (hex_digit n) = Some n"
proof -
  have "\<forall>n \<in> set [0..<16]. hex_value (hex_digit n) = Some n"
    by (simp add: upt_rec hex_digit_def hex_value_def is_digit_def)
  with assms show ?thesis by simp
qed

lemma unat_ucast32: "unat (ucast (c :: u8) :: u32) = unat c"
  using unsigned_less [where 'a = nat and w = c]
  by (simp add: unsigned_ucast_eq unsigned_take_bit_eq take_bit_nat_eq_self_iff)

lemma utf8_ascii:
  assumes "c < 0x80"
  shows "utf8 (of_nat (unat (c :: u8))) = [c]"
proof -
  have "unat (ucast (ucast c :: u32) :: u8) = unat c"
    using unsigned_less [where 'a = nat and w = c]
    by (simp add: unsigned_ucast_eq unsigned_take_bit_eq unat_ucast32 take_bit_nat_eq_self_iff)
  then have "ucast (ucast c :: u32) = c" by (simp only: word_unat_eq_iff)
  with assms show ?thesis
    by (simp add: utf8_def utf8_len_def firstByteMark_def word_less_nat_alt unat_ucast32)
qed

lemma str_text_esc:
  assumes "c \<noteq> 0" and "str_text b s"
  shows "str_text (esc c @ b) (c # s)"
proof (cases "short_escape c")
  case (Some e)
  then have "e \<noteq> 0x75" "e \<noteq> 0" "simple_escape e = c" by (auto simp: short_escape_def simple_escape_def split: if_splits)
  with str_escape [of e b s] assms(2) Some show ?thesis by (simp add: esc_def)
next
  case None
  show ?thesis
  proof (cases "c > 31")
    case True
    with None assms short_escape_None_31 [of c] show ?thesis by (simp add: esc_def str_char)
  next
    case False
    then have c: "unat c < 32" "c < 0x80" by (simp_all add: word_less_nat_alt)
    let ?h = "[0x30, 0x30, hex_digit (unat c div 16), hex_digit (unat c mod 16)]"
    have "hex_value 0x30 = Some 0" by (simp add: hex_value_def is_digit_def)
    then have "hex4 ?h (unat c)" using c by (simp add: hex4_def hex_digit_value)
    moreover have "0 < unat c" using assms(1) by (simp add: word_unat_eq_iff)
    ultimately have "str_text (CH_BACKSLASH # 0x75 # ?h @ b) (utf8 (of_nat (unat c)) @ s)"
      using c(1) assms(2) by (intro str_unicode) simp_all
    with None False utf8_ascii [OF c(2)] show ?thesis by (simp add: esc_def u04x_def)
  qed
qed

lemma str_text_escaped: "0 \<notin> set s \<Longrightarrow> str_text (escaped s) s"
  by (induction s) (auto intro: str_nil str_text_esc)

section \<open>The text of a number\<close>

lemma decimal_digits: "all_digits (decimal n)"
proof (induction n rule: decimal.induct)
  case (1 n)
  have "\<forall>k \<in> set [0..<10]. is_digit (of_nat (48 + k))" by (simp add: upt_rec is_digit_def)
  then have d: "is_digit (of_nat (48 + k))" if "k < 10" for k using that by simp
  show ?case
  proof (cases "n < 10")
    case True
    then show ?thesis using d [of n] by (subst decimal.simps) (simp del: of_nat_add)
  next
    case False
    have "is_digit (of_nat (48 + n mod 10))" by (rule d) simp
    with 1 [OF False] False show ?thesis by (subst decimal.simps) (simp del: of_nat_add of_nat_mod)
  qed
qed

lemma uint_digit: "k < 10 \<Longrightarrow> uint (of_nat (48 + k) :: u8) = 48 + int k"
  by (simp add: unsigned_of_nat take_bit_eq_mod del: of_nat_add)

lemma decimal_value: "dval 0 (decimal n) = int n"
proof (induction n rule: decimal.induct)
  case (1 n)
  have v: "dval a [of_nat (48 + k)] = a * 10 + int k" if "k < 10" for a k
    using uint_digit [OF that] by simp
  show ?case
  proof (cases "n < 10")
    case True
    with v [OF True, of 0] show ?thesis by (subst decimal.simps) simp
  next
    case False
    have "dval 0 (decimal n) = int (n div 10) * 10 + int (n mod 10)"
      using 1 [OF False] v [of "n mod 10" "int (n div 10)"] False by (subst decimal.simps) (simp del: of_nat_add of_nat_mod of_nat_div)
    then show ?thesis by (metis div_mult_mod_eq of_nat_add of_nat_mult of_nat_numeral)
  qed
qed

lemma decimal_int_part: "int_part (decimal n)"
proof (induction n rule: decimal.induct)
  case (1 n)
  have h: "\<forall>k \<in> set [1..<10]. of_nat (48 + k) \<noteq> (0x30 :: u8)" by (simp add: upt_rec)
  show ?case
  proof (cases "n < 10")
    case True
    then have "decimal n = [of_nat (48 + n)]" by (subst decimal.simps) simp
    with h decimal_digits [of n] True show ?thesis
      by (cases "n = 0") (simp_all add: int_part_def del: of_nat_add)
  next
    case False
    then have "n div 10 > 0" by simp
    then have "decimal (n div 10) \<noteq> [0x30]"
      using decimal_value [of "n div 10"] by (auto simp: dval_def)
    with 1 [OF False] have "decimal (n div 10) \<noteq> []" "hd (decimal (n div 10)) \<noteq> 0x30" by (auto simp: int_part_def)
    with False decimal_digits [of n] show ?thesis
      by (simp add: int_part_def decimal.simps [of n])
  qed
qed

lemma fmt_d_text: "num_text (Dec i 0) (fmt_d i)"
  unfolding num_text_def
  by (rule exI [of _ "i < 0"], rule exI [of _ "decimal (nat \<bar>i\<bar>)"], rule exI [of _ "[]"], rule exI [of _ 0], rule exI [of _ "[]"])
    (simp add: decimal_int_part decimal_value exp_part_def frac_part_def fmt_d_def with_sign_def)

definition int_range :: "int \<Rightarrow> bool" where
  "int_range i \<longleftrightarrow> INT_MIN \<le> i \<and> i \<le> INT_MAX"

lemma fmt_d_length:
  assumes "int_range i"
  shows "length (fmt_d i) \<le> 11"
proof -
  have "nat \<bar>i\<bar> < 10 ^ 10" using assms by (auto simp: int_range_def INT_MIN_def INT_MAX_def)
  from decimal_length [OF this] show ?thesis by (cases "i < 0") (simp_all add: fmt_d_def with_sign_def)
qed

lemma print_number_int:
  assumes "int_range i"
  shows "print_number ok (Item ty vs (Some (Dec i 0)) nm cs) = Inr (if ok 21 then Some (fmt_d i) else None)"
proof -
  have "value_int (Dec i 0) = i" by (simp add: value_int_def numer_def denom_def)
  with assms fmt_d_length [OF assms] show ?thesis
    by (simp add: print_number_def close_to_def numer_def denom_def int_range_def put_str_def put_bytes_def)
qed

text \<open>Every other number a \<^verbatim>\<open>double\<close> can hold fits the 64 bytes.\<close>

definition double_range :: "decimal_number \<Rightarrow> bool" where
  "double_range d \<longleftrightarrow> \<bar>numer d\<bar> < 10 ^ 309 * denom d \<and> (numer d = 0 \<or> denom d \<le> \<bar>numer d\<bar> * 10 ^ 324)"

lemma denom_pos: "0 < denom d"
  by (simp add: denom_def)

lemma round_even_le: "round_even a b \<le> a div b + 1"
  by (simp add: round_even_def Let_def)

lemma round_even_less: "a < m * b \<Longrightarrow> round_even a b \<le> m"
  using round_even_le [of a b] less_mult_imp_div_less [of a m b] by (simp add: mult.commute)

lemma length_decimal_pos: "0 < length (decimal n)"
  by (subst decimal.simps) simp

lemma decimal_less: "n < 10 ^ length (decimal n)"
proof (induction n rule: decimal.induct)
  case (1 n)
  show ?case
  proof (cases "n < 10")
    case True
    then show ?thesis by (subst decimal.simps) simp
  next
    case False
    have "n < 10 * (n div 10 + 1)" by presburger
    also have "\<dots> \<le> 10 * 10 ^ length (decimal (n div 10))" using 1 [OF False] by simp
    finally show ?thesis using False by (subst decimal.simps) simp
  qed
qed

lemma scale_up_bound:
  "0 < a \<Longrightarrow> b \<le> a * 10 ^ n \<Longrightarrow> k \<le> scale_up a b k \<and> scale_up a b k \<le> k + n"
proof (induction a b k arbitrary: n rule: scale_up.induct)
  case (1 a b k)
  show ?case
  proof (cases "b \<le> a")
    case True
    then show ?thesis by (subst (1 2) scale_up.simps) simp
  next
    case False
    with 1(3) obtain n' where n: "n = Suc n'" by (cases n) auto
    with 1 False have "k + 1 \<le> scale_up (a * 10) b (k + 1) \<and> scale_up (a * 10) b (k + 1) \<le> k + 1 + n'"
      by (intro 1(1)) (simp_all add: mult.assoc)
    with False 1(2) n show ?thesis by (subst (1 2) scale_up.simps) simp
  qed
qed

text \<open>The exponent is large enough: \<open>a * 10 ^ k < 10 * b\<close>.\<close>

lemma scale_up_least:
  "0 < a \<Longrightarrow> a < b \<Longrightarrow> k \<le> scale_up a b k \<and> a * 10 ^ (scale_up a b k - k) < 10 * b"
proof (induction a b k rule: scale_up.induct)
  case (1 a b k)
  show ?case
  proof (cases "b \<le> a * 10")
    case True
    with 1 show ?thesis by (simp add: scale_up.simps [of a b] scale_up.simps [of "a * 10" b])
  next
    case False
    with 1 have "k + 1 \<le> scale_up (a * 10) b (k + 1) \<and> a * 10 * 10 ^ (scale_up (a * 10) b (k + 1) - (k + 1)) < 10 * b"
      by (intro 1(1)) auto
    moreover have "scale_up a b k = scale_up (a * 10) b (k + 1)"
      using 1(2,3) by (subst scale_up.simps) simp
    moreover from calculation have "scale_up a b k - k = Suc (scale_up (a * 10) b (k + 1) - (k + 1))" by linarith
    ultimately show ?thesis by (simp add: mult.assoc)
  qed
qed

lemma decimal_not_Nil [simp]: "decimal n \<noteq> []"
  using length_decimal_pos [of n] by blast

lemma decimal_exponent_upper:
  assumes "0 < a" and "0 < b"
  shows "a * 10 ^ nat (6 - decimal_exponent a b) < 10 ^ 7 * (b * 10 ^ nat (decimal_exponent a b - 6))"
proof (cases "b \<le> a")
  case True
  define L where "L = length (decimal (a div b))"
  have L: "decimal_exponent a b = int L - 1" "0 < L" using True by (simp_all add: decimal_exponent_def L_def)
  have "a div b < 10 ^ L" unfolding L_def by (rule decimal_less)
  with assms(2) have "a < 10 ^ L * b" by (metis div_less_iff_less_mult)
  show ?thesis
  proof (cases "L \<le> 7")
    case True
    then have e: "nat (6 - decimal_exponent a b) = 7 - L" "nat (decimal_exponent a b - 6) = 0" using L by auto
    have "a * 10 ^ (7 - L) < 10 ^ L * b * 10 ^ (7 - L)" using \<open>a < 10 ^ L * b\<close> by simp
    also have "\<dots> = 10 ^ (L + (7 - L)) * b" by (simp only: power_add ac_simps)
    also have "\<dots> = 10 ^ 7 * b" using True by simp
    finally show ?thesis unfolding e by simp
  next
    case False
    then have e: "nat (6 - decimal_exponent a b) = 0" "nat (decimal_exponent a b - 6) = L - 7" using L by auto
    have "10 ^ L * b = 10 ^ (7 + (L - 7)) * b" using False by simp
    also have "\<dots> = 10 ^ 7 * (b * 10 ^ (L - 7))" by (simp only: power_add ac_simps)
    finally have "a < 10 ^ 7 * (b * 10 ^ (L - 7))" using \<open>a < 10 ^ L * b\<close> by (rule subst)
    then show ?thesis unfolding e by (simp only: power_0 mult_1_right)
  qed
next
  case False
  define k where "k = scale_up a b 0"
  have k: "a * 10 ^ k < 10 * b" using scale_up_least [of a b 0] assms(1) False by (simp add: k_def)
  have e: "nat (6 - decimal_exponent a b) = k + 6" "nat (decimal_exponent a b - 6) = 0"
    using False by (simp_all add: decimal_exponent_def k_def)
  have "a * 10 ^ (k + 6) = a * 10 ^ k * 10 ^ 6" by (simp only: power_add ac_simps)
  also have "\<dots> < 10 * b * 10 ^ 6" using k by simp
  finally show ?thesis unfolding e by simp
qed

lemma decimal_exponent_bound:
  assumes "0 < a" and "0 < b" and "a < 10 ^ m * b" and "b \<le> a * 10 ^ n" and "0 < m"
  shows "nat \<bar>decimal_exponent a b\<bar> \<le> max m n"
proof (cases "b \<le> a")
  case True
  have "a div b < 10 ^ m" using assms(2,3) by (simp add: div_less_iff_less_mult)
  from decimal_length [OF this assms(5)] True length_decimal_pos [of "a div b"] show ?thesis
    by (auto simp: decimal_exponent_def)
next
  case False
  with scale_up_bound [OF assms(1,4), of 0] show ?thesis by (auto simp: decimal_exponent_def)
qed

lemma point6_length:
  assumes "k < 10 ^ n" and "6 < n"
  shows "length (point6 k) \<le> n + 1"
proof -
  have "k div 10 ^ 6 < 10 ^ (n - 6)"
  proof -
    have "k < 10 ^ (6 + (n - 6))" using assms by simp
    then have "k < 10 ^ (n - 6) * 10 ^ 6" by (simp only: power_add mult.commute)
    then show ?thesis by (simp add: less_mult_imp_div_less)
  qed
  from decimal_length [OF this] assms(2) have "length (decimal (k div 10 ^ 6)) \<le> n - 6" by simp
  moreover have "length (decimal (k mod 10 ^ 6)) \<le> 6" by (rule decimal_length) simp_all
  ultimately show ?thesis using assms(2) by (simp add: point6_def Let_def zeros_def)
qed

lemma int_power_less: "int a < 10 ^ m * int b \<longleftrightarrow> a < 10 ^ m * b"
proof -
  have "int (10 ^ m * b) = 10 ^ m * int b" by simp
  then show ?thesis using of_nat_less_iff [where 'a = int, of a "10 ^ m * b"] by simp
qed

lemma int_power_le: "int b \<le> int a * 10 ^ m \<longleftrightarrow> b \<le> a * 10 ^ m"
proof -
  have "int (a * 10 ^ m) = int a * 10 ^ m" by simp
  then show ?thesis using of_nat_le_iff [where 'a = int, of b "a * 10 ^ m"] by simp
qed

lemma with_sign_length: "length (with_sign b t) \<le> length t + 1"
  by (simp add: with_sign_def)

lemma fmt_e_length:
  assumes "double_range d" and "numer d \<noteq> 0"
  shows "length (fmt_e d) \<le> 16"
proof -
  define a where "a = nat \<bar>numer d\<bar>"
  define b where "b = nat (denom d)"
  have ab: "0 < a" "0 < b" using assms(2) denom_pos [of d] by (simp_all add: a_def b_def)
  have ib: "int b = denom d" "int a = \<bar>numer d\<bar>" using denom_pos [of d] by (simp_all add: a_def b_def)
  have r: "a < 10 ^ 309 * b" "b \<le> a * 10 ^ 324"
    using assms unfolding double_range_def ib [symmetric] int_power_less int_power_le by blast+
  define x where "x = decimal_exponent a b"
  have x: "nat \<bar>x\<bar> \<le> 324" unfolding x_def using decimal_exponent_bound [OF ab r] by simp
  define k where "k = round_even (a * 10 ^ nat (6 - x)) (b * 10 ^ nat (x - 6))"
  have "k \<le> 10 ^ 7" unfolding k_def x_def by (rule round_even_less [OF decimal_exponent_upper [OF ab]])
  define k' where "k' = (if k = 10 ^ 7 then 10 ^ 6 else k)"
  define x' where "x' = (if k = 10 ^ 7 then x + 1 else x)"
  have "k' < 10 ^ 7" using \<open>k \<le> 10 ^ 7\<close> by (auto simp: k'_def)
  then have "length (point6 k') \<le> 8" using point6_length [of k' 7] by simp
  then have "length (with_sign (numer d < 0) (point6 k')) \<le> 9" using with_sign_length [of "numer d < 0" "point6 k'"] by simp
  moreover have "nat \<bar>x'\<bar> < 10 ^ 3" using x by (auto simp: x'_def)
  from decimal_length [OF this] have "length (decimal (nat \<bar>x'\<bar>)) \<le> 3" by simp
  moreover have "fmt_e d = with_sign (numer d < 0) (point6 k') @ 0x65 # (if x' < 0 then 0x2D else 0x2B) #
      zeros (2 - length (decimal (nat \<bar>x'\<bar>))) @ decimal (nat \<bar>x'\<bar>)"
    unfolding fmt_e_def Let_def a_def [symmetric] b_def [symmetric] x_def [symmetric] k_def [symmetric] k'_def x'_def
    by (cases "k = 10 ^ 7") (simp_all only: simp_thms if_True if_False prod.case)
  ultimately show ?thesis by (simp add: zeros_def)
qed

lemma fmt_0f_length:
  assumes "\<bar>numer d\<bar> < 10 ^ 60 * denom d"
  shows "length (fmt_0f d) \<le> 62"
proof -
  have "int (nat \<bar>numer d\<bar>) < int (10 ^ 60 * nat (denom d))" using assms denom_pos [of d] by simp
  then have "nat \<bar>numer d\<bar> < 10 ^ 60 * nat (denom d)" by (simp only: of_nat_less_iff)
  from round_even_less [OF this] have "round_even (nat \<bar>numer d\<bar>) (nat (denom d)) < 10 ^ 61" by simp
  from decimal_length [OF this] with_sign_length [of "numer d < 0" "decimal (round_even (nat \<bar>numer d\<bar>) (nat (denom d)))"]
  show ?thesis by (simp add: fmt_0f_def)
qed

lemma fmt_f_length:
  assumes "\<bar>numer d\<bar> \<le> 10 ^ 9 * denom d"
  shows "length (fmt_f d) \<le> 19"
proof -
  have "int (nat \<bar>numer d\<bar> * 10 ^ 6) < int (10 ^ 16 * nat (denom d))" using assms denom_pos [of d] by simp
  then have "nat \<bar>numer d\<bar> * 10 ^ 6 < 10 ^ 16 * nat (denom d)" by (simp only: of_nat_less_iff)
  from round_even_less [OF this]
  have "round_even (nat \<bar>numer d\<bar> * 10 ^ 6) (nat (denom d)) < 10 ^ 17" by simp
  from point6_length [OF this] with_sign_length [of "numer d < 0" "point6 (round_even (nat \<bar>numer d\<bar> * 10 ^ 6) (nat (denom d)))"]
  show ?thesis by (simp add: fmt_f_def)
qed

lemma put_str_fits: "length out + length s < cap \<Longrightarrow> put_str cap out s = Inr (out @ s)"
  by (simp add: put_str_def put_bytes_def)

lemma value_int_close: "numer d = 0 \<Longrightarrow> close_to (value_int d) d"
  by (simp add: value_int_def close_to_def denom_def)

lemma value_int_range:
  assumes "close_to (value_int d) d" and "numer d \<le> INT_MAX * denom d" and "numer d \<ge> INT_MIN * denom d"
  shows "int_range (value_int d)"
proof (cases "numer d < 0")
  case True
  have "(- numer d) div denom d \<le> - INT_MIN"
    using assms(3) denom_pos [of d] by (metis div_le_mono minus_mult_left neg_le_iff_le nonzero_mult_div_cancel_right order_less_irrefl order.strict_implies_order pos_imp_zdiv_nonneg_iff zdiv_mono1)
  moreover have "0 \<le> (- numer d) div denom d" using True denom_pos [of d] by (simp add: pos_imp_zdiv_nonneg_iff)
  ultimately show ?thesis using True by (simp add: value_int_def int_range_def INT_MAX_def)
next
  case False
  have "numer d div denom d \<le> INT_MAX * denom d div denom d"
    using assms(2) denom_pos [of d] by (intro zdiv_mono1) simp_all
  moreover have "0 \<le> numer d div denom d" using False denom_pos [of d] by (simp add: pos_imp_zdiv_nonneg_iff)
  ultimately show ?thesis using False denom_pos [of d] by (simp add: value_int_def int_range_def INT_MIN_def)
qed

lemma print_number_defined:
  assumes "\<And>d. number item = Some d \<Longrightarrow> double_range d"
  shows "\<exists>r. print_number ok item = Inr r"
proof -
  define d where "d = (case number item of Some d \<Rightarrow> d | None \<Rightarrow> Dec 0 0)"
  define big where "big = (if close_to (numer d div denom d) d \<and> \<bar>numer d\<bar> < 10 ^ 60 * denom d then fmt_0f d
           else if \<bar>numer d\<bar> * 10 ^ 6 < denom d \<or> \<bar>numer d\<bar> > 10 ^ 9 * denom d then fmt_e d
           else fmt_f d)"
  have small: "length (fmt_d (value_int d)) < 21"
    if "close_to (value_int d) d \<and> numer d \<le> INT_MAX * denom d \<and> numer d \<ge> INT_MIN * denom d"
    using fmt_d_length [OF value_int_range, of d] that by simp
  have large: "length big < 64" if "\<not> (close_to (value_int d) d \<and> numer d \<le> INT_MAX * denom d \<and> numer d \<ge> INT_MIN * denom d)"
  proof -
    from that value_int_close [of d] denom_pos [of d] have nz: "numer d \<noteq> 0"
      by (auto simp: INT_MAX_def INT_MIN_def)
    then have "double_range d" using assms by (cases "number item") (auto simp: d_def numer_def)
    then have "length (fmt_e d) < 64" using fmt_e_length [of d] nz by simp
    moreover have "length (fmt_f d) < 64" if "\<not> \<bar>numer d\<bar> > 10 ^ 9 * denom d"
      using fmt_f_length [of d] that by simp
    moreover have "length (fmt_0f d) < 64" if "\<bar>numer d\<bar> < 10 ^ 60 * denom d"
      using fmt_0f_length [OF that] by simp
    ultimately show ?thesis unfolding big_def by (simp only: split: if_split) blast
  qed
  have "print_number ok item =
    (if close_to (value_int d) d \<and> numer d \<le> INT_MAX * denom d \<and> numer d \<ge> INT_MIN * denom d then
        (if ok 21 then bindR (put_str 21 [] (fmt_d (value_int d))) (\<lambda>t. Inr (Some t)) else Inr None)
      else if \<not> ok 64 then Inr None
      else bindR (put_str 64 [] big) (\<lambda>t. Inr (Some t)))"
    unfolding print_number_def Let_def d_def [symmetric] big_def ..
  with put_str_fits [of "[]" "fmt_d (value_int d)" 21] put_str_fits [of "[]" big 64] small large
  show ?thesis by (auto split: if_splits)
qed

section \<open>The text of arrays and objects\<close>

fun array_text :: "bool \<Rightarrow> u8 list list \<Rightarrow> u8 list" where
  "array_text fmt [] = []"
| "array_text fmt (e # es) =
     e @ (if es \<noteq> [] then (if fmt then [0x2C, 0x20] else [0x2C]) else []) @ array_text fmt es"

fun object_text :: "nat \<Rightarrow> bool \<Rightarrow> (u8 list \<times> u8 list) list \<Rightarrow> u8 list" where
  "object_text depth fmt [] = []"
| "object_text depth fmt ((s, t) # es) =
     (if fmt then tabs depth else []) @ s @ (if fmt then [0x3A, 0x09] else [0x3A]) @ t @
     (if es \<noteq> [] then [0x2C] else []) @ (if fmt then [0x0A] else []) @ object_text depth fmt es"

lemma tabs_length [simp]: "length (tabs n) = n"
  by (simp add: tabs_def)

lemma put_bytes_fits: "length out + length s \<le> cap \<Longrightarrow> put_bytes cap out s = Inr (out @ s)"
  by (simp add: put_bytes_def)

lemma array_compose_run:
  "length out + length (array_text fmt es) < cap \<Longrightarrow> array_compose cap fmt es out = Inr (out @ array_text fmt es)"
proof (induction es arbitrary: out)
  case (Cons e es)
  let ?sep = "if es \<noteq> [] then (if fmt then [0x2C, 0x20] else [0x2C]) else []"
  have "array_compose cap fmt es (out @ e @ ?sep) = Inr ((out @ e @ ?sep) @ array_text fmt es)"
    using Cons.prems by (intro Cons.IH) simp
  with Cons.prems show ?case by (auto simp: put_str_fits)
qed simp

lemma array_text_length:
  "length (array_text fmt es) \<le> sum_list (map (\<lambda>e. length e + 2 + (if fmt then 1 else 0)) es)"
  by (induction es) auto

lemma object_compose_run:
  "length out + length (object_text depth fmt es) < cap \<Longrightarrow>
    object_compose cap depth fmt es out = Inr (out @ object_text depth fmt es)"
proof (induction es arbitrary: out)
  case (Cons x es)
  obtain s t where x: "x = (s, t)" by (cases x)
  let ?e = "(if fmt then tabs depth else []) @ s @ (if fmt then [0x3A, 0x09] else [0x3A]) @ t @
     (if es \<noteq> [] then [0x2C] else []) @ (if fmt then [0x0A] else [])"
  have "object_compose cap depth fmt es (out @ ?e) = Inr ((out @ ?e) @ object_text depth fmt es)"
    using Cons.prems x by (intro Cons.IH) simp
  with Cons.prems x show ?case
    by (cases fmt; cases "es = []") (simp_all add: put_str_fits put_bytes_fits)
qed simp

lemma object_text_length:
  "length (object_text depth fmt es) \<le> sum_list (map (\<lambda>(s, t). length t + length s + 2 + (if fmt then 2 + depth else 0)) es)"
  by (induction es) auto

lemma array_entries_length: "array_entries pv cs = Inr (Some es) \<Longrightarrow> length es = length cs"
  by (induction cs arbitrary: es) (auto simp: bindR_Inr_iff split: option.splits)

lemma print_array_run:
  assumes "cs \<noteq> []" and "array_entries pv cs = Inr (Some es)"
  shows "print_array ok pv fmt cs = Inr
    (if ok (8 * length cs) \<and> ok (5 + sum_list (map (\<lambda>e. length e + 2 + (if fmt then 1 else 0)) es))
     then Some (0x5B # array_text fmt es @ [0x5D]) else None)"
  using assms array_text_length [of fmt es]
  by (simp add: print_array_def Let_def put_str_fits array_compose_run put_bytes_fits)

lemma print_object_run:
  assumes "cs \<noteq> []" and "object_entries ok (pv (depth + 1)) cs = Inr (Some es)"
  shows "print_object ok pv depth fmt cs = Inr
    (if ok (8 * length cs) \<and> ok (7 + (if fmt then depth + 1 else 0) +
       sum_list (map (\<lambda>(s, t). length t + length s + 2 + (if fmt then 2 + (depth + 1) else 0)) es))
     then Some (0x7B # (if fmt then [0x0A] else []) @ object_text (depth + 1) fmt es @
       (if fmt then tabs depth else []) @ [0x7D]) else None)"
  using assms object_text_length [of "depth + 1" fmt es]
  by (cases fmt) (simp_all add: print_object_def Let_def put_str_fits object_compose_run put_bytes_fits)

lemma array_entries_defined:
  "\<forall>c \<in> set cs. \<exists>r. pv c = Inr r \<Longrightarrow> \<exists>r. array_entries pv cs = Inr r"
proof (induction cs)
  case (Cons c cs)
  then obtain r r' where "pv c = Inr r" "array_entries pv cs = Inr r'" by auto
  then show ?case by (cases r) auto
qed simp

lemma object_entries_defined:
  "\<forall>c \<in> set cs. \<exists>r. pv c = Inr r \<Longrightarrow> \<exists>r. object_entries ok pv cs = Inr r"
proof (induction cs)
  case (Cons c cs)
  moreover have "\<exists>s. print_string_ptr ok (cj_name c) = Inr s"
    by (cases "cj_name c") (simp_all add: print_string_ptr_run, simp add: print_string_ptr_def)
  ultimately show ?case by force
qed simp

lemma print_array_defined:
  assumes "\<forall>c \<in> set cs. \<exists>r. pv c = Inr r"
  shows "\<exists>r. print_array ok pv fmt cs = Inr r"
proof (cases "cs = []")
  case True
  then show ?thesis by (simp add: print_array_def put_str_fits)
next
  case False
  obtain r where r: "array_entries pv cs = Inr r" using array_entries_defined [OF assms] by blast
  show ?thesis
  proof (cases r)
    case None
    with False r show ?thesis by (simp add: print_array_def)
  next
    case (Some es)
    with print_array_run [OF False, of pv es] r show ?thesis by simp
  qed
qed

lemma print_object_defined:
  assumes "\<forall>c \<in> set cs. \<exists>r. pv (depth + 1) c = Inr r" and "cs \<noteq> [] \<or> \<not> fmt \<or> 0 < depth"
  shows "\<exists>r. print_object ok pv depth fmt cs = Inr r"
proof (cases "cs = []")
  case True
  with assms(2) show ?thesis by (auto simp: print_object_def Let_def put_bytes_fits)
next
  case False
  obtain r where r: "object_entries ok (pv (depth + 1)) cs = Inr r" using object_entries_defined [OF assms(1)] by blast
  show ?thesis
  proof (cases r)
    case None
    with False r show ?thesis by (simp add: print_object_def)
  next
    case (Some es)
    with print_object_run [OF False, of ok pv depth es] r show ?thesis by simp
  qed
qed

section \<open>Printing fits its buffers\<close>

fun numbers_fit :: "cjson \<Rightarrow> bool" where
  "numbers_fit (Item ty vs nu nm cs) \<longleftrightarrow> (\<forall>d. nu = Some d \<longrightarrow> double_range d) \<and> (\<forall>c \<in> set cs. numbers_fit c)"

definition is_object :: "cjson \<Rightarrow> bool" where
  "is_object item \<longleftrightarrow> cj_type item AND 255 = cJSON_Object"

lemmas cJSON_types = cJSON_NULL_def cJSON_False_def cJSON_True_def cJSON_Number_def cJSON_String_def
  cJSON_Array_def cJSON_Object_def

lemma print_value_defined:
  "numbers_fit item \<Longrightarrow> \<not> (fmt \<and> depth = 0 \<and> is_object item \<and> children item = []) \<Longrightarrow>
    \<exists>r. print_value ok depth fmt item = Inr r"
proof (induction "size item" arbitrary: item depth rule: less_induct)
  case less
  have IH: "\<exists>r. print_value ok (depth + 1) fmt c = Inr r" if "c \<in> set (children item)" for c
    using less.prems(1) child_size [OF that] that by (intro less.hyps) (cases item; simp)+
  have s: "\<exists>r. print_string ok item = Inr r"
    by (cases "valuestring item") (simp_all add: print_string_def print_string_ptr_run, simp add: print_string_ptr_def)
  have n: "\<exists>r. print_number ok item = Inr r"
    using less.prems(1) by (intro print_number_defined) (cases item; simp)
  have a: "\<exists>r. print_array ok (print_value ok (depth + 1) fmt) fmt (children item) = Inr r"
    using IH by (intro print_array_defined) blast
  have o: "\<exists>r. print_object ok (\<lambda>depth. print_value ok depth fmt) depth fmt (children item) = Inr r" if "is_object item"
    using IH less.prems(2) that by (intro print_object_defined) auto
  show ?case
    using s n a o by (subst print_value.simps) (simp add: is_object_def Let_def)
qed

lemma print_value_empty:
  assumes "is_object item" and "children item = []"
  shows "print_value ok 0 True item = (if ok 3 then Inl OutOfBounds else Inr None)"
  using assms by (subst print_value.simps) (simp add: is_object_def Let_def cJSON_types print_object_def put_bytes_def tabs_def)



section \<open>What was printed parses back\<close>

definition unnamed :: "cjson \<Rightarrow> cjson" where
  "unnamed x = Item (cj_type x) (valuestring x) (number x) None (children x)"

text \<open>
  The items whose text means them again: the fields of each type and no others, strings
  and member names that are C strings, numbers that are an \<^verbatim>\<open>int\<close>.
\<close>

fun printable :: "cjson \<Rightarrow> bool" where
  "printable (Item ty vs nu nm cs) \<longleftrightarrow>
     (if ty \<in> {cJSON_NULL, cJSON_False, cJSON_True} then vs = None \<and> nu = None \<and> cs = []
      else if ty = cJSON_Number then vs = None \<and> (\<exists>i. nu = Some (Dec i 0) \<and> int_range i) \<and> cs = []
      else if ty = cJSON_String then (\<exists>s. vs = Some s \<and> 0 \<notin> set s) \<and> nu = None \<and> cs = []
      else if ty = cJSON_Array then vs = None \<and> nu = None \<and> (\<forall>c \<in> set cs. printable c \<and> cj_name c = None)
      else ty = cJSON_Object \<and> vs = None \<and> nu = None \<and>
        (\<forall>c \<in> set cs. printable c \<and> (\<exists>n. cj_name c = Some n \<and> 0 \<notin> set n)))"

lemma ws_tabs: "ws (tabs n)" "ws [0x0A]" "ws [0x20]" "ws (0x0A # tabs n)"
  by (simp_all add: ws_def tabs_def)

lemma elems_array_text:
  "list_all2 json_text cs es \<Longrightarrow> cs \<noteq> [] \<Longrightarrow> ws w \<Longrightarrow> elems_text cs (w @ array_text fmt es)"
proof (induction arbitrary: w rule: list_all2_induct)
  case (Cons c cs e es)
  show ?case
  proof (cases "cs = []")
    case True
    with Cons show ?thesis using e_last [of w c e "[]"] by simp
  next
    case False
    then have "es \<noteq> []" using Cons.hyps by auto
    let ?w = "if fmt then [0x20] else []"
    have "elems_text cs (?w @ array_text fmt es)" using False by (intro Cons.IH) (simp_all add: ws_tabs)
    from e_more [OF Cons.prems(2) Cons.hyps(1) ws_Nil this] \<open>es \<noteq> []\<close> show ?thesis
      by (cases fmt) simp_all
  qed
qed simp


definition member_entry :: "cjson \<Rightarrow> u8 list \<times> u8 list \<Rightarrow> bool" where
  "member_entry c e \<longleftrightarrow> (\<exists>n. cj_name c = Some n \<and> 0 \<notin> set n \<and> fst e = quoted n) \<and> json_text (unnamed c) (snd e)"

lemma member_entry_text:
  assumes "member_entry c (s, t)" and "ws w1" and "ws w3" and "ws w4"
  shows "member_text c (w1 @ s @ 0x3A # w3 @ t @ w4)"
proof -
  from assms(1) obtain n where n: "cj_name c = Some n" "0 \<notin> set n" "s = quoted n" "json_text (unnamed c) t"
    by (auto simp: member_entry_def)
  have "set_name n (unnamed c) = c" using n(1) by (cases c) (simp add: set_name_def unnamed_def)
  with t_member [OF assms(2) str_text_escaped [OF n(2)] ws_Nil assms(3) n(4) assms(4)] n(3)
  show ?thesis by (simp add: quoted_def)
qed

lemma ws_append: "ws u \<Longrightarrow> ws v \<Longrightarrow> ws (u @ v)"
  by (auto simp: ws_def)

lemma members_object_text:
  "list_all2 member_entry cs es \<Longrightarrow> cs \<noteq> [] \<Longrightarrow> ws w \<Longrightarrow> ws w' \<Longrightarrow>
    members_text cs (w @ object_text depth fmt es @ w')"
proof (induction arbitrary: w rule: list_all2_induct)
  case (Cons c cs e es)
  obtain s t where e: "e = (s, t)" by (cases e)
  let ?tabs = "if fmt then tabs depth else []" and ?col = "if fmt then [0x09] else []" and ?nl = "if fmt then [0x0A] else []"
  have w: "ws ?tabs" "ws ?col" "ws ?nl" by (simp_all add: ws_tabs, simp add: ws_def)
  show ?case
  proof (cases "cs = []")
    case True
    with Cons.hyps have "es = []" by simp
    from member_entry_text [OF _ ws_append [OF Cons.prems(2) w(1)] w(2) ws_append [OF w(3) Cons.prems(3)]] Cons.hyps(1) e
    have "members_text [c] ((w @ ?tabs) @ s @ 0x3A # ?col @ t @ ?nl @ w')" by (intro m_last) blast
    with True \<open>es = []\<close> e show ?thesis by (cases fmt) simp_all
  next
    case False
    then have "es \<noteq> []" using Cons.hyps by auto
    from member_entry_text [OF _ ws_append [OF Cons.prems(2) w(1)] w(2) ws_Nil] Cons.hyps(1) e
    have "member_text c ((w @ ?tabs) @ s @ 0x3A # ?col @ t @ [])" by blast
    moreover have "members_text cs (?nl @ object_text depth fmt es @ w')" using False w(3) Cons.prems(3) by (intro Cons.IH)
    ultimately have "members_text (c # cs) (((w @ ?tabs) @ s @ 0x3A # ?col @ t @ []) @ 0x2C # ?nl @ object_text depth fmt es @ w')"
      by (rule m_more)
    with \<open>es \<noteq> []\<close> e show ?thesis by (cases fmt) simp_all
  qed
qed simp

lemma array_entries_all2:
  "array_entries pv cs = Inr (Some es) \<Longrightarrow> list_all2 (\<lambda>c e. pv c = Inr (Some e)) cs es"
  by (induction cs arbitrary: es) (auto simp: bindR_Inr_iff split: option.splits)

lemma object_entries_all2:
  "object_entries ok pv cs = Inr (Some es) \<Longrightarrow>
    list_all2 (\<lambda>c e. print_string_ptr ok (cj_name c) = Inr (Some (fst e)) \<and> pv c = Inr (Some (snd e))) cs es"
proof (induction cs arbitrary: es)
  case (Cons c cs)
  then obtain a b r where "print_string_ptr ok (cj_name c) = Inr a" "pv c = Inr b" "object_entries ok pv cs = Inr r"
    "(case (a, b, r) of (Some s, Some t, Some es) \<Rightarrow> Some ((s, t) # es) | _ \<Rightarrow> None) = Some es"
    by (auto simp: bindR_Inr_iff)
  with Cons.IH show ?case by (cases a; cases b; cases r) auto
qed simp

lemma print_string_ptr_quoted:
  "print_string_ptr ok (Some s) = Inr (Some t) \<Longrightarrow> 0 \<notin> set s \<Longrightarrow> t = quoted s"
  by (auto simp: print_string_ptr_run c_view_no_nul split: if_splits)

lemma print_array_text:
  assumes "print_array ok pv fmt cs = Inr (Some t)"
    and "\<And>c e. c \<in> set cs \<Longrightarrow> pv c = Inr (Some e) \<Longrightarrow> json_text c e"
  shows "json_text (Item cJSON_Array None None None cs) t"
proof (cases "cs = []")
  case True
  with assms(1) t_array0 [OF ws_Nil] show ?thesis by (auto simp: print_array_def put_str_fits split: if_splits)
next
  case False
  with assms(1) obtain es where es: "array_entries pv cs = Inr (Some es)"
    by (auto simp: print_array_def bindR_Inr_iff split: if_splits option.splits)
  have "list_all2 json_text cs es"
    by (rule list.rel_mono_strong [OF array_entries_all2 [OF es]]) (use assms(2) in blast)
  from t_array [OF elems_array_text [OF this False ws_Nil]] assms(1) print_array_run [OF False es, of ok fmt]
  show ?thesis by (auto split: if_splits)
qed

lemma print_object_text:
  assumes "print_object ok pv depth fmt cs = Inr (Some t)"
    and "\<And>c e. c \<in> set cs \<Longrightarrow> pv (depth + 1) c = Inr (Some e) \<Longrightarrow> json_text (unnamed c) e"
    and "\<And>c. c \<in> set cs \<Longrightarrow> \<exists>n. cj_name c = Some n \<and> 0 \<notin> set n"
  shows "json_text (Item cJSON_Object None None None cs) t"
proof (cases "cs = []")
  case True
  with assms(1) have "t = 0x7B # (if fmt then 0x0A # tabs (depth - 1) else []) @ [0x7D]"
    by (auto simp: print_object_def Let_def put_bytes_def split: if_splits)
  moreover have "ws (if fmt then 0x0A # tabs (depth - 1) else [])" by (simp add: ws_tabs)
  ultimately show ?thesis using True t_object0 by metis
next
  case False
  with assms(1) obtain es where es: "object_entries ok (pv (depth + 1)) cs = Inr (Some es)"
    by (auto simp: print_object_def Let_def bindR_Inr_iff split: if_splits option.splits)
  have "list_all2 member_entry cs es"
    using assms(2,3) print_string_ptr_quoted
    by (intro list.rel_mono_strong [OF object_entries_all2 [OF es]]) (fastforce simp: member_entry_def)
  from members_object_text [OF this False, of "if fmt then [0x0A] else []" "if fmt then tabs depth else []" "depth + 1" fmt]
  have "members_text cs ((if fmt then [0x0A] else []) @ object_text (depth + 1) fmt es @ (if fmt then tabs depth else []))"
    by (simp add: ws_tabs)
  from t_object [OF this] assms(1) print_object_run [where pv = pv and depth = depth and fmt = fmt, OF False es]
  show ?thesis by (auto split: if_splits)
qed

lemma print_value_text:
  "printable x \<Longrightarrow> print_value ok depth fmt x = Inr (Some t) \<Longrightarrow> json_text (unnamed x) t"
proof (induction "size x" arbitrary: x depth t rule: less_induct)
  case less
  obtain ty vs nu nm cs where x: "x = Item ty vs nu nm cs" by (cases x)
  note pv = less.prems(2) [unfolded x print_value.simps [of ok depth fmt]]
  have child: "size c < size x" if "c \<in> set cs" for c using child_size [of c x] that x by simp
  consider "ty = cJSON_NULL" | "ty = cJSON_False" | "ty = cJSON_True" | "ty = cJSON_Number" | "ty = cJSON_String"
    | "ty = cJSON_Array" | "ty = cJSON_Object"
    using less.prems(1) unfolding x by (auto split: if_splits)
  then show ?case
  proof cases
    case 4
    with less.prems(1) x obtain i where "nu = Some (Dec i 0)" "int_range i" "vs = None" "cs = []"
      by (auto simp: cJSON_types)
    with pv 4 print_number_int [of i ok ty vs nm cs] t_number [OF fmt_d_text [of i]] show ?thesis
      by (auto simp: x unnamed_def cJSON_types split: if_splits)
  next
    case 5
    with less.prems(1) x obtain s where s: "vs = Some s" "0 \<notin> set s" "nu = None" "cs = []"
      by (auto simp: cJSON_types)
    with pv 5 have "print_string_ptr ok (Some s) = Inr (Some t)" by (simp add: cJSON_types print_string_def)
    with print_string_ptr_quoted [OF this s(2)] t_string [OF str_text_escaped [OF s(2)]] s 5 show ?thesis
      by (simp add: x unnamed_def quoted_def)
  next
    case 6
    with less.prems(1) x have c: "vs = None" "nu = None" "\<forall>c \<in> set cs. printable c \<and> cj_name c = None"
      by (auto simp: cJSON_types)
    have "json_text c e" if "c \<in> set cs" "print_value ok (depth + 1) fmt c = Inr (Some e)" for c e
    proof -
      have "unnamed c = c" using c(3) that(1) by (cases c) (auto simp: unnamed_def)
      with less.hyps [OF child [OF that(1)] _ that(2)] c(3) that(1) show ?thesis by simp
    qed
    then have "json_text (Item cJSON_Array None None None cs) t"
      using pv 6 by (intro print_array_text [of ok "print_value ok (depth + 1) fmt" fmt]) (simp_all add: cJSON_types)
    with c 6 show ?thesis by (simp add: x unnamed_def)
  next
    case 7
    with less.prems(1) x have c: "vs = None" "nu = None"
      "\<forall>c \<in> set cs. printable c \<and> (\<exists>n. cj_name c = Some n \<and> 0 \<notin> set n)"
      by (auto simp: cJSON_types)
    have "json_text (unnamed c) e" if "c \<in> set cs" "print_value ok (depth + 1) fmt c = Inr (Some e)" for c e
      using less.hyps [OF child [OF that(1)] _ that(2)] c(3) that(1) by simp
    then have "json_text (Item cJSON_Object None None None cs) t"
      using pv 7 c(3) by (intro print_object_text [of ok "\<lambda>depth. print_value ok depth fmt" depth fmt]) (simp_all add: cJSON_types)
    with c 7 show ?thesis by (simp add: x unnamed_def)
  qed (use pv less.prems(1) t_null t_false t_true in
      \<open>auto simp: x unnamed_def cJSON_types cJSON_strdup_def split: if_splits\<close>)
qed

lemma array_entries_Some:
  "\<forall>c \<in> set cs. \<exists>t. pv c = Inr (Some t) \<Longrightarrow> \<exists>es. array_entries pv cs = Inr (Some es)"
  by (induction cs) auto

lemma object_entries_Some:
  "\<forall>c \<in> set cs. (\<exists>n. cj_name c = Some n) \<and> (\<exists>t. pv c = Inr (Some t)) \<Longrightarrow>
    \<exists>es. object_entries (\<lambda>_. True) pv cs = Inr (Some es)"
  by (induction cs) (auto simp: print_string_ptr_run)

lemma print_value_succeeds:
  "printable x \<Longrightarrow> \<not> (fmt \<and> depth = 0 \<and> is_object x \<and> children x = []) \<Longrightarrow>
    \<exists>t. print_value (\<lambda>_. True) depth fmt x = Inr (Some t)"
proof (induction "size x" arbitrary: x depth rule: less_induct)
  case less
  obtain ty vs nu nm cs where x: "x = Item ty vs nu nm cs" by (cases x)
  let ?pv = "print_value (\<lambda>_. True) (depth + 1) fmt"
  have IH: "\<exists>t. ?pv c = Inr (Some t)" if "c \<in> set cs" "printable c" for c
    using child_size [of c x] that x by (intro less.hyps) simp_all
  consider "ty \<in> {cJSON_NULL, cJSON_False, cJSON_True}" | "ty = cJSON_Number" | "ty = cJSON_String"
    | "ty = cJSON_Array" | "ty = cJSON_Object"
    using less.prems(1) unfolding x by (auto split: if_splits)
  then show ?case
  proof cases
    case 1
    then show ?thesis by (subst print_value.simps) (auto simp: x cJSON_types cJSON_strdup_def)
  next
    case 2
    with less.prems(1) x obtain i where "nu = Some (Dec i 0)" "int_range i" by (auto simp: cJSON_types)
    with 2 show ?thesis by (subst print_value.simps) (simp add: x cJSON_types print_number_int)
  next
    case 3
    with less.prems(1) x obtain s where "vs = Some s" by (auto simp: cJSON_types)
    with 3 show ?thesis
      by (subst print_value.simps) (simp add: x cJSON_types print_string_def print_string_ptr_run)
  next
    case 4
    with less.prems(1) x IH obtain es where es: "array_entries ?pv cs = Inr (Some es)"
      using array_entries_Some [of cs ?pv] by (auto simp: cJSON_types)
    have "\<exists>t. print_array (\<lambda>_. True) ?pv fmt cs = Inr (Some t)"
      using print_array_run [OF _ es, of "\<lambda>_. True" fmt] by (cases "cs = []") (simp_all add: print_array_def put_str_fits)
    with 4 show ?thesis by (subst print_value.simps) (simp add: x cJSON_types)
  next
    case 5
    have "\<forall>c \<in> set cs. (\<exists>n. cj_name c = Some n) \<and> (\<exists>t. ?pv c = Inr (Some t))"
      using less.prems(1) 5 IH x by (fastforce simp: cJSON_types)
    from object_entries_Some [OF this] obtain es where es: "object_entries (\<lambda>_. True) ?pv cs = Inr (Some es)" by blast
    have "\<exists>t. print_object (\<lambda>_. True) (\<lambda>depth. print_value (\<lambda>_. True) depth fmt) depth fmt cs = Inr (Some t)"
    proof (cases "cs = []")
      case True
      with less.prems(2) 5 x have "\<not> fmt \<or> 0 < depth" by (auto simp: is_object_def cJSON_types)
      with True show ?thesis by (auto simp: print_object_def Let_def put_bytes_fits)
    next
      case False
      from print_object_run [where pv = "\<lambda>depth. print_value (\<lambda>_. True) depth fmt" and depth = depth and fmt = fmt
          and ok = "\<lambda>_. True", OF False es] show ?thesis by simp
    qed
    with 5 show ?thesis by (subst print_value.simps) (simp add: x cJSON_types)
  qed
qed

text \<open>C7: parsing inverts printing: whatever cJSON_Print or cJSON_PrintUnformatted print of a tree of literals, C strings with
  any characters, int numbers, arrays and objects, cJSON_Parse makes the same tree of it again and stops at the NUL; and
  when no allocation fails something is printed, but for the empty object that cJSON_Print overruns its buffer with.\<close>
theorem cJSON_print_parse:
  assumes "printable x" and "cj_name x = None"
  shows "(\<exists>t. cJSON_PrintUnformatted (\<lambda>_. True) x = Inr (Some t)) \<and>
    (is_object x \<and> children x = [] \<or> (\<exists>t. cJSON_Print (\<lambda>_. True) x = Inr (Some t))) \<and>
    (\<forall>ok t m p. cJSON_Print ok x = Inr (Some t) \<or> cJSON_PrintUnformatted ok x = Inr (Some t) \<longrightarrow>
       text_at m p (t @ [0]) \<longrightarrow> cJSON_Parse m p = Parsed x (p + length t))"
proof (intro conjI allI impI)
  show "\<exists>t. cJSON_PrintUnformatted (\<lambda>_. True) x = Inr (Some t)"
    using print_value_succeeds [OF assms(1), of False 0] by (simp add: cJSON_PrintUnformatted_def)
  show "is_object x \<and> children x = [] \<or> (\<exists>t. cJSON_Print (\<lambda>_. True) x = Inr (Some t))"
    using print_value_succeeds [OF assms(1), of True 0] by (auto simp: cJSON_Print_def)
  fix ok t m p
  assume "cJSON_Print ok x = Inr (Some t) \<or> cJSON_PrintUnformatted ok x = Inr (Some t)" and t: "text_at m p (t @ [0])"
  then have j: "json_text x t"
    using print_value_text [OF assms(1)] assms(2) unfolding cJSON_Print_def cJSON_PrintUnformatted_def unnamed_def
    by (metis cjson.collapse)
  have "num_stop 0" by (simp add: num_stop_def is_digit_def)
  with json_parse_run [OF j ws_Nil, of m p] t show "cJSON_Parse m p = Parsed x (p + length t)"
    by (simp add: cJSON_Parse_def cJSON_ParseWithOpts_def del: parse_value.simps)
qed

definition ex_tree :: cjson where
  "ex_tree = Item cJSON_Object None None None
     [Item cJSON_String (Some [0x22, 1, 0x5C]) None (Some [0x61]) [],
      Item cJSON_Array None None (Some [0x62]) [Item cJSON_Number None (Some (Dec (-7) 0)) None [], Item cJSON_True None None None []]]"

theorem cJSON_print_parse_witness:
  "\<exists>t. cJSON_Print (\<lambda>_. True) ex_tree = Inr (Some t) \<and> cJSON_Parse (t @ [0]) 0 = Parsed ex_tree (length t)"
proof -
  have e: "printable ex_tree" "cj_name ex_tree = None" "children ex_tree \<noteq> []"
    by (simp_all add: ex_tree_def cJSON_types int_range_def INT_MIN_def INT_MAX_def)
  note r = cJSON_print_parse [OF e(1,2)]
  from r e(3) obtain t where t: "cJSON_Print (\<lambda>_. True) ex_tree = Inr (Some t)" by blast
  moreover have "text_at (t @ [0]) 0 (t @ [0])" by (simp only: text_at_def) simp
  ultimately show ?thesis using r by fastforce
qed

end
