(* ===== verification/Startup.thy ===== *)
theory Startup
  imports Socket Delivery CJsonPrint
begin

text \<open>
  Starting and stopping the program: the table of functions of
  \<^verbatim>\<open>src/src/network.h\<close> with the functions of \<^verbatim>\<open>src/src/network.c\<close> it holds, and
  \<^verbatim>\<open>main\<close> of \<^verbatim>\<open>src/src/main.c\<close>, from its arguments to the start of the threads and
  the code behind its endless loop. \<^verbatim>\<open>inet_addr\<close> is a parameter, and so are the addresses
  \<^verbatim>\<open>malloc\<close> gives.
\<close>

section \<open>The network functions\<close>

text \<open>A call that returns, or ends the program.\<close>

datatype 'a call = Returns 'a | Exits int

definition eth_init :: int where "eth_init = 0"
definition eth_deinit :: int where "eth_deinit = 0"

definition get_fd :: "'k host \<Rightarrow> ptr \<Rightarrow> int res" where
  "get_fd s h = (case handles s h of None \<Rightarrow> Inl (BadPtr h) | Some r \<Rightarrow> Inr (eh_fd r))"

definition set_fd :: "'k host \<Rightarrow> ptr \<Rightarrow> int \<Rightarrow> 'k host res" where
  "set_fd s h v =
     (case handles s h of None \<Rightarrow> Inl (BadPtr h) | Some r \<Rightarrow> Inr (s\<lparr>handles := (handles s)(h \<mapsto> r\<lparr>eh_fd := v\<rparr>)\<rparr>))"

text \<open>The new handle is at \<open>a\<close>, NULL when there is no memory; its field holds \<open>j\<close> until it is written.\<close>

definition malloc_handle :: "'k host \<Rightarrow> ptr \<Rightarrow> int \<Rightarrow> 'k host" where
  "malloc_handle s a j = (if a = NULL then s else s\<lparr>handles := (handles s)(a \<mapsto> \<lparr>eh_fd = j\<rparr>)\<rparr>)"

definition eth_open :: "'k os \<Rightarrow> 'k host \<Rightarrow> ptr \<Rightarrow> int \<Rightarrow> ('k host \<times> (ptr \<times> int) call) res" where
  "eth_open os s a j =
     (let s = malloc_handle s a j; handle = a in
      bindR (creat_sock os s) (\<lambda>(s, fd).
      bindR (set_fd s handle fd) (\<lambda>s.
      bindR (get_fd s handle) (\<lambda>fd.
      if fd < 0 then Inr (print s [(''ethernet:cant get SOCK_PACKET socket'', [])], Exits 0)
      else Inr (s, Returns (handle, 0))))))"

definition eth_close :: "'k host \<Rightarrow> ptr \<Rightarrow> ('k host \<times> int) res" where
  "eth_close s handler =
     (if handler = NULL then Inr (s, 0)
      else if handles s handler = None then Inl (BadFree handler)
      else Inr (s\<lparr>handles := (handles s)(handler := None)\<rparr>, 0))"

text \<open>\<open>eth_recv\<close> with the handle it receives on; the frame is what the kernel has for its descriptor.\<close>

definition eth_recv_handle :: "'k host \<Rightarrow> target \<Rightarrow> ptr \<Rightarrow> received_frame \<Rightarrow> packet \<Rightarrow> (packet \<times> int) res" where
  "eth_recv_handle s g handler r pkt =
     bindR (get_fd s handler) (\<lambda>rcv_fd.
     eth_recv g r pkt)"

definition eth_send :: "ptr \<Rightarrow> packet \<Rightarrow> int" where "eth_send handler pkt = 0"

record 'k Networks =
  nw_name :: string
  nw_handler :: ptr
  nw_init :: int
  nw_deinit :: int
  nw_open :: "'k os \<Rightarrow> 'k host \<Rightarrow> ptr \<Rightarrow> int \<Rightarrow> ('k host \<times> (ptr \<times> int) call) res"
  nw_close :: "'k host \<Rightarrow> ptr \<Rightarrow> ('k host \<times> int) res"
  nw_recv :: "'k host \<Rightarrow> target \<Rightarrow> ptr \<Rightarrow> received_frame \<Rightarrow> packet \<Rightarrow> (packet \<times> int) res"
  nw_send :: "ptr \<Rightarrow> packet \<Rightarrow> int"

definition ethernet :: "'k Networks" where
  "ethernet = \<lparr>nw_name = ''ethernet'', nw_handler = NULL, nw_init = eth_init, nw_deinit = eth_deinit,
     nw_open = eth_open, nw_close = eth_close, nw_recv = eth_recv_handle, nw_send = eth_send\<rparr>"

definition get_network :: "'k Networks" where "get_network = ethernet"

section \<open>Arguments\<close>

text \<open>
  \<^verbatim>\<open>atoi\<close>: white space, a sign, digits up to the first other character; a value out of
  the range of \<^verbatim>\<open>int\<close> has no defined result.
\<close>

definition atoi :: "u8 list \<Rightarrow> int res" where
  "atoi s =
     (let s = dropWhile is_space s;
          neg = (s \<noteq> [] \<and> hd s = 45);
          s = (if s \<noteq> [] \<and> (hd s = 45 \<or> hd s = 43) then tl s else s);
          v = dval 0 (takeWhile is_digit s) in
      to_int (if neg then - v else v))"

section \<open>The main function\<close>

text \<open>What \<^verbatim>\<open>main\<close> has set up when the threads start.\<close>

record 'k running =
  run_network :: "'k Networks"
  run_target :: target
  run_pool :: ptr
  run_world :: world

definition main_start ::
  "(u8 list \<Rightarrow> u32) \<Rightarrow> 'k os \<Rightarrow> u8 list list \<Rightarrow> 'k host \<Rightarrow> mem \<Rightarrow> ptr \<Rightarrow> list_queue \<Rightarrow> table \<Rightarrow> (ptr \<Rightarrow> packet) \<Rightarrow>
   ptr \<Rightarrow> int \<Rightarrow> ('k host \<times> 'k running call) res" where
  "main_start inet_addr os argv s m a q0 t0 pk ha hj =
     (if length argv < 3
      then Inr (print s [(''usage:'' @ [CHR 0x0A] @ ''tnsparser target_ip target_port'', [])], Exits 0)
      else
        let ip = inet_addr (argv ! 1) in
        bindR (atoi (argv ! 2)) (\<lambda>n.
        let g = \<lparr>g_target_ip = ip, g_target_port = word_of_int n\<rparr>;
            s = print s [(''target_ip :%s'', [Str (argv ! 1)]), (''target_ip :0x%08x'', [Num (uint (g_target_ip g))]),
              (''target_port :%u'', [Num (uint (g_target_port g))])];
            network = get_network in
        bindR (main_init m a q0 t0 pk) (\<lambda>(w, g_pktpool).
        let _ = nw_init network in
        bindR (nw_open network os s ha hj) (\<lambda>(s, r).
        case r of
          Exits c \<Rightarrow> Inr (s, Exits c)
        | Returns (h, _) \<Rightarrow> Inr (s, Returns \<lparr>run_network = network\<lparr>nw_handler := h\<rparr>, run_target = g,
            run_pool = g_pktpool, run_world = w\<rparr>)))))"

text \<open>The code behind the endless loop; \<open>None\<close> if emptying the queue does not end.\<close>

definition main_shutdown :: "'k host \<Rightarrow> 'k running \<Rightarrow> ('k host \<times> 'k running \<times> int) res option" where
  "main_shutdown s st =
     (let w = run_world st; q = list_queue_abort (w_queue w); network = run_network st in
      case nw_close network s (nw_handler network) of
        Inl e \<Rightarrow> Some (Inl e)
      | Inr (s, _) \<Rightarrow>
          (let _ = nw_deinit network in
           case list_queue_destroy q of
             None \<Rightarrow> None
           | Some r \<Rightarrow> Some (bindR r (\<lambda>q.
               bindR (mem_pool_destroy (w_pool w) (run_pool st)) (\<lambda>m.
               Inr (s, st\<lparr>run_world := w\<lparr>w_queue := q, w_pool := m\<rparr>\<rparr>, 0))))))"

section \<open>Text and numbers\<close>

definition DOT :: u8 where "DOT = 46"

text \<open>The text of an address, and what inet(3) says of it: the four numbers are the bytes of the address in memory.\<close>

definition dotted :: "u8 \<Rightarrow> u8 \<Rightarrow> u8 \<Rightarrow> u8 \<Rightarrow> u8 list" where
  "dotted a b c d = decimal (unat a) @ DOT # decimal (unat b) @ DOT # decimal (unat c) @ DOT # decimal (unat d)"

definition addr_of :: "u8 \<Rightarrow> u8 \<Rightarrow> u8 \<Rightarrow> u8 \<Rightarrow> u32" where
  "addr_of a b c d = word_cat (word_cat d c :: u16) (word_cat b a :: u16)"

definition reads_dotted :: "(u8 list \<Rightarrow> u32) \<Rightarrow> bool" where
  "reads_dotted inet_addr \<longleftrightarrow> (\<forall>a b c d. inet_addr (dotted a b c d) = addr_of a b c d)"

lemma atoi_decimal:
  assumes "int n \<le> INT_MAX"
  shows "atoi (decimal n) = Inr (int n)"
proof -
  obtain c cs where d: "decimal n = c # cs" using decimal_not_Nil by (cases "decimal n") auto
  with decimal_digits [of n] have c: "is_digit c" by (simp add: all_digits_def)
  then have "\<not> is_space c" "c \<noteq> 45" "c \<noteq> 43" by (auto simp: is_digit_def is_space_def word_le_nat_alt)
  with d have s: "dropWhile is_space (decimal n) = decimal n" "hd (decimal n) \<noteq> 45" "hd (decimal n) \<noteq> 43" by simp_all
  moreover have t: "takeWhile is_digit (decimal n) = decimal n"
    using decimal_digits [of n] by (simp add: all_digits_def takeWhile_eq_all_conv)
  have v: "dval 0 (takeWhile is_digit (decimal n)) = int n" unfolding t by (rule decimal_value)
  ultimately show ?thesis using assms by (simp add: atoi_def v to_int_in_range INT_MIN_def)
qed

section \<open>Frames byte by byte\<close>

text \<open>
  Which frames carry TCP over IPv4, and between which ends, in terms of the bytes of the
  buffer: the numbers are those of the protocols' formats.
\<close>

definition be16_at :: "u8 list \<Rightarrow> nat \<Rightarrow> nat" where
  "be16_at m i = 256 * unat (m ! i) + unat (m ! (i + 1))"

definition ip4_tcp :: "u8 list \<Rightarrow> bool" where
  "ip4_tcp m \<longleftrightarrow> m ! 12 = 8 \<and> m ! 13 = 0 \<and> unat (m ! 14) div 16 = 4 \<and> m ! 23 = 6"

definition tcp_at :: "u8 list \<Rightarrow> nat" where
  "tcp_at m = 14 + 4 * (unat (m ! 14) mod 16)"

definition sent_by :: "u8 list \<Rightarrow> u8 list \<Rightarrow> nat \<Rightarrow> bool" where
  "sent_by m addr p \<longleftrightarrow> take 4 (drop 26 m) = addr \<and> be16_at m (tcp_at m) = p"

definition sent_to :: "u8 list \<Rightarrow> u8 list \<Rightarrow> nat \<Rightarrow> bool" where
  "sent_to m addr p \<longleftrightarrow> take 4 (drop 30 m) = addr \<and> be16_at m (tcp_at m + 2) = p"

lemma headers_of_bytes:
  assumes len: "length m = MAX_PACKET_SIZE" and h: "headers_of m = Inr h" and p: "p < 65536"
    and g: "g = \<lparr>g_target_ip = addr_of a b c d, g_target_port = word_of_nat p\<rparr>"
  shows "is_tcp4 h \<longleftrightarrow> ip4_tcp m" "from_target g h \<longleftrightarrow> sent_by m [a, b, c, d] p"
    "to_target g h \<longleftrightarrow> sent_to m [a, b, c, d] p"
proof -
  have n: "length m = 1500" using len by (simp add: net_consts)
  have i: "unat (m ! 14) mod 16 < 16" by simp
  have "h = \<lparr>h_proto = word_cat (m ! 12) (m ! 13), h_version = drop_bit 4 (m ! 14), h_protocol = m ! 23,
      h_ihl = unat (m ! 14) mod 16, h_doff = unat (drop_bit 4 (m ! (tcp_at m + 12))),
      h_tot = word_cat (m ! 16) (m ! 17),
      h_key = \<lparr>sip = addr_of (m ! 26) (m ! 27) (m ! 28) (m ! 29), dip = addr_of (m ! 30) (m ! 31) (m ! 32) (m ! 33),
        sport = word_cat (m ! (tcp_at m + 1)) (m ! tcp_at m), dport = word_cat (m ! (tcp_at m + 3)) (m ! (tcp_at m + 2))\<rparr>\<rparr>"
    by (rule headers_ofE [OF h])
      (use n i in \<open>simp add: ip_version_def ip_protocol_def ip_tot_len_def ip_saddr_def ip_daddr_def ip_ihl_def
        tcp_source_def tcp_dest_def tcp_doff_def rd16_ok rd32_ok net_consts low_nibble addr_of_def tcp_at_def
        algebra_simps; auto simp: ntohs_bytes\<close>)
  note f = this
  have t: "take 4 (drop j m) = [m ! j, m ! (j + 1), m ! (j + 2), m ! (j + 3)]" if "j < 100" for j
    using n that by (intro take4) simp
  have e: "(0x0800 :: u16) = word_cat (8 :: u8) (0 :: u8)" by code_simp
  have v: "drop_bit 4 (m ! 14) = 4 \<longleftrightarrow> unat (m ! 14) div 16 = 4"
    unfolding high_nibble [symmetric] by (simp only: word_unat_eq_iff) simp
  show "is_tcp4 h \<longleftrightarrow> ip4_tcp m"
    by (simp add: f is_tcp4_def ip4_tcp_def ETH_P_IP_def IPV4_def IPPROTO_TCP_def e word_cat_eq8 v)
  show "from_target g h \<longleftrightarrow> sent_by m [a, b, c, d] p" "to_target g h \<longleftrightarrow> sent_to m [a, b, c, d] p"
    using t [of 26] t [of 30]
    by (auto simp: f g from_target_def to_target_def sent_by_def sent_to_def be16_at_def addr_of_def word_cat_eq8
        word_cat_eq16 ntohs_bytes be16_eq_of_nat [OF p] numeral_3_eq_3)
qed

section \<open>Correctness\<close>

text \<open>Opening the device: what is made of the descriptor of socket().\<close>

lemma eth_open_outcome:
  assumes os: "netdevice os flags index priv" "INT_MIN \<le> index capture_if" "index capture_if \<le> INT_MAX"
    and sock: "os_socket os (kern s) PF_PACKET SOCK_RAW (ntohs ETH_P_ALL) = (k, fd)" and a: "a \<noteq> NULL"
  shows "\<exists>s'. eth_open os s a j = Inr (s', if fd < 0 then Exits 0 else Returns (a, 0)) \<and> get_fd s' a = Inr fd"
proof -
  have "os_socket os (kern (malloc_handle s a j)) PF_PACKET SOCK_RAW (ntohs ETH_P_ALL) = (k, fd)"
    using sock by (simp add: malloc_handle_def)
  from creat_sock_run [OF os this] obtain s'
    where s': "creat_sock os (malloc_handle s a j) = Inr (s', fd)" "handles s' = handles (malloc_handle s a j)" by blast
  from s'(2) a have "handles s' a = Some \<lparr>eh_fd = j\<rparr>" by (simp add: malloc_handle_def)
  with s'(1) show ?thesis by (simp add: eth_open_def Let_def set_fd_def get_fd_def print_def)
qed

lemma main_start_run:
  assumes os: "netdevice os flags index priv" "INT_MIN \<le> index capture_if" "index capture_if \<le> INT_MAX"
    and sock: "os_socket os (kern s) PF_PACKET SOCK_RAW (ntohs ETH_P_ALL) = (k, fd)" and ha: "ha \<noteq> NULL"
    and argv: "3 \<le> length argv" "atoi (argv ! 2) = Inr n"
    and m: "a \<noteq> NULL" "lists m NULL = None" "length t0 = MAX_SESS_NODE"
    and pk: "\<forall>b. length (p_buf (pk b)) = MAX_PACKET_SIZE"
  shows "\<exists>s' w. main_start inet_addr os argv s m a q0 t0 pk ha hj = Inr (s', if fd < 0 then Exits 0
      else Returns \<lparr>run_network = ethernet\<lparr>nw_handler := ha\<rparr>,
        run_target = \<lparr>g_target_ip = inet_addr (argv ! 1), g_target_port = word_of_int n\<rparr>, run_pool = a, run_world = w\<rparr>) \<and>
    world_start a w \<and> get_fd s' ha = Inr fd"
proof -
  from main_init_run [OF m, of q0 pk] obtain w where w: "main_init m a q0 t0 pk = Inr (w, a)" by blast
  with m pk have "world_start a w" unfolding world_start_def by blast
  moreover
  let ?s = "print s [(''target_ip :%s'', [Str (argv ! 1)]), (''target_ip :0x%08x'', [Num (uint (inet_addr (argv ! 1)))]),
      (''target_port :%u'', [Num (uint (word_of_int n :: u16))])]"
  have "os_socket os (kern ?s) PF_PACKET SOCK_RAW (ntohs ETH_P_ALL) = (k, fd)" using sock by (simp add: print_def)
  from eth_open_outcome [OF os this ha, of hj] obtain s'
    where "eth_open os ?s ha hj = Inr (s', if fd < 0 then Exits 0 else Returns (ha, 0))" "get_fd s' ha = Inr fd" by blast
  ultimately show ?thesis using argv w
    by (auto simp: main_start_def Let_def get_network_def ethernet_def)
qed

text \<open>What the threads start with, when they start.\<close>

lemma main_start_returns:
  assumes "main_start inet_addr os argv s m a q0 t0 pk ha hj = Inr (s', Returns st)"
  shows "3 \<le> length argv" "main_init m a q0 t0 pk = Inr (run_world st, run_pool st)"
    "\<exists>n. atoi (argv ! 2) = Inr n \<and> run_target st = \<lparr>g_target_ip = inet_addr (argv ! 1), g_target_port = word_of_int n\<rparr>"
proof -
  from assms have argv: "\<not> length argv < 3" by (auto simp: main_start_def)
  define out where "out n = [(''target_ip :%s'', [Str (argv ! 1)]), (''target_ip :0x%08x'', [Num (uint (inet_addr (argv ! 1)))]),
      (''target_port :%u'', [Num (uint (word_of_int n :: u16))])]" for n :: int
  from assms argv obtain n w gp s1 r where c: "atoi (argv ! 2) = Inr n" "main_init m a q0 t0 pk = Inr (w, gp)"
    "nw_open get_network os (print s (out n)) ha hj = Inr (s1, r)"
    "(case r of Exits e \<Rightarrow> Inr (s1, Exits e) | Returns (h, _) \<Rightarrow> Inr (s1, Returns \<lparr>run_network = get_network\<lparr>nw_handler := h\<rparr>,
       run_target = \<lparr>g_target_ip = inet_addr (argv ! 1), g_target_port = word_of_int n\<rparr>, run_pool = gp, run_world = w\<rparr>)) =
     (Inr (s', Returns st) :: ('a host \<times> 'a running call) res)"
    by (auto simp: main_start_def Let_def bindR_Inr_iff out_def simp del: One_nat_def)
  from c(4) have "st = \<lparr>run_network = get_network\<lparr>nw_handler := nw_handler (run_network st)\<rparr>,
      run_target = \<lparr>g_target_ip = inet_addr (argv ! 1), g_target_port = word_of_int n\<rparr>, run_pool = gp, run_world = w\<rparr>"
    by (cases r) (auto split: prod.splits)
  with c(1,2) argv show "3 \<le> length argv" "main_init m a q0 t0 pk = Inr (run_world st, run_pool st)"
    "\<exists>n. atoi (argv ! 2) = Inr n \<and> run_target st = \<lparr>g_target_ip = inet_addr (argv ! 1), g_target_port = word_of_int n\<rparr>"
    by (cases st; simp)+
qed

text \<open>A packet that was received for the server of the arguments, byte by byte.\<close>

lemma was_received_bytes:
  assumes "was_received g pkt" and p: "p < 65536"
    and g: "g = \<lparr>g_target_ip = addr_of a b c d, g_target_port = word_of_nat p\<rparr>"
  shows "ip4_tcp (p_buf pkt) \<and> (if p_dir pkt = RESPONSE then sent_by (p_buf pkt) [a, b, c, d] p
    else p_dir pkt = REQUEST \<and> sent_to (p_buf pkt) [a, b, c, d] p)"
proof -
  from assms(1) obtain f old where "length (p_buf old) = MAX_PACKET_SIZE" "eth_recv g (Frame f) old = Inr (pkt, 0)"
    by (auto simp: was_received_def)
  from eth_recv_accepted [OF this] obtain h where h: "headers_of (p_buf pkt) = Inr h" "wanted g h"
    "length (p_buf pkt) = MAX_PACKET_SIZE" "pkt = accepted g h (old\<lparr>p_buf := p_buf pkt\<rparr>)" by blast
  have "p_dir pkt = (if from_target g h then RESPONSE else REQUEST)" by (subst h(4)) (simp add: accepted_def)
  with h(2) headers_of_bytes [OF h(3,1) p g] show ?thesis
    by (auto simp: wanted_def REQUEST_def RESPONSE_def)
qed

text \<open>
  A machine as \<open>ex_os\<close>, and an \<^verbatim>\<open>inet_addr\<close> that reads dotted decimal numbers.
\<close>

fun fields :: "int \<Rightarrow> u8 list \<Rightarrow> int list" where
  "fields v [] = [v]"
| "fields v (x # xs) = (if x = DOT then v # fields 0 xs else fields (dval v [x]) xs)"

definition ex_inet_addr :: "u8 list \<Rightarrow> u32" where
  "ex_inet_addr s = (case map word_of_int (fields 0 s) of [a, b, c, d] \<Rightarrow> addr_of a b c d | _ \<Rightarrow> 0xFFFFFFFF)"

lemma fields_digits: "all_digits ds \<Longrightarrow> fields v (ds @ xs) = fields (dval v ds) xs"
  by (induction ds arbitrary: v) (auto simp: DOT_def is_digit_def)

lemma ex_inet_addr_reads: "reads_dotted ex_inet_addr"
proof -
  have "fields 0 (decimal n @ xs) = fields (int n) xs" for n xs
    using fields_digits [OF decimal_digits, of 0 n xs] by (simp add: decimal_value)
  moreover from this [of _ "[]"] have "fields 0 (decimal n) = [int n]" for n by simp
  ultimately show ?thesis by (simp add: reads_dotted_def ex_inet_addr_def dotted_def)
qed


lemma ex_memory: "lists ex_start_mem NULL = None" "length (replicate 32 zero_session) = MAX_SESS_NODE"
  "\<forall>b. length (p_buf ((\<lambda>_. ex_packet) b)) = MAX_PACKET_SIZE"
  by (simp_all add: ex_start_mem_def MAX_SESS_NODE_def)

lemma ex_index: "INT_MIN \<le> (\<lambda>_. 7) capture_if" "(\<lambda>_. 7) capture_if \<le> INT_MAX"
  by (simp_all add: INT_MIN_def INT_MAX_def)

lemma ex_argv: "dotted 10 0 0 2 = bytes_of ''10.0.0.2''" "decimal 1521 = bytes_of ''1521''"
  by code_simp+




text \<open>
  The code behind the endless loop, which is never reached: if it were, right after the
  start it would give back the handle and the pool and leave the queue empty.
\<close>

lemma main_shutdown_frees:
  assumes "handles s h = Some r" "h \<noteq> NULL" and n: "map_of (blocks (w_pool w)) p = Some n" "p \<noteq> NULL"
    and q: "lq_rep (w_queue w) xs"
  shows "\<exists>s' st'. main_shutdown s \<lparr>run_network = ethernet\<lparr>nw_handler := h\<rparr>, run_target = g, run_pool = p, run_world = w\<rparr>
      = Some (Inr (s', st', 0)) \<and> handles s' = (handles s)(h := None) \<and> lq_rep (w_queue (run_world st')) [] \<and>
      blocks (w_pool (run_world st')) = filter (\<lambda>(b, _). b \<noteq> p) (blocks (w_pool w))"
proof -
  from q obtain ps where "lq_cells_are (w_queue w) ps" by (auto simp: lq_rep_def)
  then have "lq_cells_are (list_queue_abort (w_queue w)) ps"
    by (simp add: list_queue_abort_def lq_signal_def lq_cells_are_def)
  from list_queue_flush_frees [OF this] obtain q' where
    "list_queue_destroy (list_queue_abort (w_queue w)) = Some (Inr q')" "lq_rep q' []"
    by (auto simp: list_queue_destroy_def)
  moreover obtain m' where "mem_pool_destroy (w_pool w) p = Inr m'" "blocks m' = filter (\<lambda>(b, _). b \<noteq> p) (blocks (w_pool w))"
    using n by (simp add: mem_pool_destroy_def free_block_def)
  moreover have "eth_close s h = Inr (s\<lparr>handles := (handles s)(h := None)\<rparr>, 0)" using assms(1,2) by (simp add: eth_close_def)
  ultimately show ?thesis by (simp add: main_shutdown_def ethernet_def Let_def)
qed

end
