(* ===== verification/RingQueue.thy ===== *)
theory RingQueue
  imports Fifo Transition
begin

text \<open>
  The bounded packet queue of \<^verbatim>\<open>src/src/queue.c\<close>, functions \<^verbatim>\<open>ring_queue_*\<close>:
  an array of slots with a read and a write index and a count. Its two ends are used by
  two threads: peeking gives out a slot, the index moves outside the mutex, the count
  inside. The operations are therefore also modelled as the separate steps a scheduler
  can interleave.
\<close>

section \<open>State and operations\<close>

definition RING_QUEUE_SIZE :: nat where "RING_QUEUE_SIZE = 32"

record 'a ring =
  rq_queue :: "'a list"
  rq_rindex :: int
  rq_windex :: int
  rq_size :: int
  rq_max_size :: int
  rq_abort :: int
  rq_signals :: nat

definition MIN_macro :: "int \<Rightarrow> int \<Rightarrow> int" where
  "MIN_macro a b = (if a > b then b else a)"

text \<open>\<open>zero\<close> is the slot contents \<^verbatim>\<open>memset\<close> leaves behind.\<close>

definition ring_queue_init :: "'a \<Rightarrow> int \<Rightarrow> 'a ring \<times> int" where
  "ring_queue_init zero max_size =
     (\<lparr>rq_queue = replicate RING_QUEUE_SIZE zero, rq_rindex = 0, rq_windex = 0, rq_size = 0,
       rq_max_size = MIN_macro max_size (int RING_QUEUE_SIZE), rq_abort = 1, rq_signals = 0\<rparr>, 0)"

text \<open>The buffers are part of the array; what is destroyed are the mutex and the condition.\<close>

definition ring_queue_destroy :: "'a ring \<Rightarrow> 'a ring" where
  "ring_queue_destroy q = q"

definition ring_queue_signal :: "'a ring \<Rightarrow> 'a ring" where
  "ring_queue_signal q = q\<lparr>rq_abort := 1, rq_signals := Suc (rq_signals q)\<rparr>"

text \<open>The address of a slot: an index into an array of 32.\<close>

definition slot :: "int \<Rightarrow> nat res" where
  "slot i = (if 0 \<le> i \<and> i < int RING_QUEUE_SIZE then Inr (nat i) else Inl OutOfBounds)"

text \<open>
  Peeking returns no slot on an aborted queue, waits on a full (an empty) one, and
  otherwise gives the slot at the index.
\<close>

definition ring_queue_peek_writable :: "'a ring \<Rightarrow> nat option outcome res" where
  "ring_queue_peek_writable q =
     (if rq_size q \<ge> rq_max_size q \<and> rq_abort q = 0 then Inr Wait
      else if rq_abort q \<noteq> 0 then Inr (Done None)
      else bindR (slot (rq_windex q)) (\<lambda>i. Inr (Done (Some i))))"

definition ring_queue_peek_readable :: "'a ring \<Rightarrow> nat option outcome res" where
  "ring_queue_peek_readable q =
     (if rq_size q \<le> 0 \<and> rq_abort q = 0 then Inr Wait
      else if rq_abort q \<noteq> 0 then Inr (Done None)
      else bindR (slot (rq_rindex q)) (\<lambda>i. Inr (Done (Some i))))"

definition push_advance :: "'a ring \<Rightarrow> 'a ring res" where
  "push_advance q =
     bindR (to_int (rq_windex q + 1)) (\<lambda>w.
     Inr (q\<lparr>rq_windex := (if w = rq_max_size q then 0 else w)\<rparr>))"

definition push_publish :: "'a ring \<Rightarrow> 'a ring res" where
  "push_publish q =
     bindR (to_int (rq_size q + 1)) (\<lambda>n.
     Inr (q\<lparr>rq_size := n, rq_signals := Suc (rq_signals q)\<rparr>))"

definition ring_queue_push :: "'a ring \<Rightarrow> 'a ring res" where
  "ring_queue_push q = bindR (push_advance q) push_publish"

definition pull_advance :: "'a ring \<Rightarrow> 'a ring res" where
  "pull_advance q =
     bindR (to_int (rq_rindex q + 1)) (\<lambda>r.
     Inr (q\<lparr>rq_rindex := (if r = rq_max_size q then 0 else r)\<rparr>))"

definition pull_release :: "'a ring \<Rightarrow> 'a ring res" where
  "pull_release q =
     bindR (to_int (rq_size q - 1)) (\<lambda>n.
     Inr (q\<lparr>rq_size := n, rq_signals := Suc (rq_signals q)\<rparr>))"

definition ring_queue_pull :: "'a ring \<Rightarrow> 'a ring res" where
  "ring_queue_pull q = bindR (pull_advance q) pull_release"

text \<open>What the caller does with a slot: fill it, read it.\<close>

definition slot_write :: "'a ring \<Rightarrow> nat \<Rightarrow> 'a \<Rightarrow> 'a ring" where
  "slot_write q i x = q\<lparr>rq_queue := (rq_queue q)[i := x]\<rparr>"

definition slot_read :: "'a ring \<Rightarrow> nat \<Rightarrow> 'a" where
  "slot_read q i = rq_queue q ! i"

section \<open>One thread: the ring as a queue\<close>

text \<open>
  A put and a get as their callers compose them: peek, use the slot, push or pull.
\<close>

definition ring_put :: "'a ring \<Rightarrow> unit \<Rightarrow> 'a \<Rightarrow> ('a ring \<times> int) res" where
  "ring_put q r x =
     bindR (ring_queue_peek_writable q) (\<lambda>p.
     case p of
       Done (Some i) \<Rightarrow> bindR (ring_queue_push (slot_write q i x)) (\<lambda>q. Inr (q, 0))
     | _ \<Rightarrow> Inr (q, -1))"

definition ring_get :: "'a ring \<Rightarrow> ('a ring \<times> 'a) option res" where
  "ring_get q =
     bindR (ring_queue_peek_readable q) (\<lambda>p.
     case p of
       Done (Some i) \<Rightarrow> bindR (ring_queue_pull q) (\<lambda>q'. Inr (Some (q', slot_read q i)))
     | _ \<Rightarrow> Inr None)"

definition ring_rep :: "'a ring \<Rightarrow> 'a list \<Rightarrow> bool" where
  "ring_rep q xs \<longleftrightarrow>
     (\<exists>r M. rq_max_size q = int M \<and> 0 < M \<and> M \<le> RING_QUEUE_SIZE \<and> rq_abort q = 0 \<and>
        length (rq_queue q) = RING_QUEUE_SIZE \<and> rq_rindex q = int r \<and> r < M \<and>
        rq_size q = int (length xs) \<and> length xs \<le> M \<and>
        rq_windex q = int ((r + length xs) mod M) \<and>
        (\<forall>i < length xs. rq_queue q ! ((r + i) mod M) = xs ! i))"

definition ring_avail :: "'a ring \<Rightarrow> unit \<Rightarrow> bool" where
  "ring_avail q r \<longleftrightarrow> rq_size q < rq_max_size q"

lemma Suc_mod_wrap: "(if Suc (n mod M) = M then 0 else Suc (n mod M)) = Suc n mod (M::nat)"
  by (simp add: mod_Suc)

lemma mod_neq_window:
  assumes "j < k" and "k < j + (M::nat)"
  shows "j mod M \<noteq> k mod M"
proof
  assume "j mod M = k mod M"
  then have "M dvd k - j" using mod_eq_dvd_iff_nat [of j k M] assms(1) by simp
  with assms show False by (auto dest: dvd_imp_le)
qed

lemma push_advance_mod:
  assumes "rq_windex q = int (n mod M)" and "rq_max_size q = int M" and "0 < M" "M \<le> RING_QUEUE_SIZE"
  shows "push_advance q = Inr (q\<lparr>rq_windex := int (Suc n mod M)\<rparr>)"
proof -
  have "n mod M < M" using assms(3) by simp
  with assms(4) have "to_int (int (n mod M) + 1) = Inr (int (Suc (n mod M)))"
    by (simp add: to_int_def INT_MIN_def INT_MAX_def RING_QUEUE_SIZE_def)
  with assms(1,2) Suc_mod_wrap [of n M] show ?thesis
    by (auto simp: push_advance_def of_nat_Suc [symmetric] simp del: of_nat_Suc split: if_splits)
qed

lemma pull_advance_mod:
  assumes "rq_rindex q = int (n mod M)" and "rq_max_size q = int M" and "0 < M" "M \<le> RING_QUEUE_SIZE"
  shows "pull_advance q = Inr (q\<lparr>rq_rindex := int (Suc n mod M)\<rparr>)"
proof -
  have "n mod M < M" using assms(3) by simp
  with assms(4) have "to_int (int (n mod M) + 1) = Inr (int (Suc (n mod M)))"
    by (simp add: to_int_def INT_MIN_def INT_MAX_def RING_QUEUE_SIZE_def)
  with assms(1,2) Suc_mod_wrap [of n M] show ?thesis
    by (auto simp: pull_advance_def of_nat_Suc [symmetric] simp del: of_nat_Suc split: if_splits)
qed

lemma slot_mod: "0 < M \<Longrightarrow> M \<le> RING_QUEUE_SIZE \<Longrightarrow> slot (int (n mod M)) = Inr (n mod M)"
  using less_le_trans [OF mod_less_divisor [of M n]] by (simp add: slot_def zmod_int [symmetric])

lemma ring_put_ok:
  assumes "ring_rep q xs" and "ring_avail q u"
  shows "\<exists>q'. ring_put q u x = Inr (q', 0) \<and> ring_rep q' (xs @ [x])"
proof -
  from assms(1) obtain r M where q: "rq_max_size q = int M" "0 < M" "M \<le> RING_QUEUE_SIZE" "rq_abort q = 0"
    "length (rq_queue q) = RING_QUEUE_SIZE" "rq_rindex q = int r" "r < M" "rq_size q = int (length xs)"
    "rq_windex q = int ((r + length xs) mod M)"
    "\<And>i. i < length xs \<Longrightarrow> rq_queue q ! ((r + i) mod M) = xs ! i" by (auto simp: ring_rep_def)
  from assms(2) q have room: "length xs < M" by (simp add: ring_avail_def)
  let ?w = "(r + length xs) mod M"
  have "?w < RING_QUEUE_SIZE" using less_le_trans [OF mod_less_divisor q(3)] q(2) by simp
  note w = this
  define q1 where "q1 = slot_write q ?w x"
  define q' where "q' = q1\<lparr>rq_windex := int (Suc (r + length xs) mod M), rq_size := int (Suc (length xs)),
    rq_signals := Suc (rq_signals q)\<rparr>"
  have "push_advance q1 = Inr (q1\<lparr>rq_windex := int (Suc (r + length xs) mod M)\<rparr>)"
    using q by (intro push_advance_mod) (simp_all add: q1_def slot_write_def)
  moreover have "to_int (int (length xs) + 1) = Inr (int (length xs) + 1)"
    using room q(3) by (simp add: to_int_def INT_MIN_def INT_MAX_def RING_QUEUE_SIZE_def)
  ultimately have "ring_queue_push q1 = Inr q'"
    using q(8) by (simp add: ring_queue_push_def push_publish_def q'_def q1_def slot_write_def)
  then have run: "ring_put q u x = Inr (q', 0)"
    using q room by (simp add: ring_put_def ring_queue_peek_writable_def slot_mod q1_def)
  have "rq_queue q' ! ((r + i) mod M) = (xs @ [x]) ! i" if "i < length (xs @ [x])" for i
  proof (cases "i = length xs")
    case True
    with w q(5) show ?thesis by (simp add: q'_def q1_def slot_write_def)
  next
    case False
    with that have "i < length xs" by simp
    moreover from this have "(r + i) mod M \<noteq> ?w" using room by (intro mod_neq_window) auto
    ultimately show ?thesis using q(10) by (simp add: q'_def q1_def slot_write_def nth_append)
  qed
  then have "ring_rep q' (xs @ [x])"
    unfolding ring_rep_def using q room
    by (intro exI [of _ r] exI [of _ M]) (simp add: q'_def q1_def slot_write_def)
  with run show ?thesis by blast
qed

lemma ring_get_ok:
  assumes "ring_rep q (x # xs)"
  shows "\<exists>q'. ring_get q = Inr (Some (q', x)) \<and> ring_rep q' xs"
proof -
  from assms obtain r M where q: "rq_max_size q = int M" "0 < M" "M \<le> RING_QUEUE_SIZE" "rq_abort q = 0"
    "length (rq_queue q) = RING_QUEUE_SIZE" "rq_rindex q = int r" "r < M" "rq_size q = int (Suc (length xs))"
    "rq_windex q = int ((r + Suc (length xs)) mod M)" "Suc (length xs) \<le> M"
    "\<And>i. i < Suc (length xs) \<Longrightarrow> rq_queue q ! ((r + i) mod M) = (x # xs) ! i" by (auto simp: ring_rep_def)
  define q' where "q' = q\<lparr>rq_rindex := int (Suc r mod M), rq_size := int (length xs),
    rq_signals := Suc (rq_signals q)\<rparr>"
  have "pull_advance q = Inr (q\<lparr>rq_rindex := int (Suc r mod M)\<rparr>)"
    using q by (intro pull_advance_mod) simp_all
  moreover have "to_int (int (length xs)) = Inr (int (length xs))"
    using q(3,10) by (simp add: to_int_def INT_MIN_def INT_MAX_def RING_QUEUE_SIZE_def)
  ultimately have "ring_queue_pull q = Inr q'"
    using q(8) by (simp add: ring_queue_pull_def pull_release_def q'_def)
  moreover have "slot_read q r = x" using q(11) [of 0] q(7) by (simp add: slot_read_def)
  ultimately have run: "ring_get q = Inr (Some (q', x))"
    using q slot_mod [of M r] by (simp add: ring_get_def ring_queue_peek_readable_def)
  have sh: "(Suc r mod M + i) mod M = (r + Suc i) mod M" for i by (simp add: mod_add_left_eq)
  have "rq_queue q' ! ((Suc r mod M + i) mod M) = xs ! i" if "i < length xs" for i
    using q(11) [of "Suc i"] that by (simp add: sh q'_def)
  then have "ring_rep q' xs"
    unfolding ring_rep_def using q
    by (intro exI [of _ "Suc r mod M"] exI [of _ M]) (simp add: q'_def sh mod_add_left_eq)
  with run show ?thesis by blast
qed

lemma ring_get_empty: "ring_rep q [] \<Longrightarrow> ring_get q = Inr None"
  by (auto simp: ring_get_def ring_queue_peek_readable_def ring_rep_def)

interpretation rq: fifo ring_rep ring_avail ring_put ring_get
  by unfold_locales (fact ring_put_ok ring_get_ok ring_get_empty)+

section \<open>Two threads: the interleavings\<close>

text \<open>
  A producer and a consumer share the ring. The producer peeks for a slot, fills it,
  moves the write index and then, under the mutex, raises the count; the consumer peeks,
  reads, moves the read index and lowers the count. Every arrow is one atomic step and
  the scheduler may interleave them in any order. A thread whose peek waits sleeps until
  a signal, or a spurious wake-up, sends it back to the test. \<open>sent\<close> and \<open>received\<close>
  record the values that went through the slots.
\<close>

datatype pc = Idle | Asleep | HasSlot nat | Used | Moved

record 'a spsc =
  ring :: "'a ring"
  producer :: pc
  consumer :: pc
  sent :: "'a list"
  received :: "'a list"

definition wake :: "pc \<Rightarrow> pc" where
  "wake p = (if p = Asleep then Idle else p)"

inductive spsc_step :: "'a spsc \<Rightarrow> 'a spsc \<Rightarrow> bool" where
  p_sleep: "producer s = Idle \<Longrightarrow> ring_queue_peek_writable (ring s) = Inr Wait \<Longrightarrow>
    spsc_step s (s\<lparr>producer := Asleep\<rparr>)"
| p_peek: "producer s = Idle \<Longrightarrow> ring_queue_peek_writable (ring s) = Inr (Done (Some i)) \<Longrightarrow>
    spsc_step s (s\<lparr>producer := HasSlot i\<rparr>)"
| p_fill: "producer s = HasSlot i \<Longrightarrow>
    spsc_step s (s\<lparr>ring := slot_write (ring s) i x, producer := Used, sent := sent s @ [x]\<rparr>)"
| p_move: "producer s = Used \<Longrightarrow> push_advance (ring s) = Inr q \<Longrightarrow>
    spsc_step s (s\<lparr>ring := q, producer := Moved\<rparr>)"
| p_publish: "producer s = Moved \<Longrightarrow> push_publish (ring s) = Inr q \<Longrightarrow>
    spsc_step s (s\<lparr>ring := q, producer := Idle, consumer := wake (consumer s)\<rparr>)"
| c_sleep: "consumer s = Idle \<Longrightarrow> ring_queue_peek_readable (ring s) = Inr Wait \<Longrightarrow>
    spsc_step s (s\<lparr>consumer := Asleep\<rparr>)"
| c_peek: "consumer s = Idle \<Longrightarrow> ring_queue_peek_readable (ring s) = Inr (Done (Some i)) \<Longrightarrow>
    spsc_step s (s\<lparr>consumer := HasSlot i\<rparr>)"
| c_read: "consumer s = HasSlot i \<Longrightarrow>
    spsc_step s (s\<lparr>consumer := Used, received := received s @ [slot_read (ring s) i]\<rparr>)"
| c_move: "consumer s = Used \<Longrightarrow> pull_advance (ring s) = Inr q \<Longrightarrow>
    spsc_step s (s\<lparr>ring := q, consumer := Moved\<rparr>)"
| c_release: "consumer s = Moved \<Longrightarrow> pull_release (ring s) = Inr q \<Longrightarrow>
    spsc_step s (s\<lparr>ring := q, consumer := Idle, producer := wake (producer s)\<rparr>)"
| p_spurious: "producer s = Asleep \<Longrightarrow> spsc_step s (s\<lparr>producer := Idle\<rparr>)"
| c_spurious: "consumer s = Asleep \<Longrightarrow> spsc_step s (s\<lparr>consumer := Idle\<rparr>)"

text \<open>The ring as \<^verbatim>\<open>ring_queue_init\<close> leaves it, opened by its user.\<close>

definition spsc_init :: "'a \<Rightarrow> int \<Rightarrow> 'a spsc \<Rightarrow> bool" where
  "spsc_init zero m s \<longleftrightarrow>
     ring s = (fst (ring_queue_init zero m))\<lparr>rq_abort := 0\<rparr> \<and> 0 < m \<and>
     producer s = Idle \<and> consumer s = Idle \<and> sent s = [] \<and> received s = []"

text \<open>
  The invariant. Of the values sent, \<open>unpub\<close> is not yet counted and \<open>unmoved\<close> not yet
  behind the write index, and likewise on the reading side. Every value sent and not yet
  received is in the slot its number falls on.
\<close>

definition pending :: "pc \<Rightarrow> nat" where
  "pending p = (case p of Used \<Rightarrow> 1 | Moved \<Rightarrow> 1 | _ \<Rightarrow> 0)"

definition unmoved :: "pc \<Rightarrow> nat" where
  "unmoved p = (case p of Used \<Rightarrow> 1 | _ \<Rightarrow> 0)"

definition busy :: "pc \<Rightarrow> nat" where
  "busy p = (case p of Idle \<Rightarrow> 0 | Asleep \<Rightarrow> 0 | _ \<Rightarrow> 1)"

definition spsc_at :: "'a spsc \<Rightarrow> nat \<Rightarrow> nat \<Rightarrow> nat \<Rightarrow> nat \<Rightarrow> bool" where
  "spsc_at s M z S R \<longleftrightarrow>
     length (sent s) = S \<and> length (received s) = R \<and>
     rq_max_size (ring s) = int M \<and> 0 < M \<and> M \<le> RING_QUEUE_SIZE \<and> rq_abort (ring s) = 0 \<and>
     length (rq_queue (ring s)) = RING_QUEUE_SIZE \<and> rq_size (ring s) = int z \<and>
     z + pending (producer s) + R = S + pending (consumer s) \<and>
     z + busy (producer s) \<le> M \<and> busy (consumer s) \<le> z \<and>
     unmoved (producer s) \<le> S \<and> unmoved (consumer s) \<le> R \<and> R \<le> S \<and>
     rq_windex (ring s) = int ((S - unmoved (producer s)) mod M) \<and>
     rq_rindex (ring s) = int ((R - unmoved (consumer s)) mod M) \<and>
     (\<forall>i. producer s = HasSlot i \<longrightarrow> i = S mod M) \<and>
     (\<forall>i. consumer s = HasSlot i \<longrightarrow> i = R mod M) \<and>
     (producer s = Asleep \<longrightarrow> z = M) \<and> (consumer s = Asleep \<longrightarrow> z = 0) \<and>
     (\<forall>k. R \<le> k \<and> k < S \<longrightarrow> rq_queue (ring s) ! (k mod M) = sent s ! k) \<and>
     received s = take R (sent s)"

definition spsc_inv :: "'a spsc \<Rightarrow> bool" where
  "spsc_inv s \<longleftrightarrow> (\<exists>M z S R. spsc_at s M z S R)"

lemmas pc_counts = pending_def unmoved_def busy_def wake_def

lemma slot_write_simps [simp]:
  "rq_max_size (slot_write q i x) = rq_max_size q" "rq_abort (slot_write q i x) = rq_abort q"
  "rq_size (slot_write q i x) = rq_size q" "rq_windex (slot_write q i x) = rq_windex q"
  "rq_rindex (slot_write q i x) = rq_rindex q" "rq_queue (slot_write q i x) = (rq_queue q)[i := x]"
  by (simp_all add: slot_write_def)

lemma spsc_init_at: "spsc_init zero m s \<Longrightarrow> spsc_at s (nat (MIN_macro m (int RING_QUEUE_SIZE))) 0 0 0"
  by (auto simp: spsc_at_def spsc_init_def ring_queue_init_def MIN_macro_def RING_QUEUE_SIZE_def pc_counts)

lemma spsc_fill:
  assumes at: "spsc_at s M z S R" and p: "producer s = HasSlot i"
  shows "spsc_at (s\<lparr>ring := slot_write (ring s) i x, producer := Used, sent := sent s @ [x]\<rparr>) M z (Suc S) R"
    (is "spsc_at ?t _ _ _ _")
proof -
  have i: "i = S mod M" "i < RING_QUEUE_SIZE"
    using at p less_le_trans [OF mod_less_divisor [of M S]] by (auto simp: spsc_at_def)
  have "rq_queue (ring ?t) ! (k mod M) = sent ?t ! k" if "R \<le> k \<and> k < Suc S" for k
  proof (cases "k = S")
    case True
    moreover have "length (sent s) = S" "length (rq_queue (ring s)) = RING_QUEUE_SIZE"
      using at by (simp_all add: spsc_at_def)
    ultimately show ?thesis using i by (auto simp: nth_append)
  next
    case False
    with that have k: "R \<le> k" "k < S" by auto
    then have "k mod M \<noteq> i"
      using at p unfolding i(1) by (intro mod_neq_window) (auto simp: spsc_at_def pc_counts split: pc.splits)
    with at k show ?thesis by (simp add: spsc_at_def nth_append)
  qed
  with at p show ?thesis
    unfolding spsc_at_def by (auto simp: pc_counts)
qed

lemma spsc_read:
  assumes at: "spsc_at s M z S R" and p: "consumer s = HasSlot i"
  shows "spsc_at (s\<lparr>consumer := Used, received := received s @ [slot_read (ring s) i]\<rparr>) M z S (Suc R)"
proof -
  have "R < S" and i: "i = R mod M" using at p by (auto simp: spsc_at_def pc_counts split: pc.splits)
  moreover from this at have "slot_read (ring s) i = sent s ! R"
    by (simp add: slot_read_def spsc_at_def)
  moreover from \<open>R < S\<close> at have "take (Suc R) (sent s) = take R (sent s) @ [sent s ! R]"
    by (simp add: take_Suc_conv_app_nth spsc_at_def)
  ultimately show ?thesis
    using at p unfolding spsc_at_def by (auto simp: pc_counts)
qed

lemma spsc_move:
  assumes at: "spsc_at s M z S R" and p: "producer s = Used" and "push_advance (ring s) = Inr q"
  shows "spsc_at (s\<lparr>ring := q, producer := Moved\<rparr>) M z S R"
proof -
  have "rq_windex (ring s) = int ((S - 1) mod M)" "0 < S" using at p by (auto simp: spsc_at_def pc_counts)
  with push_advance_mod [of "ring s" "S - 1" M] at assms(3)
  have "q = (ring s)\<lparr>rq_windex := int (S mod M)\<rparr>" by (auto simp: spsc_at_def)
  with at p show ?thesis by (simp add: spsc_at_def pc_counts)
qed

lemma spsc_c_move:
  assumes at: "spsc_at s M z S R" and p: "consumer s = Used" and "pull_advance (ring s) = Inr q"
  shows "spsc_at (s\<lparr>ring := q, consumer := Moved\<rparr>) M z S R"
proof -
  have "rq_rindex (ring s) = int ((R - 1) mod M)" "0 < R" using at p by (auto simp: spsc_at_def pc_counts)
  with pull_advance_mod [of "ring s" "R - 1" M] at assms(3)
  have "q = (ring s)\<lparr>rq_rindex := int (R mod M)\<rparr>" by (auto simp: spsc_at_def)
  with at p show ?thesis by (simp add: spsc_at_def pc_counts)
qed

lemma spsc_publish:
  assumes at: "spsc_at s M z S R" and p: "producer s = Moved" and "push_publish (ring s) = Inr q"
  shows "spsc_at (s\<lparr>ring := q, producer := Idle, consumer := wake (consumer s)\<rparr>) M (Suc z) S R"
proof -
  have "q = (ring s)\<lparr>rq_size := int (Suc z), rq_signals := Suc (rq_signals (ring s))\<rparr>"
    using at assms(3) by (auto simp: push_publish_def bindR_Inr_iff to_int_def spsc_at_def split: if_splits)
  with at p show ?thesis by (auto simp: spsc_at_def pc_counts split: pc.splits)
qed

lemma spsc_release:
  assumes at: "spsc_at s M z S R" and p: "consumer s = Moved" and "pull_release (ring s) = Inr q"
  shows "spsc_at (s\<lparr>ring := q, consumer := Idle, producer := wake (producer s)\<rparr>) M (z - 1) S R"
proof -
  have "q = (ring s)\<lparr>rq_size := int (z - 1), rq_signals := Suc (rq_signals (ring s))\<rparr>"
    using at assms(3) p
    by (auto simp: pull_release_def bindR_Inr_iff to_int_def spsc_at_def pc_counts split: if_splits)
  with at p show ?thesis by (auto simp: spsc_at_def pc_counts split: pc.splits)
qed

lemma spsc_peek:
  assumes at: "spsc_at s M z S R" and "ring_queue_peek_writable (ring s) = Inr (Done (Some i))" "producer s = Idle"
  shows "spsc_at (s\<lparr>producer := HasSlot i\<rparr>) M z S R"
proof -
  have "i = S mod M" "z < M" using assms slot_mod [of M S]
    by (auto simp: ring_queue_peek_writable_def spsc_at_def bindR_Inr_iff pc_counts split: if_splits)
  with at assms(3) show ?thesis by (simp add: spsc_at_def pc_counts)
qed

lemma spsc_c_peek:
  assumes at: "spsc_at s M z S R" and "ring_queue_peek_readable (ring s) = Inr (Done (Some i))" "consumer s = Idle"
  shows "spsc_at (s\<lparr>consumer := HasSlot i\<rparr>) M z S R"
proof -
  have "i = R mod M" "0 < z" using assms slot_mod [of M R]
    by (auto simp: ring_queue_peek_readable_def spsc_at_def bindR_Inr_iff pc_counts split: if_splits)
  with at assms(3) show ?thesis by (simp add: spsc_at_def pc_counts)
qed

lemma spsc_sleep:
  assumes at: "spsc_at s M z S R" and "ring_queue_peek_writable (ring s) = Inr Wait" "producer s = Idle"
  shows "spsc_at (s\<lparr>producer := Asleep\<rparr>) M z S R"
  using assms by (auto simp: ring_queue_peek_writable_def spsc_at_def bindR_Inr_iff pc_counts split: if_splits)

lemma spsc_c_sleep:
  assumes at: "spsc_at s M z S R" and "ring_queue_peek_readable (ring s) = Inr Wait" "consumer s = Idle"
  shows "spsc_at (s\<lparr>consumer := Asleep\<rparr>) M z S R"
  using assms by (auto simp: ring_queue_peek_readable_def spsc_at_def bindR_Inr_iff pc_counts split: if_splits)

lemma spsc_spurious:
  assumes at: "spsc_at s M z S R"
  shows "producer s = Asleep \<Longrightarrow> spsc_at (s\<lparr>producer := Idle\<rparr>) M z S R"
    and "consumer s = Asleep \<Longrightarrow> spsc_at (s\<lparr>consumer := Idle\<rparr>) M z S R"
  using assms by (auto simp: spsc_at_def pc_counts)

lemma spsc_step_inv: "spsc_inv s \<Longrightarrow> spsc_step s t \<Longrightarrow> spsc_inv t"
  by (erule spsc_step.cases, unfold spsc_inv_def)
    (blast intro: spsc_fill spsc_read spsc_move spsc_c_move spsc_publish spsc_release spsc_peek spsc_c_peek
      spsc_sleep spsc_c_sleep spsc_spurious)+

lemma spsc_init_inv: "spsc_init zero m s \<Longrightarrow> spsc_inv s"
  unfolding spsc_inv_def by (blast dest: spsc_init_at)

interpretation spsc: safe_system "spsc_init zero m" spsc_step spsc_inv for zero :: 'a and m
  by unfold_locales (fact spsc_init_inv, fact spsc_step_inv)

lemma spsc_disjoint:
  assumes "spsc_inv s" and "producer s = HasSlot i" and "consumer s = HasSlot j"
  shows "i \<noteq> j \<and> i < RING_QUEUE_SIZE \<and> j < RING_QUEUE_SIZE"
proof -
  from assms(1) obtain M z S R where at: "spsc_at s M z S R" by (auto simp: spsc_inv_def)
  then have ij: "i = S mod M" "j = R mod M" using assms(2,3) by (auto simp: spsc_at_def)
  moreover have "R mod M \<noteq> S mod M"
    using at assms(2,3) by (intro mod_neq_window) (auto simp: spsc_at_def pc_counts split: pc.splits)
  moreover have "S mod M < RING_QUEUE_SIZE" "R mod M < RING_QUEUE_SIZE"
    using at less_le_trans [OF mod_less_divisor [of M]] by (auto simp: spsc_at_def)
  ultimately show ?thesis by simp
qed

lemma spsc_awake: "spsc_inv s \<Longrightarrow> \<not> (producer s = Asleep \<and> consumer s = Asleep)"
  by (auto simp: spsc_inv_def spsc_at_def)

lemma push_publish_total:
  "rq_size q = int z \<Longrightarrow> z \<le> RING_QUEUE_SIZE \<Longrightarrow> \<exists>q'. push_publish q = Inr q'"
  by (simp add: push_publish_def to_int_def INT_MIN_def INT_MAX_def RING_QUEUE_SIZE_def)

lemma pull_release_total:
  "rq_size q = int z \<Longrightarrow> z \<le> RING_QUEUE_SIZE \<Longrightarrow> \<exists>q'. pull_release q = Inr q'"
  by (simp add: pull_release_def to_int_def INT_MIN_def INT_MAX_def RING_QUEUE_SIZE_def)

lemma producer_step:
  assumes "spsc_at s M z S R" and "producer s \<noteq> Asleep"
  shows "\<exists>t. spsc_step s t \<and> producer t \<noteq> producer s"
proof (cases "producer s")
  case Idle
  show ?thesis
  proof (cases "rq_size (ring s) \<ge> rq_max_size (ring s)")
    case True
    with assms have "ring_queue_peek_writable (ring s) = Inr Wait"
      by (simp add: ring_queue_peek_writable_def spsc_at_def)
    from p_sleep [OF Idle this] show ?thesis using Idle by fastforce
  next
    case False
    with assms Idle slot_mod [of M S]
    have "ring_queue_peek_writable (ring s) = Inr (Done (Some (S mod M)))"
      by (simp add: ring_queue_peek_writable_def spsc_at_def pc_counts)
    from p_peek [OF Idle this] show ?thesis using Idle by fastforce
  qed
next
  case (HasSlot i)
  from p_fill [OF this] show ?thesis using HasSlot by fastforce
next
  case Used
  with assms have "rq_windex (ring s) = int ((S - 1) mod M)" by (simp add: spsc_at_def pc_counts)
  with assms obtain q where "push_advance (ring s) = Inr q"
    using push_advance_mod [of "ring s" "S - 1" M] by (auto simp: spsc_at_def)
  from p_move [OF Used this] show ?thesis using Used by fastforce
next
  case Moved
  with assms obtain q where "push_publish (ring s) = Inr q"
    using push_publish_total [of "ring s" z] by (auto simp: spsc_at_def)
  from p_publish [OF Moved this] show ?thesis using Moved by fastforce
qed (use assms in simp)

lemma consumer_step:
  assumes "spsc_at s M z S R" and "consumer s \<noteq> Asleep"
  shows "\<exists>t. spsc_step s t \<and> consumer t \<noteq> consumer s"
proof (cases "consumer s")
  case Idle
  show ?thesis
  proof (cases "rq_size (ring s) \<le> 0")
    case True
    with assms have "ring_queue_peek_readable (ring s) = Inr Wait"
      by (simp add: ring_queue_peek_readable_def spsc_at_def)
    from c_sleep [OF Idle this] show ?thesis using Idle by fastforce
  next
    case False
    with assms Idle slot_mod [of M R]
    have "ring_queue_peek_readable (ring s) = Inr (Done (Some (R mod M)))"
      by (simp add: ring_queue_peek_readable_def spsc_at_def pc_counts)
    from c_peek [OF Idle this] show ?thesis using Idle by fastforce
  qed
next
  case (HasSlot i)
  from c_read [OF this] show ?thesis using HasSlot by fastforce
next
  case Used
  with assms have "rq_rindex (ring s) = int ((R - 1) mod M)" by (simp add: spsc_at_def pc_counts)
  with assms obtain q where "pull_advance (ring s) = Inr q"
    using pull_advance_mod [of "ring s" "R - 1" M] by (auto simp: spsc_at_def)
  from c_move [OF Used this] show ?thesis using Used by fastforce
next
  case Moved
  with assms obtain q where "pull_release (ring s) = Inr q"
    using pull_release_total [of "ring s" z] by (auto simp: spsc_at_def)
  from c_release [OF Moved this] show ?thesis using Moved by fastforce
qed (use assms in simp)

text \<open>the ring is first in, first out: whatever puts and gets a ring opened with capacity m goes
  through, what came out followed by what it still holds is what was put in, in order, and it
  never holds more than the smaller of m and 32.\<close>
theorem ring_queue_first_in_first_out:
  assumes "qrun ring_avail ring_put ring_get ((fst (ring_queue_init zero m))\<lparr>rq_abort := 0\<rparr>) ops outs q"
    and "0 < m"
  shows "\<exists>ys. ring_rep q ys \<and> puts ops = outs @ ys \<and> rq_size q = int (length ys) \<and>
    length ys \<le> RING_QUEUE_SIZE"
proof -
  have "ring_rep ((fst (ring_queue_init zero m))\<lparr>rq_abort := 0\<rparr>) []"
    unfolding ring_rep_def
    by (rule exI [of _ 0], rule exI [of _ "nat (MIN_macro m (int RING_QUEUE_SIZE))"])
      (use assms(2) in \<open>auto simp: ring_queue_init_def MIN_macro_def RING_QUEUE_SIZE_def\<close>)
  from rq.run_order [OF assms(1) this] show ?thesis by (auto simp: ring_rep_def)
qed

theorem ring_queue_first_in_first_out_witness:
  "\<exists>ops outs q ys. qrun ring_avail ring_put ring_get ((fst (ring_queue_init (0::nat) 2))\<lparr>rq_abort := 0\<rparr>) ops outs q \<and>
    ops = [Put () 7, Put () 8, Get] \<and> outs = [7] \<and> ring_rep q ys \<and> puts ops = outs @ ys"
proof -
  let ?q0 = "(fst (ring_queue_init (0::nat) 2))\<lparr>rq_abort := 0\<rparr>"
  define q1 where "q1 = ?q0\<lparr>rq_queue := (replicate 32 0)[0 := 7], rq_windex := 1, rq_size := 1, rq_signals := 1\<rparr>"
  define q2 where "q2 = q1\<lparr>rq_queue := (replicate 32 0)[0 := 7, 1 := 8], rq_windex := 0, rq_size := 2, rq_signals := 2\<rparr>"
  define q3 where "q3 = q2\<lparr>rq_rindex := 1, rq_size := 1, rq_signals := 3\<rparr>"
  note defs = ring_put_def ring_get_def ring_queue_peek_writable_def ring_queue_peek_readable_def
    ring_queue_push_def ring_queue_pull_def push_advance_def push_publish_def pull_advance_def
    pull_release_def slot_def slot_write_def slot_read_def to_int_def INT_MIN_def INT_MAX_def
    RING_QUEUE_SIZE_def ring_queue_init_def MIN_macro_def ring_avail_def q1_def q2_def q3_def
  have run: "qrun ring_avail ring_put ring_get ?q0 [Put () 7, Put () 8, Get] [7] q3"
    by (rule qrun_put [where ?s1.0 = q1 and c = 0], simp add: defs, simp add: defs,
        rule qrun_put [where ?s1.0 = q2 and c = 0], simp add: defs, simp add: defs,
        rule qrun_get [where ?s1.0 = q3], simp add: defs, rule qrun_done)
  from ring_queue_first_in_first_out [OF run] run show ?thesis by fastforce
qed

text \<open>C10: a producer thread and a consumer thread share the ring in any interleaving, with spurious
  wake-ups: in every reachable state the values received are a prefix of the values sent, at most 32
  values are under way, and when both threads hold a slot the slots are different elements of the array.\<close>
theorem ring_queue_two_threads_safe:
  assumes "reach (spsc_init zero m) spsc_step s"
  shows "received s = take (length (received s)) (sent s) \<and>
    length (sent s) \<le> length (received s) + RING_QUEUE_SIZE \<and>
    (\<forall>i j. producer s = HasSlot i \<and> consumer s = HasSlot j \<longrightarrow>
       i \<noteq> j \<and> i < RING_QUEUE_SIZE \<and> j < RING_QUEUE_SIZE)"
proof -
  have inv: "spsc_inv s" by (rule spsc.reach_inv [OF assms])
  then obtain M z S R where "spsc_at s M z S R" by (auto simp: spsc_inv_def)
  then have "received s = take (length (received s)) (sent s)"
    "length (sent s) \<le> length (received s) + RING_QUEUE_SIZE"
    by (auto simp: spsc_at_def pc_counts split: pc.splits)
  with spsc_disjoint [OF inv] show ?thesis by blast
qed

text \<open>A run with a capacity of one: a value goes through and the second peek of the producer waits.\<close>

definition ex_spsc :: "nat spsc" where
  "ex_spsc = \<lparr>ring = (fst (ring_queue_init 0 1))\<lparr>rq_abort := 0\<rparr>, producer = Idle, consumer = Idle,
     sent = [], received = []\<rparr>"

definition ex_spsc_read :: "nat spsc" where
  "ex_spsc_read = ex_spsc\<lparr>
     ring := (ring ex_spsc)\<lparr>rq_queue := (replicate 32 0)[0 := 7], rq_size := 1, rq_signals := 1\<rparr>,
     producer := Asleep, consumer := HasSlot 0, sent := [7]\<rparr>"

lemma ex_spsc_reach: "reach (spsc_init 0 1) spsc_step ex_spsc_read"
proof -
  note defs = ex_spsc_def ex_spsc_read_def ring_queue_init_def MIN_macro_def RING_QUEUE_SIZE_def
    ring_queue_peek_writable_def ring_queue_peek_readable_def push_advance_def push_publish_def
    slot_def slot_write_def to_int_def INT_MIN_def INT_MAX_def wake_def
  let ?q = "(ring ex_spsc)\<lparr>rq_queue := (replicate 32 0)[0 := 7]\<rparr>"
  let ?q5 = "?q\<lparr>rq_size := 1, rq_signals := 1\<rparr>"
  define t1 where "t1 = ex_spsc\<lparr>consumer := Asleep\<rparr>"
  define t2 where "t2 = t1\<lparr>producer := HasSlot 0\<rparr>"
  define t3 where "t3 = t2\<lparr>ring := slot_write (ring t2) 0 7, producer := Used, sent := sent t2 @ [7]\<rparr>"
  define t4 where "t4 = t3\<lparr>ring := ?q, producer := Moved\<rparr>"
  define t5 where "t5 = t4\<lparr>ring := ?q5, producer := Idle, consumer := wake (consumer t4)\<rparr>"
  define t6 where "t6 = t5\<lparr>producer := Asleep\<rparr>"
  define t7 where "t7 = t6\<lparr>consumer := HasSlot 0\<rparr>"
  note ts = t1_def t2_def t3_def t4_def t5_def t6_def t7_def
  have r0: "reach (spsc_init 0 1) spsc_step ex_spsc"
    by (rule reach_init) (simp add: spsc_init_def ex_spsc_def)
  have "spsc_step ex_spsc t1" unfolding t1_def by (rule c_sleep) (simp_all add: ts defs)
  from reach_step [OF r0 this] have r1: "reach (spsc_init 0 1) spsc_step t1" .
  have "spsc_step t1 t2" unfolding t2_def by (rule p_peek) (simp_all add: ts defs)
  from reach_step [OF r1 this] have r2: "reach (spsc_init 0 1) spsc_step t2" .
  have "spsc_step t2 t3" unfolding t3_def by (rule p_fill) (simp_all add: ts defs)
  from reach_step [OF r2 this] have r3: "reach (spsc_init 0 1) spsc_step t3" .
  have "spsc_step t3 t4" unfolding t4_def by (rule p_move) (simp_all add: ts defs)
  from reach_step [OF r3 this] have r4: "reach (spsc_init 0 1) spsc_step t4" .
  have "spsc_step t4 t5" unfolding t5_def by (rule p_publish) (simp_all add: ts defs)
  from reach_step [OF r4 this] have r5: "reach (spsc_init 0 1) spsc_step t5" .
  have "spsc_step t5 t6" unfolding t6_def by (rule p_sleep) (simp_all add: ts defs)
  from reach_step [OF r5 this] have r6: "reach (spsc_init 0 1) spsc_step t6" .
  have "spsc_step t6 t7" unfolding t7_def by (rule c_peek) (simp_all add: ts defs)
  from reach_step [OF r6 this] have r7: "reach (spsc_init 0 1) spsc_step t7" .
  have "t7 = ex_spsc_read" by (simp add: ts defs)
  with r7 show ?thesis by simp
qed

theorem ring_queue_two_threads_safe_witness:
  "received ex_spsc_read = take 0 (sent ex_spsc_read) \<and> length (sent ex_spsc_read) \<le> 32"
  using ring_queue_two_threads_safe [OF ex_spsc_reach]
  by (simp add: ex_spsc_read_def ex_spsc_def RING_QUEUE_SIZE_def)

text \<open>C20: the two threads never wait for each other for ever: no reachable state has both asleep, and a
  thread that is awake can always make its next step (its peek, its move and its count never fail).\<close>
theorem ring_queue_two_threads_live:
  assumes "reach (spsc_init zero m) spsc_step s"
  shows "\<not> (producer s = Asleep \<and> consumer s = Asleep) \<and>
    (producer s \<noteq> Asleep \<longrightarrow> (\<exists>t. spsc_step s t \<and> producer t \<noteq> producer s)) \<and>
    (consumer s \<noteq> Asleep \<longrightarrow> (\<exists>t. spsc_step s t \<and> consumer t \<noteq> consumer s))"
proof -
  have inv: "spsc_inv s" by (rule spsc.reach_inv [OF assms])
  then obtain M z S R where "spsc_at s M z S R" by (auto simp: spsc_inv_def)
  from producer_step [OF this] consumer_step [OF this] spsc_awake [OF inv] show ?thesis by blast
qed

theorem ring_queue_two_threads_live_witness:
  "producer ex_spsc_read = Asleep \<and> (\<exists>t. spsc_step ex_spsc_read t \<and> consumer t \<noteq> consumer ex_spsc_read)"
  using ring_queue_two_threads_live [OF ex_spsc_reach] by (simp add: ex_spsc_read_def)

text \<open>An aborted ring gives out no slot and never blocks a thread, and a ring is born aborted: no
  operation of the file clears the flag, so every peek on a ring just initialised returns NULL.\<close>

lemma ring_queue_aborted_peeks:
  "ring_queue_peek_writable (ring_queue_signal q) = Inr (Done None) \<and>
   ring_queue_peek_readable (ring_queue_signal q) = Inr (Done None) \<and>
   ring_queue_peek_writable (fst (ring_queue_init zero m)) = Inr (Done None) \<and>
   ring_queue_peek_readable (fst (ring_queue_init zero m)) = Inr (Done None)"
  by (simp add: ring_queue_peek_writable_def ring_queue_peek_readable_def ring_queue_signal_def
      ring_queue_init_def)

end
