(* ===== verification/CJsonHeap.thy ===== *)
theory CJsonHeap
  imports CJson
begin

text \<open>
  The functions of \<^verbatim>\<open>src/src/cJSON.c\<close> that build, link, edit and free JSON trees, on the
  pointer structure itself: \<open>cells\<close> holds at an address a \<^verbatim>\<open>struct cJSON\<close>, an allocated
  string, or a string the library may read and not free. A function whose loop follows
  \<^verbatim>\<open>next\<close> pointers is a partial function into an option, \<open>None\<close> when it never ends.
\<close>

section \<open>Results of loops\<close>

type_synonym 'a run = "'a res option"

definition bindO :: "'a run \<Rightarrow> ('a \<Rightarrow> 'b run) \<Rightarrow> 'b run" where
  "bindO m f = Option.bind m (\<lambda>r. case r of Inl e \<Rightarrow> Some (Inl e) | Inr x \<Rightarrow> f x)"

abbreviation ret :: "'a \<Rightarrow> 'a run" where
  "ret x \<equiv> Some (Inr x)"

lemma bindO_simps [simp]: "bindO (Some (Inr x)) f = f x" "bindO (Some (Inl e)) f = Some (Inl e)" "bindO None f = None"
  by (simp_all add: bindO_def)

lemma bindO_ret [simp]: "bindO m (\<lambda>x. ret x) = m"
  by (cases m) (auto simp: bindO_def split: sum.splits)

lemma bindO_mono [partial_function_mono]:
  assumes "mono_option B" and "\<And>y. mono_option (\<lambda>f. C y f)"
  shows "mono_option (\<lambda>f. bindO (B f) (\<lambda>y. C y f))"
  unfolding bindO_def
proof (rule bind_mono [OF assms(1)])
  show "mono_option (\<lambda>f. case r of Inl e \<Rightarrow> Some (Inl e) | Inr x \<Rightarrow> C x f)" for r :: "ub + 'c"
    using assms(2) by (cases r) (auto intro: option.const_mono)
qed

section \<open>Memory\<close>

definition cJSON_IsReference :: int where "cJSON_IsReference = 256"

text \<open>
  \<^verbatim>\<open>struct cJSON\<close>. \<open>n_number\<close> stands for \<^verbatim>\<open>valuedouble\<close> and \<^verbatim>\<open>valueint\<close>, \<open>None\<close> for the
  zeros of a new item.
\<close>

record cj_node =
  n_next :: ptr
  n_prev :: ptr
  n_child :: ptr
  n_type :: int
  n_valuestring :: ptr
  n_number :: "decimal_number option"
  n_string :: ptr

datatype cj_cell = Node cj_node | Text "u8 list" | Literal "u8 list"

text \<open>\<open>calls\<close> counts the calls of \<^verbatim>\<open>cJSON_malloc\<close>, so that two of them may differ.\<close>

record cj_heap =
  cells :: "ptr \<rightharpoonup> cj_cell"
  calls :: nat

text \<open>
  \<^verbatim>\<open>cJSON_malloc\<close> is a hook, and so an argument of the functions that call it: the address
  it returns for a size in some state, NULL when it fails.
\<close>

type_synonym allocator = "cj_heap \<Rightarrow> nat \<Rightarrow> ptr"

definition SIZEOF_CJSON :: nat where "SIZEOF_CJSON = 64"

definition cj_malloc :: "allocator \<Rightarrow> cj_heap \<Rightarrow> nat \<Rightarrow> cj_cell \<Rightarrow> cj_heap \<times> ptr" where
  "cj_malloc al H n v =
     (let p = al H n in
      (H\<lparr>cells := (if p = NULL then cells H else (cells H)(p \<mapsto> v)), calls := calls H + 1\<rparr>, p))"

definition get_item :: "cj_heap \<Rightarrow> ptr \<Rightarrow> cj_node res" where
  "get_item H p = (case cells H p of Some (Node n) \<Rightarrow> Inr n | _ \<Rightarrow> Inl (BadPtr p))"

definition set_item :: "cj_heap \<Rightarrow> ptr \<Rightarrow> (cj_node \<Rightarrow> cj_node) \<Rightarrow> cj_heap res" where
  "set_item H p f = bindR (get_item H p) (\<lambda>n. Inr (H\<lparr>cells := (cells H)(p \<mapsto> Node (f n))\<rparr>))"

definition get_text :: "cj_heap \<Rightarrow> ptr \<Rightarrow> u8 list res" where
  "get_text H p = (case cells H p of Some (Text s) \<Rightarrow> Inr s | Some (Literal s) \<Rightarrow> Inr s | _ \<Rightarrow> Inl (BadPtr p))"

definition cj_free :: "cj_heap \<Rightarrow> ptr \<Rightarrow> cj_heap res" where
  "cj_free H p =
     (case cells H p of
        Some (Node n) \<Rightarrow> Inr (H\<lparr>cells := (cells H)(p := None)\<rparr>)
      | Some (Text s) \<Rightarrow> Inr (H\<lparr>cells := (cells H)(p := None)\<rparr>)
      | _ \<Rightarrow> Inl (BadFree p))"

text \<open>\<^verbatim>\<open>cJSON_InitHooks\<close> chooses the two functions; a hook that is not given is the standard one.\<close>

record ('m, 'f) cJSON_Hooks =
  malloc_fn :: "'m option"
  free_fn :: "'f option"

definition cJSON_InitHooks :: "'m \<Rightarrow> 'f \<Rightarrow> ('m, 'f) cJSON_Hooks option \<Rightarrow> 'm \<times> 'f" where
  "cJSON_InitHooks std_malloc std_free hooks =
     (case hooks of
        None \<Rightarrow> (std_malloc, std_free)
      | Some h \<Rightarrow>
          (case malloc_fn h of Some m \<Rightarrow> m | None \<Rightarrow> std_malloc,
           case free_fn h of Some f \<Rightarrow> f | None \<Rightarrow> std_free))"

section \<open>Items and strings\<close>

definition zero_node :: cj_node where
  "zero_node = \<lparr>n_next = NULL, n_prev = NULL, n_child = NULL, n_type = 0, n_valuestring = NULL,
     n_number = None, n_string = NULL\<rparr>"

definition new_item :: "allocator \<Rightarrow> cj_heap \<Rightarrow> cj_heap \<times> ptr" where
  "new_item al H = cj_malloc al H SIZEOF_CJSON (Node zero_node)"

definition cj_strdup :: "allocator \<Rightarrow> cj_heap \<Rightarrow> ptr \<Rightarrow> (cj_heap \<times> ptr) res" where
  "cj_strdup al H str =
     bindR (get_text H str) (\<lambda>s.
     let copy = c_view s in
     Inr (cj_malloc al H (length copy + 1) (Text copy)))"

definition name_cmp :: "cj_heap \<Rightarrow> ptr \<Rightarrow> ptr \<Rightarrow> int res" where
  "name_cmp H s1 s2 =
     (if s1 = NULL then Inr (if s1 = s2 then 0 else 1)
      else if s2 = NULL then Inr 1
      else bindR (get_text H s1) (\<lambda>a.
           bindR (get_text H s2) (\<lambda>b.
           Inr (cJSON_strcasecmp (Some a) (Some b)))))"

text \<open>What \<^verbatim>\<open>cJSON_Delete\<close> frees of an item besides its children.\<close>

definition release_item :: "cj_heap \<Rightarrow> ptr \<Rightarrow> cj_heap res" where
  "release_item H c =
     bindR (get_item H c) (\<lambda>n.
     bindR (if n_type n AND cJSON_IsReference = 0 \<and> n_valuestring n \<noteq> NULL
            then cj_free H (n_valuestring n) else Inr H) (\<lambda>H.
     bindR (get_item H c) (\<lambda>n.
     bindR (if n_string n \<noteq> NULL then cj_free H (n_string n) else Inr H) (\<lambda>H.
     cj_free H c))))"

partial_function (option) cJSON_Delete :: "cj_heap \<Rightarrow> ptr \<Rightarrow> cj_heap run" where
  "cJSON_Delete H c =
     (if c \<noteq> NULL
      then bindO (Some (get_item H c)) (\<lambda>n.
           bindO (if n_type n AND cJSON_IsReference = 0 \<and> n_child n \<noteq> NULL
                  then cJSON_Delete H (n_child n) else ret H) (\<lambda>H.
           bindO (Some (release_item H c)) (\<lambda>H.
           cJSON_Delete H (n_next n))))
      else ret H)"

section \<open>Walking along the items\<close>

partial_function (option) size_walk :: "cj_heap \<Rightarrow> ptr \<Rightarrow> int \<Rightarrow> int run" where
  "size_walk H c i =
     (if c \<noteq> NULL
      then bindO (Some (to_int (i + 1))) (\<lambda>i.
           bindO (Some (get_item H c)) (\<lambda>n.
           size_walk H (n_next n) i))
      else ret i)"

definition GetArraySize :: "cj_heap \<Rightarrow> ptr \<Rightarrow> int run" where
  "GetArraySize H array = bindO (Some (get_item H array)) (\<lambda>a. size_walk H (n_child a) 0)"

partial_function (option) nth_walk :: "cj_heap \<Rightarrow> ptr \<Rightarrow> int \<Rightarrow> ptr run" where
  "nth_walk H c which =
     (if c \<noteq> NULL \<and> which > 0
      then bindO (Some (get_item H c)) (\<lambda>n. nth_walk H (n_next n) (which - 1))
      else ret c)"

definition GetArrayItem :: "cj_heap \<Rightarrow> ptr \<Rightarrow> int \<Rightarrow> ptr run" where
  "GetArrayItem H array i = bindO (Some (get_item H array)) (\<lambda>a. nth_walk H (n_child a) i)"

text \<open>\<^verbatim>\<open>while (c && cJSON_strcasecmp(c->string,string)) i++,c=c->next\<close>\<close>

partial_function (option) name_walk :: "cj_heap \<Rightarrow> ptr \<Rightarrow> ptr \<Rightarrow> int \<Rightarrow> (ptr \<times> int) run" where
  "name_walk H c str i =
     (if c \<noteq> NULL
      then bindO (Some (get_item H c)) (\<lambda>n.
           bindO (Some (name_cmp H (n_string n) str)) (\<lambda>d.
           if d \<noteq> 0
           then bindO (Some (to_int (i + 1))) (\<lambda>i. name_walk H (n_next n) str i)
           else ret (c, i)))
      else ret (c, i))"

partial_function (option) object_walk :: "cj_heap \<Rightarrow> ptr \<Rightarrow> ptr \<Rightarrow> ptr run" where
  "object_walk H c str =
     (if c \<noteq> NULL
      then bindO (Some (get_item H c)) (\<lambda>n.
           bindO (Some (name_cmp H (n_string n) str)) (\<lambda>d.
           if d \<noteq> 0 then object_walk H (n_next n) str else ret c))
      else ret c)"

definition GetObjectItem :: "cj_heap \<Rightarrow> ptr \<Rightarrow> ptr \<Rightarrow> ptr run" where
  "GetObjectItem H object str = bindO (Some (get_item H object)) (\<lambda>a. object_walk H (n_child a) str)"

partial_function (option) last_walk :: "cj_heap \<Rightarrow> ptr \<Rightarrow> ptr run" where
  "last_walk H c =
     (if c \<noteq> NULL
      then bindO (Some (get_item H c)) (\<lambda>n. if n_next n \<noteq> NULL then last_walk H (n_next n) else ret c)
      else ret c)"

section \<open>Linking\<close>

definition suffix_object :: "cj_heap \<Rightarrow> ptr \<Rightarrow> ptr \<Rightarrow> cj_heap res" where
  "suffix_object H prev item =
     bindR (set_item H prev (n_next_update (\<lambda>_. item))) (\<lambda>H.
     set_item H item (n_prev_update (\<lambda>_. prev)))"

definition create_reference :: "allocator \<Rightarrow> cj_heap \<Rightarrow> ptr \<Rightarrow> (cj_heap \<times> ptr) res" where
  "create_reference al H item =
     (let (H, ref) = new_item al H in
      if ref = NULL then Inr (H, NULL)
      else bindR (get_item H item) (\<lambda>n.
           bindR (set_item H ref (\<lambda>_. n\<lparr>n_string := NULL, n_type := n_type n OR cJSON_IsReference,
             n_next := NULL, n_prev := NULL\<rparr>)) (\<lambda>H.
           Inr (H, ref))))"

definition cJSON_AddItemToArray :: "cj_heap \<Rightarrow> ptr \<Rightarrow> ptr \<Rightarrow> cj_heap run" where
  "cJSON_AddItemToArray H array item =
     bindO (Some (get_item H array)) (\<lambda>a.
     let c = n_child a in
     if item = NULL then ret H
     else if c = NULL then Some (set_item H array (n_child_update (\<lambda>_. item)))
     else bindO (last_walk H c) (\<lambda>c. Some (suffix_object H c item)))"

definition cJSON_AddItemToObject :: "allocator \<Rightarrow> cj_heap \<Rightarrow> ptr \<Rightarrow> ptr \<Rightarrow> ptr \<Rightarrow> cj_heap run" where
  "cJSON_AddItemToObject al H object str item =
     (if item = NULL then ret H
      else bindO (Some (get_item H item)) (\<lambda>n.
           bindO (Some (if n_string n \<noteq> NULL then cj_free H (n_string n) else Inr H)) (\<lambda>H.
           bindO (Some (cj_strdup al H str)) (\<lambda>(H, copy).
           bindO (Some (set_item H item (n_string_update (\<lambda>_. copy)))) (\<lambda>H.
           cJSON_AddItemToArray H object item)))))"

definition cJSON_AddItemReferenceToArray :: "allocator \<Rightarrow> cj_heap \<Rightarrow> ptr \<Rightarrow> ptr \<Rightarrow> cj_heap run" where
  "cJSON_AddItemReferenceToArray al H array item =
     bindO (Some (create_reference al H item)) (\<lambda>(H, ref). cJSON_AddItemToArray H array ref)"

definition cJSON_AddItemReferenceToObject :: "allocator \<Rightarrow> cj_heap \<Rightarrow> ptr \<Rightarrow> ptr \<Rightarrow> ptr \<Rightarrow> cj_heap run" where
  "cJSON_AddItemReferenceToObject al H object str item =
     bindO (Some (create_reference al H item)) (\<lambda>(H, ref). cJSON_AddItemToObject al H object str ref)"

section \<open>Taking out and replacing\<close>

definition unlink_item :: "cj_heap \<Rightarrow> ptr \<Rightarrow> ptr \<Rightarrow> cj_heap res" where
  "unlink_item H array c =
     bindR (get_item H c) (\<lambda>n.
     bindR (if n_prev n \<noteq> NULL then set_item H (n_prev n) (n_next_update (\<lambda>_. n_next n)) else Inr H) (\<lambda>H.
     bindR (get_item H c) (\<lambda>n.
     bindR (if n_next n \<noteq> NULL then set_item H (n_next n) (n_prev_update (\<lambda>_. n_prev n)) else Inr H) (\<lambda>H.
     bindR (get_item H array) (\<lambda>a.
     bindR (get_item H c) (\<lambda>n.
     bindR (if c = n_child a then set_item H array (n_child_update (\<lambda>_. n_next n)) else Inr H) (\<lambda>H.
     set_item H c (\<lambda>n. n\<lparr>n_next := NULL, n_prev := NULL\<rparr>))))))))"

definition cJSON_DetachItemFromArray :: "cj_heap \<Rightarrow> ptr \<Rightarrow> int \<Rightarrow> (cj_heap \<times> ptr) run" where
  "cJSON_DetachItemFromArray H array which =
     bindO (Some (get_item H array)) (\<lambda>a.
     bindO (nth_walk H (n_child a) which) (\<lambda>c.
     if c = NULL then ret (H, NULL)
     else bindO (Some (unlink_item H array c)) (\<lambda>H. ret (H, c))))"

definition cJSON_DeleteItemFromArray :: "cj_heap \<Rightarrow> ptr \<Rightarrow> int \<Rightarrow> cj_heap run" where
  "cJSON_DeleteItemFromArray H array which =
     bindO (cJSON_DetachItemFromArray H array which) (\<lambda>(H, c). cJSON_Delete H c)"

definition cJSON_DetachItemFromObject :: "cj_heap \<Rightarrow> ptr \<Rightarrow> ptr \<Rightarrow> (cj_heap \<times> ptr) run" where
  "cJSON_DetachItemFromObject H object str =
     bindO (Some (get_item H object)) (\<lambda>a.
     bindO (name_walk H (n_child a) str 0) (\<lambda>(c, i).
     if c \<noteq> NULL then cJSON_DetachItemFromArray H object i else ret (H, NULL)))"

definition cJSON_DeleteItemFromObject :: "cj_heap \<Rightarrow> ptr \<Rightarrow> ptr \<Rightarrow> cj_heap run" where
  "cJSON_DeleteItemFromObject H object str =
     bindO (cJSON_DetachItemFromObject H object str) (\<lambda>(H, c). cJSON_Delete H c)"

definition relink_item :: "cj_heap \<Rightarrow> ptr \<Rightarrow> ptr \<Rightarrow> ptr \<Rightarrow> cj_heap res" where
  "relink_item H array c newitem =
     bindR (get_item H c) (\<lambda>n.
     bindR (set_item H newitem (n_next_update (\<lambda>_. n_next n))) (\<lambda>H.
     bindR (get_item H c) (\<lambda>n.
     bindR (set_item H newitem (n_prev_update (\<lambda>_. n_prev n))) (\<lambda>H.
     bindR (get_item H newitem) (\<lambda>m.
     bindR (if n_next m \<noteq> NULL then set_item H (n_next m) (n_prev_update (\<lambda>_. newitem)) else Inr H) (\<lambda>H.
     bindR (get_item H array) (\<lambda>a.
     bindR (if c = n_child a then set_item H array (n_child_update (\<lambda>_. newitem))
            else bindR (get_item H newitem) (\<lambda>m. set_item H (n_prev m) (n_next_update (\<lambda>_. newitem)))) (\<lambda>H.
     set_item H c (\<lambda>n. n\<lparr>n_next := NULL, n_prev := NULL\<rparr>)))))))))"

definition cJSON_ReplaceItemInArray :: "cj_heap \<Rightarrow> ptr \<Rightarrow> int \<Rightarrow> ptr \<Rightarrow> cj_heap run" where
  "cJSON_ReplaceItemInArray H array which newitem =
     bindO (Some (get_item H array)) (\<lambda>a.
     bindO (nth_walk H (n_child a) which) (\<lambda>c.
     if c = NULL then ret H
     else bindO (Some (relink_item H array c newitem)) (\<lambda>H. cJSON_Delete H c)))"

definition cJSON_ReplaceItemInObject :: "allocator \<Rightarrow> cj_heap \<Rightarrow> ptr \<Rightarrow> ptr \<Rightarrow> ptr \<Rightarrow> cj_heap run" where
  "cJSON_ReplaceItemInObject al H object str newitem =
     bindO (Some (get_item H object)) (\<lambda>a.
     bindO (name_walk H (n_child a) str 0) (\<lambda>(c, i).
     if c \<noteq> NULL
     then bindO (Some (cj_strdup al H str)) (\<lambda>(H, copy).
          bindO (Some (set_item H newitem (n_string_update (\<lambda>_. copy)))) (\<lambda>H.
          cJSON_ReplaceItemInArray H object i newitem))
     else ret H))"

section \<open>Building\<close>

definition create_item :: "allocator \<Rightarrow> cj_heap \<Rightarrow> (cj_node \<Rightarrow> cj_node) \<Rightarrow> (cj_heap \<times> ptr) res" where
  "create_item al H f =
     (let (H, item) = new_item al H in
      if item \<noteq> NULL then bindR (set_item H item f) (\<lambda>H. Inr (H, item)) else Inr (H, item))"

definition cJSON_CreateNull :: "allocator \<Rightarrow> cj_heap \<Rightarrow> (cj_heap \<times> ptr) res" where
  "cJSON_CreateNull al H = create_item al H (n_type_update (\<lambda>_. cJSON_NULL))"

definition cJSON_CreateTrue :: "allocator \<Rightarrow> cj_heap \<Rightarrow> (cj_heap \<times> ptr) res" where
  "cJSON_CreateTrue al H = create_item al H (n_type_update (\<lambda>_. cJSON_True))"

definition cJSON_CreateFalse :: "allocator \<Rightarrow> cj_heap \<Rightarrow> (cj_heap \<times> ptr) res" where
  "cJSON_CreateFalse al H = create_item al H (n_type_update (\<lambda>_. cJSON_False))"

definition cJSON_CreateBool :: "allocator \<Rightarrow> cj_heap \<Rightarrow> int \<Rightarrow> (cj_heap \<times> ptr) res" where
  "cJSON_CreateBool al H b = create_item al H (n_type_update (\<lambda>_. if b \<noteq> 0 then cJSON_True else cJSON_False))"

definition cJSON_CreateNumber :: "allocator \<Rightarrow> cj_heap \<Rightarrow> decimal_number \<Rightarrow> (cj_heap \<times> ptr) res" where
  "cJSON_CreateNumber al H num = create_item al H (\<lambda>n. n\<lparr>n_type := cJSON_Number, n_number := Some num\<rparr>)"

definition cJSON_CreateArray :: "allocator \<Rightarrow> cj_heap \<Rightarrow> (cj_heap \<times> ptr) res" where
  "cJSON_CreateArray al H = create_item al H (n_type_update (\<lambda>_. cJSON_Array))"

definition cJSON_CreateObject :: "allocator \<Rightarrow> cj_heap \<Rightarrow> (cj_heap \<times> ptr) res" where
  "cJSON_CreateObject al H = create_item al H (n_type_update (\<lambda>_. cJSON_Object))"

definition cJSON_CreateString :: "allocator \<Rightarrow> cj_heap \<Rightarrow> ptr \<Rightarrow> (cj_heap \<times> ptr) res" where
  "cJSON_CreateString al H str =
     (let (H, item) = new_item al H in
      if item \<noteq> NULL
      then bindR (set_item H item (n_type_update (\<lambda>_. cJSON_String))) (\<lambda>H.
           bindR (cj_strdup al H str) (\<lambda>(H, copy).
           bindR (set_item H item (n_valuestring_update (\<lambda>_. copy))) (\<lambda>H.
           Inr (H, item))))
      else Inr (H, item))"

text \<open>
  The loop of the four functions that build an array: \<open>i\<close> counts, \<open>xs\<close> are the elements of
  the C array from index \<open>i\<close> on, \<open>p\<close> is the item made last.
\<close>

fun fill_array ::
    "(cj_heap \<Rightarrow> 'x \<Rightarrow> (cj_heap \<times> ptr) res) \<Rightarrow> ptr \<Rightarrow> int \<Rightarrow> int \<Rightarrow> 'x list \<Rightarrow> ptr \<Rightarrow> cj_heap \<Rightarrow> cj_heap res" where
  "fill_array mk a count i [] p H = (if i < count then Inl OutOfBounds else Inr H)"
| "fill_array mk a count i (x # xs) p H =
     (if i < count
      then bindR (mk H x) (\<lambda>(H, n).
           bindR (if i = 0 then set_item H a (n_child_update (\<lambda>_. n)) else suffix_object H p n) (\<lambda>H.
           fill_array mk a count (i + 1) xs n H))
      else Inr H)"

definition create_array_of ::
    "(cj_heap \<Rightarrow> 'x \<Rightarrow> (cj_heap \<times> ptr) res) \<Rightarrow> allocator \<Rightarrow> cj_heap \<Rightarrow> 'x list \<Rightarrow> int \<Rightarrow> (cj_heap \<times> ptr) res" where
  "create_array_of mk al H xs count =
     bindR (cJSON_CreateArray al H) (\<lambda>(H, a).
     if a \<noteq> NULL then bindR (fill_array mk a count 0 xs NULL H) (\<lambda>H. Inr (H, a)) else Inr (H, a))"

definition cJSON_CreateIntArray :: "allocator \<Rightarrow> cj_heap \<Rightarrow> int list \<Rightarrow> int \<Rightarrow> (cj_heap \<times> ptr) res" where
  "cJSON_CreateIntArray al = create_array_of (\<lambda>H x. cJSON_CreateNumber al H (Dec x 0)) al"

definition cJSON_CreateFloatArray :: "allocator \<Rightarrow> cj_heap \<Rightarrow> decimal_number list \<Rightarrow> int \<Rightarrow> (cj_heap \<times> ptr) res" where
  "cJSON_CreateFloatArray al = create_array_of (cJSON_CreateNumber al) al"

definition cJSON_CreateDoubleArray :: "allocator \<Rightarrow> cj_heap \<Rightarrow> decimal_number list \<Rightarrow> int \<Rightarrow> (cj_heap \<times> ptr) res" where
  "cJSON_CreateDoubleArray al = create_array_of (cJSON_CreateNumber al) al"

definition cJSON_CreateStringArray :: "allocator \<Rightarrow> cj_heap \<Rightarrow> ptr list \<Rightarrow> int \<Rightarrow> (cj_heap \<times> ptr) res" where
  "cJSON_CreateStringArray al = create_array_of (cJSON_CreateString al) al"

text \<open>The macro \<^verbatim>\<open>cJSON_SetIntValue\<close>: both values of the item, and the value is the result.\<close>

definition cJSON_SetIntValue :: "cj_heap \<Rightarrow> ptr \<Rightarrow> int \<Rightarrow> (cj_heap \<times> int) res" where
  "cJSON_SetIntValue H object val =
     (if object \<noteq> NULL
      then bindR (set_item H object (n_number_update (\<lambda>_. Some (Dec val 0)))) (\<lambda>H. Inr (H, val))
      else Inr (H, val))"

text \<open>The macros of \<^verbatim>\<open>cJSON.h\<close>: the arguments of the call are evaluated first.\<close>

definition add_created :: "allocator \<Rightarrow> (cj_heap \<times> ptr) res \<Rightarrow> ptr \<Rightarrow> ptr \<Rightarrow> cj_heap run" where
  "add_created al r object str = bindO (Some r) (\<lambda>(H, item). cJSON_AddItemToObject al H object str item)"

definition cJSON_AddNullToObject :: "allocator \<Rightarrow> cj_heap \<Rightarrow> ptr \<Rightarrow> ptr \<Rightarrow> cj_heap run" where
  "cJSON_AddNullToObject al H = add_created al (cJSON_CreateNull al H)"

definition cJSON_AddTrueToObject :: "allocator \<Rightarrow> cj_heap \<Rightarrow> ptr \<Rightarrow> ptr \<Rightarrow> cj_heap run" where
  "cJSON_AddTrueToObject al H = add_created al (cJSON_CreateTrue al H)"

definition cJSON_AddFalseToObject :: "allocator \<Rightarrow> cj_heap \<Rightarrow> ptr \<Rightarrow> ptr \<Rightarrow> cj_heap run" where
  "cJSON_AddFalseToObject al H = add_created al (cJSON_CreateFalse al H)"

definition cJSON_AddBoolToObject :: "allocator \<Rightarrow> cj_heap \<Rightarrow> ptr \<Rightarrow> ptr \<Rightarrow> int \<Rightarrow> cj_heap run" where
  "cJSON_AddBoolToObject al H object str b = add_created al (cJSON_CreateBool al H b) object str"

definition cJSON_AddNumberToObject :: "allocator \<Rightarrow> cj_heap \<Rightarrow> ptr \<Rightarrow> ptr \<Rightarrow> decimal_number \<Rightarrow> cj_heap run" where
  "cJSON_AddNumberToObject al H object str n = add_created al (cJSON_CreateNumber al H n) object str"

definition cJSON_AddStringToObject :: "allocator \<Rightarrow> cj_heap \<Rightarrow> ptr \<Rightarrow> ptr \<Rightarrow> ptr \<Rightarrow> cj_heap run" where
  "cJSON_AddStringToObject al H object str s = add_created al (cJSON_CreateString al H s) object str"

section \<open>Duplication\<close>

text \<open>A string of the original, copied into a field of the new item; \<open>False\<close> when there was no memory.\<close>

definition dup_text ::
    "allocator \<Rightarrow> cj_heap \<Rightarrow> ptr \<Rightarrow> ptr \<Rightarrow> (ptr \<Rightarrow> cj_node \<Rightarrow> cj_node) \<Rightarrow> (cj_heap \<times> bool) res" where
  "dup_text al H str newitem field =
     (if str \<noteq> NULL
      then bindR (cj_strdup al H str) (\<lambda>(H, copy).
           bindR (set_item H newitem (field copy)) (\<lambda>H.
           Inr (H, copy \<noteq> NULL)))
      else Inr (H, True))"

text \<open>\<^verbatim>\<open>cJSON_Duplicate\<close> up to the children.\<close>

definition dup_item :: "allocator \<Rightarrow> cj_heap \<Rightarrow> ptr \<Rightarrow> (cj_heap \<times> ptr) run" where
  "dup_item al H item =
     (let (H, newitem) = new_item al H in
      if newitem = NULL then ret (H, NULL)
      else bindO (Some (get_item H item)) (\<lambda>n.
           bindO (Some (set_item H newitem (\<lambda>m. m\<lparr>n_type := n_type n AND NOT cJSON_IsReference,
             n_number := n_number n\<rparr>))) (\<lambda>H.
           bindO (Some (dup_text al H (n_valuestring n) newitem (\<lambda>p. n_valuestring_update (\<lambda>_. p)))) (\<lambda>(H, ok).
           if \<not> ok then bindO (cJSON_Delete H newitem) (\<lambda>H. ret (H, NULL)) else
           bindO (Some (dup_text al H (n_string n) newitem (\<lambda>p. n_string_update (\<lambda>_. p)))) (\<lambda>(H, ok).
           if \<not> ok then bindO (cJSON_Delete H newitem) (\<lambda>H. ret (H, NULL)) else
           ret (H, newitem))))))"

text \<open>
  The loop over the children. Its recursive call is \<^verbatim>\<open>cJSON_Duplicate(cptr,1)\<close>, written out;
  \<open>False\<close> when a copy failed and the new item is deleted.
\<close>

partial_function (option) dup_children ::
    "allocator \<Rightarrow> cj_heap \<Rightarrow> ptr \<Rightarrow> ptr \<Rightarrow> ptr \<Rightarrow> (cj_heap \<times> bool) run" where
  "dup_children al H cptr newitem nptr =
     (if cptr \<noteq> NULL
      then bindO (bindO (dup_item al H cptr) (\<lambda>(H, newchild).
             if newchild = NULL then ret (H, NULL)
             else bindO (Some (get_item H cptr)) (\<lambda>n.
                  bindO (dup_children al H (n_child n) newchild NULL) (\<lambda>(H, ok).
                  ret (H, if ok then newchild else NULL))))) (\<lambda>(H, newchild).
           if newchild = NULL then bindO (cJSON_Delete H newitem) (\<lambda>H. ret (H, False)) else
           bindO (Some (if nptr \<noteq> NULL then suffix_object H nptr newchild
                        else set_item H newitem (n_child_update (\<lambda>_. newchild)))) (\<lambda>H.
           bindO (Some (get_item H cptr)) (\<lambda>n.
           dup_children al H (n_next n) newitem newchild)))
      else ret (H, True))"

definition cJSON_Duplicate :: "allocator \<Rightarrow> cj_heap \<Rightarrow> ptr \<Rightarrow> int \<Rightarrow> (cj_heap \<times> ptr) run" where
  "cJSON_Duplicate al H item recurse =
     (if item = NULL then ret (H, NULL)
      else bindO (dup_item al H item) (\<lambda>(H, newitem).
           if newitem = NULL then ret (H, NULL)
           else if recurse = 0 then ret (H, newitem)
           else bindO (Some (get_item H item)) (\<lambda>n.
                bindO (dup_children al H (n_child n) newitem NULL) (\<lambda>(H, ok).
                ret (H, if ok then newitem else NULL)))))"

lemma dup_children_loop:
  "dup_children al H cptr newitem nptr =
     (if cptr \<noteq> NULL
      then bindO (cJSON_Duplicate al H cptr 1) (\<lambda>(H, newchild).
           if newchild = NULL then bindO (cJSON_Delete H newitem) (\<lambda>H. ret (H, False)) else
           bindO (Some (if nptr \<noteq> NULL then suffix_object H nptr newchild
                        else set_item H newitem (n_child_update (\<lambda>_. newchild)))) (\<lambda>H.
           bindO (Some (get_item H cptr)) (\<lambda>n.
           dup_children al H (n_next n) newitem newchild)))
      else ret (H, True))"
  by (subst dup_children.simps) (simp add: cJSON_Duplicate_def split_def cong: if_cong)

end
