(* ===== verification/CJsonTree.thy ===== *)
theory CJsonTree
  imports CJsonHeap
begin

text \<open>
  What the functions of \<^verbatim>\<open>CJsonHeap\<close> do to a well-formed tree. A ghost tree records the
  address of every item with its owned strings; \<open>row\<close> says that memory holds a chain of
  siblings, \<open>blocks\<close> is what the chain owns. On this view an edit of an array is the list
  operation its name says, and \<^verbatim>\<open>cJSON_Delete\<close> frees what is owned, each block once.
\<close>

section \<open>Ghost trees\<close>

text \<open>
  \<open>JT a ty vs num nm kids\<close>: the item at \<open>a\<close>. \<open>vs\<close> and \<open>nm\<close> are the owned value and name with
  their addresses. A reference owns neither value nor children.
\<close>

datatype jtree = JT
  (jt_addr: ptr)
  (jt_type: int)
  (jt_value: "(ptr \<times> u8 list) option")
  (jt_number: "decimal_number option")
  (jt_name: "(ptr \<times> u8 list) option")
  (jt_kids: "jtree list")

fun abs_tree :: "jtree \<Rightarrow> cjson" where
  "abs_tree (JT a ty vs num nm kids) =
     Item ty (map_option snd vs) num (map_option snd nm) (map abs_tree kids)"

fun text_is :: "cj_heap \<Rightarrow> ptr \<Rightarrow> (ptr \<times> u8 list) option \<Rightarrow> bool" where
  "text_is H p None \<longleftrightarrow> p = NULL"
| "text_is H p (Some (q, s)) \<longleftrightarrow> p = q \<and> q \<noteq> NULL \<and> cells H q = Some (Text s)"

fun text_block :: "(ptr \<times> u8 list) option \<Rightarrow> ptr list" where
  "text_block None = []"
| "text_block (Some (q, s)) = [q]"

text \<open>\<open>row H p c ts e\<close>: the chain \<open>ts\<close> begins at \<open>c\<close>, after the item \<open>p\<close>, and its last \<^verbatim>\<open>next\<close> is \<open>e\<close>.\<close>

fun row :: "cj_heap \<Rightarrow> ptr \<Rightarrow> ptr \<Rightarrow> jtree list \<Rightarrow> ptr \<Rightarrow> bool" where
  "row H p c [] e \<longleftrightarrow> c = e"
| "row H p c (JT a ty vs num nm kids # ts) e \<longleftrightarrow> c = a \<and> a \<noteq> NULL \<and>
     (case cells H a of
        Some (Node n) \<Rightarrow> n_prev n = p \<and> n_type n = ty \<and> n_number n = num \<and> text_is H (n_string n) nm \<and>
          (if ty AND cJSON_IsReference = 0 then text_is H (n_valuestring n) vs \<and> row H NULL (n_child n) kids NULL
           else vs = None \<and> kids = []) \<and>
          row H a (n_next n) ts e
      | _ \<Rightarrow> False)"

fun blocks :: "jtree list \<Rightarrow> ptr list" where
  "blocks [] = []"
| "blocks (JT a ty vs num nm kids # ts) = a # text_block vs @ text_block nm @ blocks kids @ blocks ts"

definition first_of :: "jtree list \<Rightarrow> ptr \<Rightarrow> ptr" where
  "first_of ts e = (case ts of [] \<Rightarrow> e | t # _ \<Rightarrow> jt_addr t)"

definition last_of :: "ptr \<Rightarrow> jtree list \<Rightarrow> ptr" where
  "last_of p ts = (if ts = [] then p else jt_addr (last ts))"

lemma first_of_simps [simp]: "first_of [] e = e" "first_of (t # ts) e = jt_addr t"
  by (simp_all add: first_of_def)

lemma last_of_simps [simp]: "last_of p [] = p" "last_of p (ts @ [t]) = jt_addr t" "last_of p [t] = jt_addr t"
  "last_of p (t # u # ts) = last_of p (u # ts)"
  by (simp_all add: last_of_def)

lemma last_of_Cons: "last_of p (t # ts) = last_of (jt_addr t) ts"
  by (simp add: last_of_def)

lemma blocks_append [simp]: "blocks (ts @ us) = blocks ts @ blocks us"
  by (induction ts rule: blocks.induct) auto

lemma blocks_Cons: "blocks (t # ts) = blocks [t] @ blocks ts"
  by (cases t) simp

lemma addr_in_blocks: "t \<in> set ts \<Longrightarrow> jt_addr t \<in> set (blocks ts)"
  by (induction ts rule: blocks.induct) auto

lemma last_of_in: "ts \<noteq> [] \<Longrightarrow> last_of p ts \<in> set (blocks ts)"
  by (simp add: last_of_def addr_in_blocks)

lemma text_is_cong: "(\<And>q. q \<in> set (text_block x) \<Longrightarrow> cells H' q = cells H q) \<Longrightarrow> text_is H' p x = text_is H p x"
  by (cases "(H, p, x)" rule: text_is.cases) auto

lemma row_cong:
  "(\<And>q. q \<in> set (blocks ts) \<Longrightarrow> cells H' q = cells H q) \<Longrightarrow> row H' p c ts e = row H p c ts e"
proof (induction H p c ts e rule: row.induct)
  case (2 H p c a ty vs num nm kids ts e)
  have "text_is H' q vs = text_is H q vs" "text_is H' q nm = text_is H q nm" for q
    using 2(3) by (auto intro!: text_is_cong)
  moreover have "cells H' a = cells H a" using 2(3) by simp
  ultimately show ?case using 2 by (auto split: option.splits cj_cell.splits)
qed simp

lemma row_frame: "row H p c ts e \<Longrightarrow> (\<And>q. q \<in> set (blocks ts) \<Longrightarrow> cells H' q = cells H q) \<Longrightarrow> row H' p c ts e"
  using row_cong [of ts H' H] by blast

lemma row_first: "row H p c ts e \<Longrightarrow> c = first_of ts e"
  by (cases "(H, p, c, ts, e)" rule: row.cases) auto

lemma row_append:
  "row H p c (us @ vs) e \<longleftrightarrow> row H p c us (first_of vs e) \<and> row H (last_of p us) (first_of vs e) vs e"
proof (induction us arbitrary: p c)
  case Nil
  show ?case using row_first by auto
next
  case (Cons u us)
  show ?case by (cases u) (auto simp: Cons.IH last_of_Cons split: option.splits cj_cell.splits)
qed

lemma row_Cons:
  "row H p c (t # ts) e \<longleftrightarrow> row H p c [t] (first_of ts e) \<and> row H (jt_addr t) (first_of ts e) ts e"
  using row_append [of H p c "[t]" ts e] by simp

lemma row_node:
  assumes "row H p c [t] e"
  obtains n where "c = jt_addr t" "c \<noteq> NULL" "cells H c = Some (Node n)" "n_next n = e" "n_prev n = p" "n_type n = jt_type t"
  using assms by (cases t) (auto split: option.splits cj_cell.splits)

lemma addr_not_NULL: "row H p c ts e \<Longrightarrow> t \<in> set ts \<Longrightarrow> jt_addr t \<noteq> NULL"
proof (induction ts arbitrary: p c)
  case (Cons u us)
  then show ?case by (cases u) (auto split: option.splits cj_cell.splits)
qed simp

lemma last_of_not_NULL: "row H p c ts e \<Longrightarrow> ts \<noteq> [] \<Longrightarrow> last_of q ts \<noteq> NULL"
  by (simp add: last_of_def addr_not_NULL)

text \<open>Changing the links of one item.\<close>

lemma row_one_update:
  assumes "row H p c [t] e" and "distinct (blocks [t])" and "cells H c = Some (Node n)"
    and "\<And>q. q \<in> set (blocks [t]) \<Longrightarrow> q \<noteq> c \<Longrightarrow> cells H' q = cells H q"
    and "cells H' c = Some (Node (n\<lparr>n_next := e', n_prev := p'\<rparr>))"
  shows "row H' p' c [t] e'"
proof (cases t)
  case (JT a ty vs num nm kids)
  have "row H' q d kids x = row H q d kids x" for q d x
    using assms(1,2,4) JT by (intro row_cong) auto
  moreover have "text_is H' q vs = text_is H q vs" "text_is H' q nm = text_is H q nm" for q
    using assms(1,2,4) JT by (auto intro!: text_is_cong)
  ultimately show ?thesis using assms(1,3,5) JT by simp
qed

lemma row_next_update:
  assumes "row H p c us e" and "distinct (blocks us)"
    and "\<And>q. q \<in> set (blocks us) \<Longrightarrow> q \<noteq> last_of NULL us \<Longrightarrow> cells H' q = cells H q"
    and "\<And>n. us \<noteq> [] \<Longrightarrow> cells H (last_of NULL us) = Some (Node n) \<Longrightarrow>
      cells H' (last_of NULL us) = Some (Node (n\<lparr>n_next := e'\<rparr>))"
  shows "row H' p (first_of us e') us e'"
proof (cases us rule: rev_cases)
  case Nil
  then show ?thesis by simp
next
  case (snoc ws u)
  with assms(1) have r: "row H p c ws (jt_addr u)" "row H (last_of p ws) (jt_addr u) [u] e" by (simp_all add: row_append)
  have ne: "jt_addr u \<notin> set (blocks ws)" using assms(2) snoc by (cases u) auto
  have "row H' p c ws (jt_addr u)"
    by (rule row_frame [OF r(1)]) (use assms(3) snoc ne in auto)
  moreover from r(2) obtain n where n: "cells H (jt_addr u) = Some (Node n)" "n_prev n = last_of p ws" by (rule row_node) auto
  have "row H' (last_of p ws) (jt_addr u) [u] e'"
    by (rule row_one_update [OF r(2) _ n(1)]) (use assms(2,3,4) snoc n in auto)
  moreover have "c = first_of us e'" using row_first [OF assms(1)] snoc by (cases ws) auto
  ultimately show ?thesis using snoc by (simp add: row_append)
qed

lemma row_prev_update:
  assumes "row H p c vs e" and "distinct (blocks vs)"
    and "\<And>q. q \<in> set (blocks vs) \<Longrightarrow> q \<noteq> first_of vs NULL \<Longrightarrow> cells H' q = cells H q"
    and "\<And>n. vs \<noteq> [] \<Longrightarrow> cells H (first_of vs NULL) = Some (Node n) \<Longrightarrow>
      cells H' (first_of vs NULL) = Some (Node (n\<lparr>n_prev := p'\<rparr>))"
  shows "row H' p' c vs e"
proof (cases vs)
  case Nil
  with assms(1) show ?thesis by simp
next
  case (Cons v ws)
  from assms(1) have r: "row H p c [v] (first_of ws e)" "row H (jt_addr v) (first_of ws e) ws e"
    unfolding Cons by (blast dest: row_Cons [THEN iffD1])+
  have ne: "jt_addr v \<notin> set (blocks ws)" "distinct (blocks [v])" using assms(2) Cons by (cases v; auto)+
  have sub: "q \<in> set (blocks [v]) \<or> q \<in> set (blocks ws) \<Longrightarrow> q \<in> set (blocks vs)" for q
    using Cons blocks_Cons [of v ws] by auto
  have "row H' (jt_addr v) (first_of ws e) ws e"
  proof (rule row_frame [OF r(2)])
    fix q
    assume "q \<in> set (blocks ws)"
    with ne(1) have "q \<in> set (blocks vs)" "q \<noteq> first_of vs NULL" using Cons sub by auto
    then show "cells H' q = cells H q" by (rule assms(3))
  qed
  moreover from r(1) obtain n where n: "c = jt_addr v" "cells H c = Some (Node n)" "n_next n = first_of ws e" by (rule row_node) auto
  have "row H' p' c [v] (first_of ws e)"
    by (rule row_one_update [OF r(1) ne(2) n(2)]) (use assms(3,4) Cons n sub in auto)
  ultimately show ?thesis unfolding Cons by (blast intro: row_Cons [THEN iffD2])
qed

section \<open>Deleting\<close>

definition drop_cells :: "cj_heap \<Rightarrow> ptr set \<Rightarrow> cj_heap" where
  "drop_cells H A = H\<lparr>cells := cells H |` (- A)\<rparr>"

lemma drop_cells_simps [simp]:
  "drop_cells H {} = H" "drop_cells (drop_cells H A) B = drop_cells H (A \<union> B)"
  "q \<notin> A \<Longrightarrow> cells (drop_cells H A) q = cells H q" "q \<in> A \<Longrightarrow> cells (drop_cells H A) q = None"
proof -
  show "drop_cells H {} = H" by (simp add: drop_cells_def restrict_map_def)
  show "drop_cells (drop_cells H A) B = drop_cells H (A \<union> B)" by (simp add: drop_cells_def)
  show "cells (drop_cells H A) q = cells H q" if "q \<notin> A" using that by (simp add: drop_cells_def)
  show "cells (drop_cells H A) q = None" if "q \<in> A" using that by (simp add: drop_cells_def)
qed

lemma get_item_Node [simp]: "cells H p = Some (Node n) \<Longrightarrow> get_item H p = Inr n"
  by (simp add: get_item_def)

lemma set_item_Node [simp]:
  "cells H p = Some (Node n) \<Longrightarrow> set_item H p f = Inr (H\<lparr>cells := (cells H)(p \<mapsto> Node (f n))\<rparr>)"
  by (simp add: set_item_def)

lemma cj_free_ok [simp]:
  "cells H p = Some (Node n) \<Longrightarrow> cj_free H p = Inr (drop_cells H {p})"
  "cells H p = Some (Text s) \<Longrightarrow> cj_free H p = Inr (drop_cells H {p})"
  by (simp_all add: cj_free_def drop_cells_def restrict_complement_singleton_eq)

lemma release_item_ok:
  assumes "cells H c = Some (Node n)" and "text_is H (n_string n) nm"
    and "if n_type n AND cJSON_IsReference = 0 then text_is H (n_valuestring n) vs else vs = None"
    and "distinct (c # text_block vs @ text_block nm)"
  shows "release_item H c = Inr (drop_cells H (set (c # text_block vs @ text_block nm)))"
proof -
  let ?H = "drop_cells H (set (text_block vs))"
  have "(if n_type n AND cJSON_IsReference = 0 \<and> n_valuestring n \<noteq> NULL then cj_free H (n_valuestring n) else Inr H) = Inr ?H"
    using assms(3) by (cases "(H, n_valuestring n, vs)" rule: text_is.cases) (auto split: if_splits)
  moreover have "cells ?H c = Some (Node n)" using assms(1,4) by simp
  moreover have "(if n_string n \<noteq> NULL then cj_free ?H (n_string n) else Inr ?H) = Inr (drop_cells ?H (set (text_block nm)))"
    using assms(2,4) by (cases "(H, n_string n, nm)" rule: text_is.cases) auto
  moreover have "cells (drop_cells ?H (set (text_block nm))) c = Some (Node n)" using assms(1,4) by simp
  ultimately show ?thesis using assms(1) by (simp add: release_item_def insert_commute Un_commute)
qed

lemma row_NULL: "row H p NULL ts NULL \<Longrightarrow> ts = []"
  using row_first addr_not_NULL by (cases ts) fastforce+

lemma delete_row:
  "row H p c ts NULL \<Longrightarrow> distinct (blocks ts) \<Longrightarrow> cJSON_Delete H c = ret (drop_cells H (set (blocks ts)))"
proof (induction ts arbitrary: H p c rule: blocks.induct)
  case 1
  then show ?case by (simp add: cJSON_Delete.simps)
next
  case (2 a ty vs num nm kids ts)
  from 2(3) obtain n where n: "c = a" "a \<noteq> NULL" "cells H a = Some (Node n)" "n_type n = ty" "text_is H (n_string n) nm"
    "if ty AND cJSON_IsReference = 0 then text_is H (n_valuestring n) vs \<and> row H NULL (n_child n) kids NULL
     else vs = None \<and> kids = []" "row H a (n_next n) ts NULL"
    by (auto split: option.splits cj_cell.splits)
  let ?K = "drop_cells H (set (blocks kids))"
  have "(if n_type n AND cJSON_IsReference = 0 \<and> n_child n \<noteq> NULL then cJSON_Delete H (n_child n) else ret H) = ret ?K"
    using n(4,6) 2(1)[of H NULL "n_child n"] 2(4) row_NULL [of H NULL kids] by (auto split: if_splits)
  moreover have "release_item ?K a = Inr (drop_cells ?K (set (a # text_block vs @ text_block nm)))"
  proof (rule release_item_ok)
    show "cells ?K a = Some (Node n)" using n(3) 2(4) by simp
    have "text_is ?K q vs = text_is H q vs" "text_is ?K q nm = text_is H q nm" for q
      using 2(4) by (auto intro!: text_is_cong drop_cells_simps(3))
    then show "text_is ?K (n_string n) nm"
      "if n_type n AND cJSON_IsReference = 0 then text_is ?K (n_valuestring n) vs else vs = None"
      using n(4,5,6) by (simp_all split: if_splits)
    show "distinct (a # text_block vs @ text_block nm)" using 2(4) by auto
  qed
  moreover have "row (drop_cells ?K (set (a # text_block vs @ text_block nm))) a (n_next n) ts NULL"
    by (rule row_frame [OF n(7)]) (use 2(4) in \<open>auto intro!: drop_cells_simps(3)\<close>)
  note 2(2) [OF this]
  ultimately show ?case
    using n(1,2,3) 2(4) by (subst cJSON_Delete.simps) (simp add: Un_ac insert_commute)
qed

section \<open>Walking\<close>

lemma nth_walk_row: "row H p c ts NULL \<Longrightarrow> nth_walk H c which = ret (first_of (drop (nat which) ts) NULL)"
proof (induction ts arbitrary: p c which)
  case Nil
  then show ?case by (simp add: nth_walk.simps)
next
  case (Cons t ts)
  from row_Cons [THEN iffD1, OF Cons.prems] have r: "row H p c [t] (first_of ts NULL)" "row H (jt_addr t) (first_of ts NULL) ts NULL"
    by blast+
  from r(1) obtain n where n: "c = jt_addr t" "c \<noteq> NULL" "cells H c = Some (Node n)" "n_next n = first_of ts NULL" by (rule row_node)
  show ?case
  proof (cases "which > 0")
    case True
    then have "drop (nat which) (t # ts) = drop (nat (which - 1)) ts" by (cases "nat which") (auto simp: nat_diff_distrib)
    with True n Cons.IH [OF r(2)] show ?thesis by (subst nth_walk.simps) simp
  next
    case False
    with n(1) show ?thesis by (subst nth_walk.simps) simp
  qed
qed

lemma last_walk_row: "row H p c ts NULL \<Longrightarrow> ts \<noteq> [] \<Longrightarrow> last_walk H c = ret (last_of p ts)"
proof (induction ts arbitrary: p c)
  case (Cons t ts)
  from row_Cons [THEN iffD1, OF Cons.prems(1)] have r: "row H p c [t] (first_of ts NULL)" "row H (jt_addr t) (first_of ts NULL) ts NULL"
    by blast+
  from r(1) obtain n where n: "c = jt_addr t" "c \<noteq> NULL" "cells H c = Some (Node n)" "n_next n = first_of ts NULL" by (rule row_node)
  show ?case
  proof (cases ts)
    case Nil
    with n show ?thesis by (subst last_walk.simps) (simp add: last_of_def)
  next
    case (Cons u us)
    with r(2) have "first_of ts NULL \<noteq> NULL" using addr_not_NULL [OF r(2), of u] by simp
    with n Cons.IH [OF r(2)] Cons show ?thesis by (subst last_walk.simps) (simp add: last_of_Cons)
  qed
qed simp

lemma size_walk_row:
  "row H p c ts NULL \<Longrightarrow> 0 \<le> i \<Longrightarrow> i + int (length ts) \<le> INT_MAX \<Longrightarrow> size_walk H c i = ret (i + int (length ts))"
proof (induction ts arbitrary: p c i)
  case Nil
  then show ?case by (simp add: size_walk.simps)
next
  case (Cons t ts)
  from row_Cons [THEN iffD1, OF Cons.prems(1)] have r: "row H p c [t] (first_of ts NULL)" "row H (jt_addr t) (first_of ts NULL) ts NULL"
    by blast+
  from r(1) obtain n where n: "c \<noteq> NULL" "cells H c = Some (Node n)" "n_next n = first_of ts NULL" by (rule row_node)
  have "to_int (i + 1) = Inr (i + 1)" using Cons.prems(2,3) by (intro to_int_in_range) (auto simp: INT_MIN_def)
  with n Cons.IH [OF r(2), of "i + 1"] Cons.prems(2,3) show ?case by (subst size_walk.simps) (simp add: algebra_simps)
qed

section \<open>Editing the children of an item\<close>

text \<open>The item at \<open>a\<close> has the children \<open>ts\<close>.\<close>

definition items :: "cj_heap \<Rightarrow> ptr \<Rightarrow> jtree list \<Rightarrow> bool" where
  "items H a ts \<longleftrightarrow> a \<noteq> NULL \<and> distinct (a # blocks ts) \<and>
     (\<exists>n. cells H a = Some (Node n) \<and> row H NULL (n_child n) ts NULL)"

text \<open>The item at \<open>c\<close> is on no list.\<close>

definition detached :: "cj_heap \<Rightarrow> ptr \<Rightarrow> jtree \<Rightarrow> bool" where
  "detached H c t \<longleftrightarrow> row H NULL c [t] NULL \<and> distinct (blocks [t])"

text \<open>
  From \<open>H\<close> to \<open>H'\<close> the children of \<open>a\<close> went from \<open>ts\<close> to \<open>ts'\<close>: of the item itself only
  \<^verbatim>\<open>child\<close> changed, and nothing else but blocks of the two lists.
\<close>

definition edited :: "cj_heap \<Rightarrow> cj_heap \<Rightarrow> ptr \<Rightarrow> jtree list \<Rightarrow> jtree list \<Rightarrow> bool" where
  "edited H H' a ts ts' \<longleftrightarrow> items H' a ts' \<and>
     (\<exists>n x. cells H a = Some (Node n) \<and> cells H' a = Some (Node (n\<lparr>n_child := x\<rparr>))) \<and>
     (\<forall>q. q \<notin> set (a # blocks ts @ blocks ts') \<longrightarrow> cells H' q = cells H q)"

lemma detached_addr: "detached H c t \<Longrightarrow> c = jt_addr t \<and> c \<noteq> NULL"
  by (auto simp: detached_def elim: row_node)

lemma set_item_run:
  "cells H p = Some (Node n) \<Longrightarrow> set_item H p f = Inr H' \<longleftrightarrow> H' = H\<lparr>cells := (cells H)(p \<mapsto> Node (f n))\<rparr>"
  by auto

lemma unlink_run:
  assumes "cells H c = Some (Node nt)" and "n_prev nt = l" and "n_next nt = r"
    and "l \<noteq> NULL \<Longrightarrow> cells H l = Some (Node nl)" and "r \<noteq> NULL \<Longrightarrow> cells H r = Some (Node nr)"
    and "cells H a = Some (Node na)" and "n_child na = c \<longleftrightarrow> l = NULL"
    and "c \<noteq> l" "c \<noteq> r" "c \<noteq> a" "a \<noteq> l" "a \<noteq> r" "l \<noteq> NULL \<Longrightarrow> r \<noteq> l"
  shows "unlink_item H a c = Inr (H\<lparr>cells := (\<lambda>q.
    if q = c then Some (Node (nt\<lparr>n_next := NULL, n_prev := NULL\<rparr>))
    else if q = a \<and> l = NULL then Some (Node (na\<lparr>n_child := r\<rparr>))
    else if q = l \<and> l \<noteq> NULL then Some (Node (nl\<lparr>n_next := r\<rparr>))
    else if q = r \<and> r \<noteq> NULL then Some (Node (nr\<lparr>n_prev := l\<rparr>))
    else cells H q)\<rparr>)"
proof -
  have eq: "H\<lparr>cells := f\<rparr> = H\<lparr>cells := g\<rparr>" if "\<And>q. f q = g q" for f g
    using that by (simp add: fun_eq_iff)
  show ?thesis
    using assms by (cases "l = NULL"; cases "r = NULL") (auto simp: unlink_item_def intro!: eq)
qed

text \<open>The neighbours of an item in the chain.\<close>

lemma items_split:
  assumes "items H a (us @ t # vs)"
  obtains nt nl nr na where "cells H (jt_addr t) = Some (Node nt)" "n_prev nt = last_of NULL us" "n_next nt = first_of vs NULL"
    "us \<noteq> [] \<Longrightarrow> cells H (last_of NULL us) = Some (Node nl)" "vs \<noteq> [] \<Longrightarrow> cells H (first_of vs NULL) = Some (Node nr)"
    "cells H a = Some (Node na)" "n_child na = first_of (us @ t # vs) NULL"
    "row H NULL (n_child na) us (jt_addr t)" "row H (last_of NULL us) (jt_addr t) [t] (first_of vs NULL)"
    "row H (jt_addr t) (first_of vs NULL) vs NULL"
proof -
  from assms obtain na where na: "cells H a = Some (Node na)" "row H NULL (n_child na) (us @ t # vs) NULL"
    by (auto simp: items_def)
  from na(2) have u: "row H NULL (n_child na) us (jt_addr t)" and tv: "row H (last_of NULL us) (jt_addr t) (t # vs) NULL"
    by (simp_all add: row_append)
  from row_Cons [THEN iffD1, OF tv] have t: "row H (last_of NULL us) (jt_addr t) [t] (first_of vs NULL)"
    and v: "row H (jt_addr t) (first_of vs NULL) vs NULL" by blast+
  have ul: "\<exists>nl. cells H (last_of NULL us) = Some (Node nl)" if "us \<noteq> []"
  proof -
    from that obtain ws w where "us = ws @ [w]" by (cases us rule: rev_cases) auto
    with u have "row H (last_of NULL ws) (jt_addr w) [w] (jt_addr t)" by (simp add: row_append)
    with \<open>us = ws @ [w]\<close> show ?thesis by (auto elim: row_node)
  qed
  have vr: "\<exists>nr. cells H (first_of vs NULL) = Some (Node nr)" if "vs \<noteq> []"
  proof -
    from that obtain w ws where vs: "vs = w # ws" by (cases vs) auto
    with v row_Cons have "row H (jt_addr t) (jt_addr w) [w] (first_of ws NULL)" by (metis first_of_simps(2))
    with vs show ?thesis by (auto elim: row_node)
  qed
  from t obtain nt where "cells H (jt_addr t) = Some (Node nt)" "n_prev nt = last_of NULL us" "n_next nt = first_of vs NULL"
    by (rule row_node)
  with ul vr na u t v row_first [OF na(2)] that show thesis by blast
qed

lemma items_fresh:
  assumes "items H a (us @ t # vs)"
  shows "jt_addr t \<noteq> last_of NULL us" "jt_addr t \<noteq> first_of vs NULL" "jt_addr t \<noteq> a"
    "a \<noteq> last_of NULL us" "a \<noteq> first_of vs NULL" "last_of NULL us \<noteq> NULL \<Longrightarrow> first_of vs NULL \<noteq> last_of NULL us"
    "last_of NULL us = NULL \<longleftrightarrow> us = []" "first_of vs NULL = NULL \<longleftrightarrow> vs = []"
    "first_of (us @ t # vs) NULL = jt_addr t \<longleftrightarrow> us = []" "jt_addr t \<noteq> NULL"
proof -
  from assms obtain na :: cj_node where na: "row H NULL (n_child na) (us @ t # vs) NULL" and d: "a \<noteq> NULL" "distinct (a # blocks (us @ t # vs))"
    unfolding items_def by blast
  note nn = addr_not_NULL [OF na]
  have b: "jt_addr t \<in> set (blocks [t])" "set (blocks (t # vs)) = set (blocks [t]) \<union> set (blocks vs)"
    "distinct (blocks [t] @ blocks vs)"
    using d(2) blocks_Cons [of t vs] by (auto intro: addr_in_blocks)
  have u: "us \<noteq> [] \<Longrightarrow> last_of NULL us \<in> set (blocks us) \<and> last_of NULL us \<noteq> NULL"
    using last_of_in [of us NULL] nn by (simp add: last_of_def)
  have v: "vs \<noteq> [] \<Longrightarrow> first_of vs NULL \<in> set (blocks vs) \<and> first_of vs NULL \<noteq> NULL"
    using nn by (cases vs) (auto intro: addr_in_blocks)
  have f: "us \<noteq> [] \<Longrightarrow> first_of (us @ t # vs) NULL \<in> set (blocks us)"
    by (cases us) (auto intro: addr_in_blocks)
  show "last_of NULL us = NULL \<longleftrightarrow> us = []" "first_of vs NULL = NULL \<longleftrightarrow> vs = []" "jt_addr t \<noteq> NULL"
    using u v nn by (cases "us = []"; cases "vs = []"; simp)+
  show "jt_addr t \<noteq> last_of NULL us" "jt_addr t \<noteq> first_of vs NULL" "jt_addr t \<noteq> a" "a \<noteq> last_of NULL us"
    "a \<noteq> first_of vs NULL" "last_of NULL us \<noteq> NULL \<Longrightarrow> first_of vs NULL \<noteq> last_of NULL us"
    using u v b d nn by (cases "us = []"; cases "vs = []"; auto)+
  show "first_of (us @ t # vs) NULL = jt_addr t \<longleftrightarrow> us = []"
    using f b d(2) by (cases "us = []") auto
qed

lemma blocks_mid: "set (blocks (us @ t # vs)) = set (blocks us) \<union> set (blocks [t]) \<union> set (blocks vs)"
  using blocks_Cons [of t vs] by auto

lemma items_distinct:
  assumes "items H a (us @ t # vs)"
  shows "distinct (blocks us)" "distinct (blocks [t])" "distinct (blocks vs)" "a \<notin> set (blocks us)" "a \<notin> set (blocks [t])"
    "a \<notin> set (blocks vs)" "set (blocks us) \<inter> set (blocks vs) = {}" "set (blocks [t]) \<inter> set (blocks us) = {}"
    "set (blocks [t]) \<inter> set (blocks vs) = {}" "a \<noteq> NULL"
  using assms blocks_Cons [of t vs] by (auto simp: items_def)

lemma unlink_item_law:
  assumes "items H a (us @ t # vs)"
  shows "\<exists>H'. unlink_item H a (jt_addr t) = Inr H' \<and> edited H H' a (us @ t # vs) (us @ vs) \<and> detached H' (jt_addr t) t"
proof -
  let ?l = "last_of NULL us" and ?r = "first_of vs NULL" and ?c = "jt_addr t"
  obtain nt nl nr na where n: "cells H ?c = Some (Node nt)" "n_prev nt = ?l" "n_next nt = ?r"
    "us \<noteq> [] \<Longrightarrow> cells H ?l = Some (Node nl)" "vs \<noteq> [] \<Longrightarrow> cells H ?r = Some (Node nr)"
    "cells H a = Some (Node na)" "n_child na = first_of (us @ t # vs) NULL"
    "row H NULL (n_child na) us ?c" "row H ?l ?c [t] ?r" "row H ?c ?r vs NULL"
    using items_split [OF assms] by blast
  note f = items_fresh [OF assms]
  define H' where "H' = H\<lparr>cells := (\<lambda>q.
    if q = ?c then Some (Node (nt\<lparr>n_next := NULL, n_prev := NULL\<rparr>))
    else if q = a \<and> ?l = NULL then Some (Node (na\<lparr>n_child := ?r\<rparr>))
    else if q = ?l \<and> ?l \<noteq> NULL then Some (Node (nl\<lparr>n_next := ?r\<rparr>))
    else if q = ?r \<and> ?r \<noteq> NULL then Some (Node (nr\<lparr>n_prev := ?l\<rparr>))
    else cells H q)\<rparr>"
  have run: "unlink_item H a ?c = Inr H'"
    unfolding H'_def by (rule unlink_run [OF n(1-3)]) (use n f in auto)
  note d = items_distinct [OF assms]
  have i: "us \<noteq> [] \<Longrightarrow> ?l \<in> set (blocks us)" "vs \<noteq> [] \<Longrightarrow> ?r \<in> set (blocks vs)" "?c \<in> set (blocks [t])"
    by (cases vs; auto intro: last_of_in addr_in_blocks)+
  have c: "cells H' ?c = Some (Node (nt\<lparr>n_next := NULL, n_prev := NULL\<rparr>))"
    "us \<noteq> [] \<Longrightarrow> cells H' ?l = Some (Node (nl\<lparr>n_next := ?r\<rparr>))"
    "vs \<noteq> [] \<Longrightarrow> cells H' ?r = Some (Node (nr\<lparr>n_prev := ?l\<rparr>))"
    using f by (auto simp: H'_def)
  have same: "cells H' q = cells H q" if "q \<noteq> ?c" "q \<noteq> a" "us \<noteq> [] \<longrightarrow> q \<noteq> ?l" "vs \<noteq> [] \<longrightarrow> q \<noteq> ?r" for q
    using that f(7,8) by (auto simp: H'_def)
  have s: "cells H' q = cells H q" if "q \<in> set (blocks us) \<and> q \<noteq> ?l \<or> q \<in> set (blocks vs) \<and> q \<noteq> ?r \<or>
      q \<in> set (blocks [t]) \<and> q \<noteq> ?c" for q
    by (rule same) (use that i d in blast)+
  have ru: "row H' NULL (first_of us ?r) us ?r"
    by (rule row_next_update [OF n(8) d(1)]) (use s c(2) n(4) in auto)
  have rv: "row H' ?l ?r vs NULL"
    by (rule row_prev_update [OF n(10) d(3)]) (use s c(3) n(5) in auto)
  have rt: "row H' NULL ?c [t] NULL"
    by (rule row_one_update [OF n(9) d(2) n(1)]) (use s c(1) in auto)
  obtain x where x: "cells H' a = Some (Node (na\<lparr>n_child := x\<rparr>))" "x = first_of (us @ vs) NULL"
  proof -
    have "cells H' a = Some (Node (na\<lparr>n_child := (if us = [] then ?r else n_child na)\<rparr>))"
      using f by (simp add: H'_def n(6))
    moreover have "(if us = [] then ?r else n_child na) = first_of (us @ vs) NULL"
      using n(7) by (cases us) auto
    ultimately show thesis using that by simp
  qed
  have "first_of us ?r = first_of (us @ vs) NULL" by (cases us) auto
  then have "row H' NULL x (us @ vs) NULL" using ru rv x(2) by (simp add: row_append)
  then have "items H' a (us @ vs)" using x(1) d by (auto simp: items_def)
  moreover have "cells H' q = cells H q" if "q \<notin> set (a # blocks (us @ t # vs) @ blocks (us @ vs))" for q
    by (rule same) (use that i in \<open>auto simp: blocks_mid simp del: blocks_append\<close>)
  ultimately show ?thesis using run rt d(2) n(6) x(1) unfolding edited_def detached_def by blast
qed

lemma relink_run:
  assumes "cells H c = Some (Node nt)" and "n_prev nt = l" and "n_next nt = r"
    and "l \<noteq> NULL \<Longrightarrow> cells H l = Some (Node nl)" and "r \<noteq> NULL \<Longrightarrow> cells H r = Some (Node nr)"
    and "cells H a = Some (Node na)" and "n_child na = c \<longleftrightarrow> l = NULL" and "cells H w = Some (Node nw)"
    and "c \<noteq> l" "c \<noteq> r" "c \<noteq> a" "a \<noteq> l" "a \<noteq> r" "l \<noteq> NULL \<Longrightarrow> r \<noteq> l"
    and "w \<noteq> c" "w \<noteq> l" "w \<noteq> r" "w \<noteq> a"
  shows "relink_item H a c w = Inr (H\<lparr>cells := (\<lambda>q.
    if q = c then Some (Node (nt\<lparr>n_next := NULL, n_prev := NULL\<rparr>))
    else if q = w then Some (Node (nw\<lparr>n_next := r, n_prev := l\<rparr>))
    else if q = a \<and> l = NULL then Some (Node (na\<lparr>n_child := w\<rparr>))
    else if q = l \<and> l \<noteq> NULL then Some (Node (nl\<lparr>n_next := w\<rparr>))
    else if q = r \<and> r \<noteq> NULL then Some (Node (nr\<lparr>n_prev := w\<rparr>))
    else cells H q)\<rparr>)"
proof -
  have eq: "H\<lparr>cells := f\<rparr> = H\<lparr>cells := g\<rparr>" if "\<And>q. f q = g q" for f g
    using that by (simp add: fun_eq_iff)
  note ne = assms(9-18) assms(9-18) [symmetric]
  show ?thesis
    using assms(1-8) ne by (cases "l = NULL"; cases "r = NULL") (auto simp: relink_item_def intro!: eq)
qed

lemma relink_item_law:
  assumes "items H a (us @ t # vs)" and "detached H w t'" and "set (blocks [t']) \<inter> set (a # blocks (us @ t # vs)) = {}"
  shows "\<exists>H'. relink_item H a (jt_addr t) w = Inr H' \<and> edited H H' a (us @ t # vs) (us @ t' # vs) \<and>
    detached H' (jt_addr t) t"
proof -
  let ?l = "last_of NULL us" and ?r = "first_of vs NULL" and ?c = "jt_addr t"
  obtain nt nl nr na where n: "cells H ?c = Some (Node nt)" "n_prev nt = ?l" "n_next nt = ?r"
    "us \<noteq> [] \<Longrightarrow> cells H ?l = Some (Node nl)" "vs \<noteq> [] \<Longrightarrow> cells H ?r = Some (Node nr)"
    "cells H a = Some (Node na)" "n_child na = first_of (us @ t # vs) NULL"
    "row H NULL (n_child na) us ?c" "row H ?l ?c [t] ?r" "row H ?c ?r vs NULL"
    using items_split [OF assms(1)] by blast
  from assms(2) have w: "row H NULL w [t'] NULL" "distinct (blocks [t'])" "w = jt_addr t'" "w \<noteq> NULL"
    using detached_addr by (auto simp: detached_def)
  from w(1) obtain nw where nw: "cells H w = Some (Node nw)" by (rule row_node)
  note f = items_fresh [OF assms(1)]
  note d = items_distinct [OF assms(1)]
  have i: "us \<noteq> [] \<Longrightarrow> ?l \<in> set (blocks us)" "vs \<noteq> [] \<Longrightarrow> ?r \<in> set (blocks vs)" "?c \<in> set (blocks [t])" "w \<in> set (blocks [t'])"
    unfolding w(3) by (cases vs; auto intro: last_of_in addr_in_blocks)+
  have b: "a \<notin> set (blocks [t'])" "set (blocks [t']) \<inter> set (blocks us) = {}" "set (blocks [t']) \<inter> set (blocks vs) = {}"
    "set (blocks [t']) \<inter> set (blocks [t]) = {}"
    using assms(3) by (auto simp: blocks_mid simp del: blocks_append)
  have g: "w \<noteq> ?c" "w \<noteq> ?l" "w \<noteq> ?r" "w \<noteq> a"
    using i b w(4) by (cases "us = []"; cases "vs = []"; auto)+
  define H' where "H' = H\<lparr>cells := (\<lambda>q.
    if q = ?c then Some (Node (nt\<lparr>n_next := NULL, n_prev := NULL\<rparr>))
    else if q = w then Some (Node (nw\<lparr>n_next := ?r, n_prev := ?l\<rparr>))
    else if q = a \<and> ?l = NULL then Some (Node (na\<lparr>n_child := w\<rparr>))
    else if q = ?l \<and> ?l \<noteq> NULL then Some (Node (nl\<lparr>n_next := w\<rparr>))
    else if q = ?r \<and> ?r \<noteq> NULL then Some (Node (nr\<lparr>n_prev := w\<rparr>))
    else cells H q)\<rparr>"
  have run: "relink_item H a ?c w = Inr H'"
    unfolding H'_def by (rule relink_run [OF n(1-3)]) (use n f g nw in auto)
  have c: "cells H' ?c = Some (Node (nt\<lparr>n_next := NULL, n_prev := NULL\<rparr>))"
    "cells H' w = Some (Node (nw\<lparr>n_next := ?r, n_prev := ?l\<rparr>))"
    "us \<noteq> [] \<Longrightarrow> cells H' ?l = Some (Node (nl\<lparr>n_next := w\<rparr>))"
    "vs \<noteq> [] \<Longrightarrow> cells H' ?r = Some (Node (nr\<lparr>n_prev := w\<rparr>))"
    and child: "cells H' a = Some (Node (na\<lparr>n_child := (if us = [] then w else n_child na)\<rparr>))"
    using f g n(6) by (auto simp: H'_def)
  have same: "cells H' q = cells H q" if "q \<noteq> ?c" "q \<noteq> w" "q \<noteq> a" "us \<noteq> [] \<longrightarrow> q \<noteq> ?l" "vs \<noteq> [] \<longrightarrow> q \<noteq> ?r" for q
    using that f(7,8) by (auto simp: H'_def)
  have s: "cells H' q = cells H q" if "q \<in> set (blocks us) \<and> q \<noteq> ?l \<or> q \<in> set (blocks vs) \<and> q \<noteq> ?r \<or>
      q \<in> set (blocks [t]) \<and> q \<noteq> ?c \<or> q \<in> set (blocks [t']) \<and> q \<noteq> w" for q
    by (rule same) (use that i b d in blast)+
  have ru: "row H' NULL (first_of us w) us w"
    by (rule row_next_update [OF n(8) d(1)]) (use s c(3) n(4) in auto)
  have rv: "row H' w ?r vs NULL"
    by (rule row_prev_update [OF n(10) d(3)]) (use s c(4) n(5) in auto)
  have rw: "row H' ?l w [t'] ?r"
    by (rule row_one_update [OF w(1,2) nw]) (use s c(2) in auto)
  have rt: "row H' NULL ?c [t] NULL"
    by (rule row_one_update [OF n(9) d(2) n(1)]) (use s c(1) in auto)
  have "(if us = [] then w else n_child na) = first_of us w"
    using n(7) by (cases us) auto
  moreover have "row H' NULL (first_of us w) (us @ t' # vs) NULL"
    using ru rw rv row_Cons [of H' ?l w t' vs NULL] w(3) by (simp add: row_append)
  ultimately have "items H' a (us @ t' # vs)"
    using child d b w(2) blocks_Cons [of t' vs] by (auto simp: items_def)
  moreover have "cells H' q = cells H q" if "q \<notin> set (a # blocks (us @ t # vs) @ blocks (us @ t' # vs))" for q
    by (rule same) (use that i in \<open>auto simp: blocks_mid simp del: blocks_append\<close>)
  ultimately show ?thesis using run rt d(2) n(6) child unfolding edited_def detached_def by blast
qed

text \<open>Appending, when the last child is known.\<close>

lemma link_law:
  assumes "items H a ts" and "detached H w t" and "set (blocks [t]) \<inter> set (a # blocks ts) = {}"
  shows "\<exists>H'. (if last_of NULL ts \<noteq> NULL then suffix_object H (last_of NULL ts) w
      else set_item H a (n_child_update (\<lambda>_. w))) = Inr H' \<and> edited H H' a ts (ts @ [t])"
proof -
  from assms(1) obtain na where na: "cells H a = Some (Node na)" "row H NULL (n_child na) ts NULL"
    and d: "a \<noteq> NULL" "distinct (blocks ts)" "a \<notin> set (blocks ts)"
    by (auto simp: items_def)
  from assms(2) have w: "row H NULL w [t] NULL" "distinct (blocks [t])" "w = jt_addr t" "w \<noteq> NULL"
    using detached_addr by (auto simp: detached_def)
  from w(1) obtain nw where nw: "cells H w = Some (Node nw)" "n_next nw = NULL" "n_prev nw = NULL" by (rule row_node)
  have wb: "w \<in> set (blocks [t])" unfolding w(3) by (simp add: addr_in_blocks)
  show ?thesis
  proof (cases "ts = []")
    case True
    define H' where "H' = H\<lparr>cells := (cells H)(a \<mapsto> Node (na\<lparr>n_child := w\<rparr>))\<rparr>"
    have "row H' NULL w [t] NULL"
      by (rule row_frame [OF w(1)]) (use assms(3) in \<open>auto simp: H'_def\<close>)
    then show ?thesis using True d w(2) assms(3) na(1) by (auto simp: edited_def items_def H'_def)
  next
    case False
    let ?l = "last_of NULL ts"
    have l: "?l \<in> set (blocks ts)" "?l \<noteq> NULL" by (rule last_of_in [OF False], rule last_of_not_NULL [OF na(2) False])
    have "\<exists>nl. cells H ?l = Some (Node nl)"
      using na(2) False by (cases ts rule: rev_cases) (auto simp: row_append elim: row_node)
    then obtain nl where nl: "cells H ?l = Some (Node nl)" ..
    have ne: "w \<noteq> ?l" "?l \<noteq> w" "w \<noteq> a" "a \<noteq> w" "?l \<noteq> a" "a \<noteq> ?l" using assms(3) wb l(1) d(3) by auto
    define H' where "H' = H\<lparr>cells := (cells H)(?l \<mapsto> Node (nl\<lparr>n_next := w\<rparr>), w \<mapsto> Node (nw\<lparr>n_prev := ?l\<rparr>))\<rparr>"
    have run: "suffix_object H ?l w = Inr H'"
      using nl nw ne by (simp add: suffix_object_def H'_def)
    have rt: "row H' ?l w [t] NULL"
      by (rule row_one_update [OF w(1,2) nw(1)]) (use assms(3) ne nw l in \<open>auto simp: H'_def\<close>)
    have rl: "row H' NULL (first_of ts w) ts w"
      by (rule row_next_update [OF na(2) d(2)]) (use assms(3) ne nl wb in \<open>auto simp: H'_def\<close>)
    have "first_of ts w = n_child na" using row_first [OF na(2)] False by (cases ts) auto
    then have "row H' NULL (n_child na) (ts @ [t]) NULL" using rl rt w(3) by (simp add: row_append)
    moreover have child: "cells H' a = Some (Node (na\<lparr>n_child := n_child na\<rparr>))" using na(1) ne by (simp add: H'_def)
    have frame: "cells H' q = cells H q" if "q \<notin> set (a # blocks ts @ blocks (ts @ [t]))" for q
      using that l wb by (auto simp: H'_def)
    moreover have "distinct (a # blocks (ts @ [t]))" using d w(2) assms(3) by auto
    ultimately have "items H' a (ts @ [t])" using d(1) child by (simp add: items_def)
    with child frame na(1) have "edited H H' a ts (ts @ [t])" unfolding edited_def by blast
    with run l(2) show ?thesis by auto
  qed
qed

lemma add_item_law:
  assumes "items H a ts" and "detached H w t" and "set (blocks [t]) \<inter> set (a # blocks ts) = {}"
  shows "\<exists>H'. cJSON_AddItemToArray H a w = ret H' \<and> edited H H' a ts (ts @ [t])"
proof -
  from assms(1) obtain na where na: "cells H a = Some (Node na)" "row H NULL (n_child na) ts NULL" by (auto simp: items_def)
  have w: "w \<noteq> NULL" using detached_addr [OF assms(2)] by simp
  have "n_child na = NULL \<longleftrightarrow> ts = []" using na(2) row_NULL by auto
  moreover have "last_of NULL ts = NULL \<longleftrightarrow> ts = []" using last_of_not_NULL [OF na(2), of NULL] by (cases "ts = []") auto
  ultimately have "cJSON_AddItemToArray H a w = Some (if last_of NULL ts \<noteq> NULL then suffix_object H (last_of NULL ts) w
      else set_item H a (n_child_update (\<lambda>_. w)))"
    using na last_walk_row [OF na(2)] w by (auto simp: cJSON_AddItemToArray_def)
  with link_law [OF assms] show ?thesis by auto
qed

lemma items_frame:
  "items H a ts \<Longrightarrow> (\<And>q. q \<in> set (a # blocks ts) \<Longrightarrow> cells H' q = cells H q) \<Longrightarrow> items H' a ts"
  unfolding items_def by (fastforce intro: row_frame)

lemma edited_drop:
  assumes "edited H H' a ts ts'" and "B \<subseteq> set (blocks ts)" and "B \<inter> set (a # blocks ts') = {}"
  shows "edited H (drop_cells H' B) a ts ts'"
proof -
  have "items (drop_cells H' B) a ts'"
    by (rule items_frame [of H']) (use assms(1,3) in \<open>auto simp: edited_def intro!: drop_cells_simps(3)\<close>)
  moreover have "cells (drop_cells H' B) a = cells H' a" using assms(3) by (auto intro!: drop_cells_simps(3))
  moreover have "cells (drop_cells H' B) q = cells H q" if "q \<notin> set (a # blocks ts @ blocks ts')" for q
    using that assms(1,2) by (subst drop_cells_simps(3)) (auto simp: edited_def)
  ultimately show ?thesis using assms(1) unfolding edited_def by simp
qed

lemma items_nth_walk:
  assumes "items H a ts"
  shows "\<exists>n. get_item H a = Inr n \<and> nth_walk H (n_child n) which = ret (first_of (drop (nat which) ts) NULL)"
  using assms nth_walk_row by (auto simp: items_def)

lemma nth_split: "k < length ts \<Longrightarrow> ts = take k ts @ ts ! k # drop (Suc k) ts"
  by (simp add: id_take_nth_drop)

lemma items_addr: "items H a ts \<Longrightarrow> t \<in> set ts \<Longrightarrow> jt_addr t \<noteq> NULL"
  using addr_not_NULL unfolding items_def by blast

lemma detach_law:
  assumes "items H a ts" and "nat which < length ts"
  shows "\<exists>H'. cJSON_DetachItemFromArray H a which = ret (H', jt_addr (ts ! nat which)) \<and>
    edited H H' a ts (take (nat which) ts @ drop (Suc (nat which)) ts) \<and>
    detached H' (jt_addr (ts ! nat which)) (ts ! nat which)"
proof -
  let ?k = "nat which"
  from unlink_item_law [of H a "take ?k ts" "ts ! ?k" "drop (Suc ?k) ts"] assms nth_split [OF assms(2)]
  obtain H' where "unlink_item H a (jt_addr (ts ! ?k)) = Inr H'"
    "edited H H' a ts (take ?k ts @ drop (Suc ?k) ts)" "detached H' (jt_addr (ts ! ?k)) (ts ! ?k)" by auto
  moreover have "first_of (drop ?k ts) NULL = jt_addr (ts ! ?k)"
    using assms(2) by (simp add: Cons_nth_drop_Suc [symmetric])
  moreover have "jt_addr (ts ! ?k) \<noteq> NULL" using items_addr [OF assms(1)] assms(2) by simp
  ultimately show ?thesis
    using items_nth_walk [OF assms(1), of which] by (auto simp: cJSON_DetachItemFromArray_def)
qed

lemma delete_detached: "detached H c t \<Longrightarrow> cJSON_Delete H c = ret (drop_cells H (set (blocks [t])))"
  unfolding detached_def using delete_row by blast

lemma blocks_rest:
  assumes "items H a ts" and "k < length ts"
  shows "set (blocks [ts ! k]) \<subseteq> set (blocks ts)" "set (blocks [ts ! k]) \<inter> set (a # blocks (take k ts @ drop (Suc k) ts)) = {}"
proof -
  have "items H a (take k ts @ ts ! k # drop (Suc k) ts)"
    by (subst nth_split [OF assms(2), symmetric]) (rule assms(1))
  from items_distinct [OF this] show "set (blocks [ts ! k]) \<inter> set (a # blocks (take k ts @ drop (Suc k) ts)) = {}" by auto
  show "set (blocks [ts ! k]) \<subseteq> set (blocks ts)"
    using blocks_mid [of "take k ts" "ts ! k" "drop (Suc k) ts"]
    unfolding nth_split [OF assms(2), symmetric] by blast
qed

definition freed :: "cj_heap \<Rightarrow> jtree \<Rightarrow> bool" where
  "freed H t \<longleftrightarrow> (\<forall>q \<in> set (blocks [t]). cells H q = None)"

lemma freed_drop: "freed (drop_cells H (set (blocks [t]))) t"
  unfolding freed_def by (intro ballI drop_cells_simps(4))

lemma delete_item_law:
  assumes "items H a ts" and "nat which < length ts"
  shows "\<exists>H'. cJSON_DeleteItemFromArray H a which = ret H' \<and>
    edited H H' a ts (take (nat which) ts @ drop (Suc (nat which)) ts) \<and> freed H' (ts ! nat which)"
proof -
  from detach_law [OF assms] obtain H1 where "cJSON_DetachItemFromArray H a which = ret (H1, jt_addr (ts ! nat which))"
    "edited H H1 a ts (take (nat which) ts @ drop (Suc (nat which)) ts)"
    "detached H1 (jt_addr (ts ! nat which)) (ts ! nat which)" by blast
  then show ?thesis
    using delete_detached edited_drop blocks_rest [OF assms] freed_drop by (simp add: cJSON_DeleteItemFromArray_def)
qed

lemma replace_law:
  assumes "items H a ts" and "nat which < length ts" and "detached H w t" and "set (blocks [t]) \<inter> set (a # blocks ts) = {}"
  shows "\<exists>H'. cJSON_ReplaceItemInArray H a which w = ret H' \<and> edited H H' a ts (ts[nat which := t]) \<and>
    freed H' (ts ! nat which)"
proof -
  let ?k = "nat which" and ?t = "ts ! nat which"
  note sp = nth_split [OF assms(2)]
  have up: "ts[?k := t] = take ?k ts @ t # drop (Suc ?k) ts" using assms(2) by (simp add: upd_conv_take_nth_drop)
  from relink_item_law [of H a "take ?k ts" ?t "drop (Suc ?k) ts" w t] assms sp
  obtain H1 where H1: "relink_item H a (jt_addr ?t) w = Inr H1" "edited H H1 a ts (ts[?k := t])" "detached H1 (jt_addr ?t) ?t"
    unfolding up by auto
  have "set (blocks [?t]) \<inter> set (a # blocks (ts[?k := t])) = {}"
    unfolding up using blocks_rest [OF assms(1,2)] assms(4) blocks_Cons [of t "drop (Suc ?k) ts"] by auto
  then have "edited H (drop_cells H1 (set (blocks [?t]))) a ts (ts[?k := t])"
    by (rule edited_drop [OF H1(2) blocks_rest(1) [OF assms(1,2)]])
  moreover have "first_of (drop ?k ts) NULL = jt_addr ?t"
    using assms(2) by (simp add: Cons_nth_drop_Suc [symmetric])
  moreover have "jt_addr ?t \<noteq> NULL" using items_addr [OF assms(1)] assms(2) by simp
  ultimately show ?thesis
    using items_nth_walk [OF assms(1), of which] H1(1) delete_detached [OF H1(3)] freed_drop
    by (auto simp: cJSON_ReplaceItemInArray_def)
qed

lemma edit_past_end:
  assumes "items H a ts" and "length ts \<le> nat which"
  shows "cJSON_DetachItemFromArray H a which = ret (H, NULL)" "cJSON_DeleteItemFromArray H a which = ret H"
    "cJSON_ReplaceItemInArray H a which w = ret H"
  using items_nth_walk [OF assms(1), of which] assms(2)
  by (auto simp: cJSON_DetachItemFromArray_def cJSON_DeleteItemFromArray_def cJSON_ReplaceItemInArray_def cJSON_Delete.simps)

section \<open>Lookup by name\<close>

text \<open>The string at \<open>p\<close>, as a function that reads it sees it.\<close>

definition text_at_ptr :: "cj_heap \<Rightarrow> ptr \<Rightarrow> u8 list \<Rightarrow> bool" where
  "text_at_ptr H p s \<longleftrightarrow> p \<noteq> NULL \<and> get_text H p = Inr s"

definition named :: "u8 list \<Rightarrow> jtree \<Rightarrow> bool" where
  "named s t \<longleftrightarrow> cJSON_strcasecmp (map_option snd (jt_name t)) (Some s) = 0"

fun index_of :: "('a \<Rightarrow> bool) \<Rightarrow> 'a list \<Rightarrow> nat" where
  "index_of P [] = 0"
| "index_of P (x # xs) = (if P x then 0 else Suc (index_of P xs))"

lemma index_of_le: "index_of P xs \<le> length xs"
  by (induction xs) auto

lemma index_of_found: "index_of P xs < length xs \<Longrightarrow> P (xs ! index_of P xs)"
  by (induction xs) (auto split: if_splits)

lemma find_index_of: "find P xs = (if index_of P xs < length xs then Some (xs ! index_of P xs) else None)"
  by (induction xs) auto

lemma row_name:
  assumes "row H p c [t] e" and "cells H c = Some (Node n)" and "text_at_ptr H str s"
  shows "name_cmp H (n_string n) str = Inr (cJSON_strcasecmp (map_option snd (jt_name t)) (Some s))"
proof (cases t)
  case (JT a ty vs num nm kids)
  with assms(1,2) have "text_is H (n_string n) nm" by simp
  with assms(3) JT show ?thesis
    by (cases "(H, n_string n, nm)" rule: text_is.cases)
      (auto simp: name_cmp_def text_at_ptr_def cJSON_strcasecmp_def get_text_def)
qed

lemma object_walk_row:
  "row H p c ts NULL \<Longrightarrow> text_at_ptr H str s \<Longrightarrow>
    object_walk H c str = ret (first_of (drop (index_of (named s) ts) ts) NULL)"
proof (induction ts arbitrary: p c)
  case Nil
  then show ?case by (simp add: object_walk.simps)
next
  case (Cons t ts)
  from row_Cons [THEN iffD1, OF Cons.prems(1)] have r: "row H p c [t] (first_of ts NULL)" "row H (jt_addr t) (first_of ts NULL) ts NULL"
    by blast+
  from r(1) obtain n where n: "c = jt_addr t" "c \<noteq> NULL" "cells H c = Some (Node n)" "n_next n = first_of ts NULL" by (rule row_node)
  show ?case
    using n row_name [OF r(1) n(3) Cons.prems(2)] Cons.IH [OF r(2) Cons.prems(2)]
    by (subst object_walk.simps) (simp add: named_def [of s t])
qed

lemma name_walk_row:
  "row H p c ts NULL \<Longrightarrow> text_at_ptr H str s \<Longrightarrow> 0 \<le> i \<Longrightarrow> i + int (length ts) \<le> INT_MAX \<Longrightarrow>
    name_walk H c str i = ret (first_of (drop (index_of (named s) ts) ts) NULL, i + int (index_of (named s) ts))"
proof (induction ts arbitrary: p c i)
  case Nil
  then show ?case by (simp add: name_walk.simps)
next
  case (Cons t ts)
  from row_Cons [THEN iffD1, OF Cons.prems(1)] have r: "row H p c [t] (first_of ts NULL)" "row H (jt_addr t) (first_of ts NULL) ts NULL"
    by blast+
  from r(1) obtain n where n: "c = jt_addr t" "c \<noteq> NULL" "cells H c = Some (Node n)" "n_next n = first_of ts NULL" by (rule row_node)
  have "to_int (i + 1) = Inr (i + 1)" using Cons.prems(3,4) by (intro to_int_in_range) (auto simp: INT_MIN_def)
  then show ?case
    using n row_name [OF r(1) n(3) Cons.prems(2)] Cons.IH [OF r(2) Cons.prems(2), of "i + 1"] Cons.prems(3,4)
    by (subst name_walk.simps) (simp add: named_def [of s t])
qed

section \<open>Properties\<close>

text \<open>An object of three members at 10, an item of its own at 30, and a literal string at 40.\<close>

definition ex_cj_heap :: cj_heap where
  "ex_cj_heap = \<lparr>cells = [
     10 \<mapsto> Node \<lparr>n_next = 0, n_prev = 0, n_child = 11, n_type = 6, n_valuestring = 0, n_number = None, n_string = 0\<rparr>,
     11 \<mapsto> Node \<lparr>n_next = 12, n_prev = 0, n_child = 0, n_type = 3, n_valuestring = 0, n_number = Some (Dec 1 0), n_string = 20\<rparr>,
     12 \<mapsto> Node \<lparr>n_next = 13, n_prev = 11, n_child = 0, n_type = 4, n_valuestring = 21, n_number = None, n_string = 22\<rparr>,
     13 \<mapsto> Node \<lparr>n_next = 0, n_prev = 12, n_child = 14, n_type = 5, n_valuestring = 0, n_number = None, n_string = 23\<rparr>,
     14 \<mapsto> Node \<lparr>n_next = 0, n_prev = 0, n_child = 0, n_type = 2, n_valuestring = 0, n_number = None, n_string = 0\<rparr>,
     20 \<mapsto> Text [97], 21 \<mapsto> Text [120], 22 \<mapsto> Text [98], 23 \<mapsto> Text [99],
     30 \<mapsto> Node \<lparr>n_next = 0, n_prev = 0, n_child = 0, n_type = 1, n_valuestring = 0, n_number = None, n_string = 31\<rparr>,
     31 \<mapsto> Text [111], 40 \<mapsto> Literal [66], 41 \<mapsto> Literal [110, 101, 119]], calls = 0\<rparr>"

definition ex_kids :: "jtree list" where
  "ex_kids = [JT 11 3 None (Some (Dec 1 0)) (Some (20, [97])) [],
     JT 12 4 (Some (21, [120])) None (Some (22, [98])) [],
     JT 13 5 None None (Some (23, [99])) [JT 14 2 None None None []]]"

definition ex_new :: jtree where
  "ex_new = JT 30 1 None None (Some (31, [111])) []"

lemma ex_cj_items: "items ex_cj_heap 10 ex_kids"
  by (simp add: items_def ex_cj_heap_def ex_kids_def cJSON_IsReference_def)

lemma ex_cj_detached: "detached ex_cj_heap 30 ex_new"
  by (simp add: detached_def ex_cj_heap_def ex_new_def cJSON_IsReference_def)

lemma ex_cj_disjoint: "set (blocks [ex_new]) \<inter> set (10 # blocks ex_kids) = {}"
  by (simp add: ex_new_def ex_kids_def)

text \<open>C12: editing an array is the list operation the name says: cJSON_AddItemToArray appends the item,
  cJSON_DetachItemFromArray takes the item at the index out and returns it whole, cJSON_DeleteItemFromArray also frees all
  its blocks, cJSON_ReplaceItemInArray puts the new item into its place and frees the old one; a negative index counts as
  0, and past the end nothing happens. Only blocks of the two lists and the child pointer of the array change.\<close>
theorem cJSON_array_edits:
  assumes "items H a ts" and "detached H w t" and "set (blocks [t]) \<inter> set (a # blocks ts) = {}" and "k = nat which"
  shows "(\<exists>H'. cJSON_AddItemToArray H a w = ret H' \<and> edited H H' a ts (ts @ [t])) \<and>
    (if k < length ts
     then (\<exists>H'. cJSON_DetachItemFromArray H a which = ret (H', jt_addr (ts ! k)) \<and>
             edited H H' a ts (take k ts @ drop (Suc k) ts) \<and> detached H' (jt_addr (ts ! k)) (ts ! k)) \<and>
          (\<exists>H'. cJSON_DeleteItemFromArray H a which = ret H' \<and>
             edited H H' a ts (take k ts @ drop (Suc k) ts) \<and> freed H' (ts ! k)) \<and>
          (\<exists>H'. cJSON_ReplaceItemInArray H a which w = ret H' \<and> edited H H' a ts (ts[k := t]) \<and> freed H' (ts ! k))
     else cJSON_DetachItemFromArray H a which = ret (H, NULL) \<and> cJSON_DeleteItemFromArray H a which = ret H \<and>
          cJSON_ReplaceItemInArray H a which w = ret H)"
proof (cases "k < length ts")
  case True
  with add_item_law [OF assms(1-3)] detach_law [OF assms(1), of which] delete_item_law [OF assms(1), of which]
    replace_law [OF assms(1) _ assms(2,3), of which] assms(4)
  show ?thesis by simp
next
  case False
  with add_item_law [OF assms(1-3)] edit_past_end [OF assms(1), of which] assms(4) show ?thesis by simp
qed

theorem cJSON_array_edits_witness:
  "\<exists>H'. cJSON_ReplaceItemInArray ex_cj_heap 10 1 30 = ret H' \<and> items H' 10 (ex_kids[1 := ex_new]) \<and> cells H' 21 = None"
proof -
  have "(1 :: nat) < length ex_kids" by (simp add: ex_kids_def)
  then show ?thesis
    using cJSON_array_edits [OF ex_cj_items ex_cj_detached ex_cj_disjoint, of 1 1]
    by (auto simp: edited_def freed_def ex_kids_def)
qed

text \<open>C26: cJSON_Delete on a tree always returns, and frees every item, name and value string the tree owns exactly once
  (a second free would have no result) and nothing else; what a reference points to is left alone.\<close>
theorem cJSON_Delete_frees:
  assumes "row H p c ts NULL" and "distinct (blocks ts)"
  shows "\<exists>H'. cJSON_Delete H c = ret H' \<and> (\<forall>q. cells H' q = (if q \<in> set (blocks ts) then None else cells H q))"
  using delete_row [OF assms] by auto

theorem cJSON_Delete_frees_witness:
  "\<exists>H'. cJSON_Delete ex_cj_heap 11 = ret H' \<and> cells H' 23 = None \<and> cells H' 10 \<noteq> None"
proof -
  have "row ex_cj_heap NULL 11 ex_kids NULL" "distinct (blocks ex_kids)"
    by (simp_all add: ex_cj_heap_def ex_kids_def cJSON_IsReference_def)
  from cJSON_Delete_frees [OF this] obtain H' where "cJSON_Delete ex_cj_heap 11 = ret H'"
    "\<forall>q. cells H' q = (if q \<in> set (blocks ex_kids) then None else cells ex_cj_heap q)" by blast
  then show ?thesis by (auto simp: ex_kids_def ex_cj_heap_def)
qed

end
