(* ===== verification/CJsonNames.thy ===== *)
theory CJsonNames
  imports CJsonTree
begin

text \<open>
  Names: what \<^verbatim>\<open>malloc\<close> promises, items added to an object under a name, the lookups on the
  pointer structure as a refinement of the lookups on trees, edits by name, and references.
\<close>

section \<open>Allocation\<close>

text \<open>What \<^verbatim>\<open>malloc\<close> promises: an address it returns is not in use.\<close>

definition good_malloc :: "allocator \<Rightarrow> bool" where
  "good_malloc al \<longleftrightarrow> (\<forall>H n. al H n \<noteq> NULL \<longrightarrow> cells H (al H n) = None)"

text \<open>\<open>H'\<close> has all of \<open>H\<close> and, at addresses that were free, the new blocks \<open>A\<close>.\<close>

definition extends :: "cj_heap \<Rightarrow> cj_heap \<Rightarrow> ptr set \<Rightarrow> bool" where
  "extends H H' A \<longleftrightarrow> (\<forall>q. q \<notin> A \<longrightarrow> cells H' q = cells H q) \<and> (\<forall>q \<in> A. cells H q = None)"

lemma extends_same: "cells H' = cells H \<Longrightarrow> extends H H' {}"
  by (simp add: extends_def)

lemma extends_dom: "extends H H' A \<Longrightarrow> cells H q \<noteq> None \<Longrightarrow> cells H' q = cells H q"
  unfolding extends_def by (cases "q \<in> A") auto

lemma extends_drop: "extends H H' A \<Longrightarrow> cells (drop_cells H' A) = cells H"
  unfolding extends_def drop_cells_def by (auto simp: fun_eq_iff restrict_map_def)

lemma malloc_cases:
  assumes "good_malloc al" and "cj_malloc al H n v = (H', p)"
  obtains "p = NULL" "cells H' = cells H"
  | "p \<noteq> NULL" "cells H p = None" "cells H' = (cells H)(p \<mapsto> v)"
  using assms by (auto simp: cj_malloc_def good_malloc_def Let_def split: if_splits)

lemma new_item_cases:
  assumes "good_malloc al" and "new_item al H = (H', p)"
  obtains "p = NULL" "cells H' = cells H"
  | "p \<noteq> NULL" "cells H p = None" "cells H' = (cells H)(p \<mapsto> Node zero_node)"
  using malloc_cases [OF assms(1) assms(2) [unfolded new_item_def]] that by metis

lemma strdup_ok:
  assumes "good_malloc al" and "get_text H str = Inr s"
  obtains H' p where "cj_strdup al H str = Inr (H', p)" "p \<noteq> NULL \<longrightarrow> cells H p = None"
    "cells H' = (if p = NULL then cells H else (cells H)(p \<mapsto> Text (c_view s)))"
proof -
  obtain H' p where m: "cj_malloc al H (length (c_view s) + 1) (Text (c_view s)) = (H', p)" by fastforce
  then have "cj_strdup al H str = Inr (H', p)" using assms(2) by (simp add: cj_strdup_def)
  moreover have "(p \<noteq> NULL \<longrightarrow> cells H p = None) \<and>
      cells H' = (if p = NULL then cells H else (cells H)(p \<mapsto> Text (c_view s)))"
    by (rule malloc_cases [OF assms(1) m]) simp_all
  ultimately show thesis using that by blast
qed

lemma text_is_block: "text_is H p x \<Longrightarrow> q \<in> set (text_block x) \<Longrightarrow> \<exists>s. cells H q = Some (Text s)"
  by (cases "(H, p, x)" rule: text_is.cases) auto

lemma row_alloc: "row H p c ts e \<Longrightarrow> q \<in> set (blocks ts) \<Longrightarrow> cells H q \<noteq> None"
proof (induction H p c ts e rule: row.induct)
  case (2 H p c a ty vs num nm kids ts e)
  then show ?case
    using text_is_block [of H _ vs q] text_is_block [of H _ nm q] by (auto split: option.splits cj_cell.splits if_splits)
qed simp

section \<open>Adding under a name\<close>

lemma blocks_not_NULL: "row H p c ts e \<Longrightarrow> q \<in> set (blocks ts) \<Longrightarrow> q \<noteq> NULL"
proof (induction H p c ts e rule: row.induct)
  case (2 H p c a ty vs num nm kids ts e)
  have "q \<noteq> NULL" if "text_is H x y" "q \<in> set (text_block y)" for x y
    using that by (cases "(H, x, y)" rule: text_is.cases) auto
  with 2 show ?case by (auto split: option.splits cj_cell.splits if_splits)
qed simp

text \<open>The name of an item after \<^verbatim>\<open>cj_strdup\<close>: NULL when there was no memory.\<close>

definition new_name :: "ptr \<Rightarrow> u8 list \<Rightarrow> (ptr \<times> u8 list) option" where
  "new_name p s = (if p = NULL then None else Some (p, c_view s))"

fun rename :: "(ptr \<times> u8 list) option \<Rightarrow> jtree \<Rightarrow> jtree" where
  "rename nm (JT a ty vs num _ kids) = JT a ty vs num nm kids"

lemma rename_addr [simp]: "jt_addr (rename nm t) = jt_addr t"
  by (cases t) simp

lemma rename_row:
  assumes "detached H c t" and "cells H c = Some (Node n)" and "cells H' c = Some (Node (n\<lparr>n_string := p\<rparr>))"
    and "text_is H' p nm" and "set (text_block nm) \<inter> set (blocks [rename None t]) = {}"
    and "\<And>q. q \<in> set (blocks [rename None t]) \<Longrightarrow> q \<noteq> c \<Longrightarrow> cells H' q = cells H q"
  shows "detached H' c (rename nm t)"
proof (cases t)
  case (JT a ty vs num nm0 kids)
  have r: "row H NULL c [t] NULL" "distinct (blocks [t])" using assms(1) by (simp_all add: detached_def)
  have "row H' q d kids x = row H q d kids x" for q d x
    using assms(6) r JT by (intro row_cong) auto
  moreover have "text_is H' q vs = text_is H q vs" for q
    using assms(6) r JT by (intro text_is_cong) auto
  moreover have "distinct (blocks [rename nm t])" using r(2) assms(5) JT by (cases nm) auto
  ultimately show ?thesis using r(1) assms(2,3,4) JT by (simp add: detached_def)
qed

lemma rename_ok:
  assumes "good_malloc al" and "detached H w t" and "text_at_ptr H str s" and "str \<notin> set (text_block (jt_name t))"
  obtains n H1 H2 H3 p where "cells H w = Some (Node n)"
    "(if n_string n \<noteq> NULL then cj_free H (n_string n) else Inr H) = Inr H1"
    "cj_strdup al H1 str = Inr (H2, p)" "set_item H2 w (n_string_update (\<lambda>_. p)) = Inr H3"
    "detached H3 w (rename (new_name p s) t)" "p \<noteq> NULL \<longrightarrow> p \<in> set (text_block (jt_name t)) \<or> cells H p = None"
    "\<forall>q. q \<notin> set (blocks [t]) \<longrightarrow> q \<noteq> p \<longrightarrow> cells H3 q = cells H q"
proof -
  obtain a ty vs num nm kids where t: "t = JT a ty vs num nm kids" by (cases t)
  have r: "row H NULL w [t] NULL" "distinct (blocks [t])" using assms(2) by (simp_all add: detached_def)
  from r(1) obtain n where n: "cells H w = Some (Node n)" "w = a" "text_is H (n_string n) nm"
    unfolding t by (auto split: option.splits cj_cell.splits)
  define H1 where "H1 = drop_cells H (set (text_block nm))"
  have f: "(if n_string n \<noteq> NULL then cj_free H (n_string n) else Inr H) = Inr H1"
    using n(3) by (cases "(H, n_string n, nm)" rule: text_is.cases) (auto simp: H1_def)
  have "get_text H1 str = Inr s"
    using assms(3,4) t by (simp add: text_at_ptr_def get_text_def H1_def)
  from strdup_ok [OF assms(1) this] obtain H2 p where d: "cj_strdup al H1 str = Inr (H2, p)"
    "p \<noteq> NULL \<longrightarrow> cells H1 p = None" "cells H2 = (if p = NULL then cells H1 else (cells H1)(p \<mapsto> Text (c_view s)))" .
  have w1: "cells H1 w = Some (Node n)" using n r(2) t by (simp add: H1_def)
  then have pw: "p \<noteq> NULL \<Longrightarrow> p \<noteq> w" using d(2) by auto
  have w2: "cells H2 w = Some (Node n)" using d(3) w1 pw by auto
  define H3 where "H3 = H2\<lparr>cells := (cells H2)(w \<mapsto> Node (n\<lparr>n_string := p\<rparr>))\<rparr>"
  have s: "set_item H2 w (n_string_update (\<lambda>_. p)) = Inr H3" using w2 by (simp add: H3_def)
  have same1: "cells H1 q = cells H q" if "q \<notin> set (text_block nm)" for q using that by (simp add: H1_def)
  have p1: "p \<noteq> NULL \<Longrightarrow> p \<in> set (text_block nm) \<or> cells H p = None" using d(2) same1 by metis
  have pb: "p \<notin> set (blocks [rename None t])" if "p \<noteq> NULL"
  proof
    assume b: "p \<in> set (blocks [rename None t])"
    then have "p \<in> set (blocks [t])" "p \<notin> set (text_block nm)" using r(2) t by auto
    with row_alloc [OF r(1), of p] p1 that show False by simp
  qed
  have same: "cells H3 q = cells H q" if "q \<notin> set (text_block nm)" "q \<noteq> w" "q \<noteq> p \<or> p = NULL" for q
    using that same1 d(3) by (auto simp: H3_def)
  have "detached H3 w (rename (new_name p s) t)"
  proof (rule rename_row [OF assms(2) n(1)])
    show "cells H3 w = Some (Node (n\<lparr>n_string := p\<rparr>))" by (simp add: H3_def)
    show "text_is H3 p (new_name p s)" using d(3) pw by (simp add: new_name_def H3_def)
    show "set (text_block (new_name p s)) \<inter> set (blocks [rename None t]) = {}" using pb by (simp add: new_name_def)
    fix q
    assume q: "q \<in> set (blocks [rename None t])" "q \<noteq> w"
    then have "q \<notin> set (text_block nm)" using r(2) t by auto
    moreover have "q \<noteq> p \<or> p = NULL" using q(1) pb by auto
    ultimately show "cells H3 q = cells H q" using q(2) by (intro same)
  qed
  moreover have "cells H3 q = cells H q" if "q \<notin> set (blocks [t])" "q \<noteq> p" for q
    using that same n(2) t by simp
  ultimately show thesis using that [OF n(1) f d(1) s] p1 t by simp
qed

lemma add_to_object_law:
  assumes "good_malloc al" and "items H a ts" and "detached H w t" and "set (blocks [t]) \<inter> set (a # blocks ts) = {}"
    and "text_at_ptr H str s" and "str \<notin> set (text_block (jt_name t))"
  shows "\<exists>H' p. cJSON_AddItemToObject al H a str w = ret H' \<and> items H' a (ts @ [rename (new_name p s) t]) \<and>
    (p \<noteq> NULL \<longrightarrow> p \<in> set (blocks [t]) \<or> cells H p = None) \<and>
    (\<forall>q. q \<notin> set (a # blocks ts @ blocks [t]) \<longrightarrow> q \<noteq> p \<longrightarrow> cells H' q = cells H q)"
proof -
  obtain n H1 H2 H3 p where r: "cells H w = Some (Node n)"
    "(if n_string n \<noteq> NULL then cj_free H (n_string n) else Inr H) = Inr H1"
    "cj_strdup al H1 str = Inr (H2, p)" "set_item H2 w (n_string_update (\<lambda>_. p)) = Inr H3"
    "detached H3 w (rename (new_name p s) t)" "p \<noteq> NULL \<longrightarrow> p \<in> set (text_block (jt_name t)) \<or> cells H p = None"
    "\<forall>q. q \<notin> set (blocks [t]) \<longrightarrow> q \<noteq> p \<longrightarrow> cells H3 q = cells H q"
    by (rule rename_ok [OF assms(1,3,5,6)])
  have al: "cells H q \<noteq> None" if "q \<in> set (a # blocks ts)" for q
    using that assms(2) row_alloc by (auto simp: items_def)
  have nt: "set (text_block (jt_name t)) \<subseteq> set (blocks [t])" by (cases t) auto
  have p: "p \<notin> set (a # blocks ts)" if "p \<noteq> NULL" using r(6) that al nt assms(4) by blast
  have i3: "items H3 a ts"
  proof (rule items_frame [OF assms(2)])
    fix q
    assume q: "q \<in> set (a # blocks ts)"
    then have "q \<noteq> NULL" using assms(2) blocks_not_NULL unfolding items_def by auto
    with q p have "q \<noteq> p" by auto
    with q assms(4) show "cells H3 q = cells H q" using r(7) by auto
  qed
  have b: "set (blocks [rename (new_name p s) t]) \<subseteq> set (blocks [t]) \<union> (if p = NULL then {} else {p})"
    by (cases t) (auto simp: new_name_def)
  then have dis: "set (blocks [rename (new_name p s) t]) \<inter> set (a # blocks ts) = {}" using assms(4) p by (auto split: if_splits)
  from add_item_law [OF i3 r(5) dis] obtain H' where H': "cJSON_AddItemToArray H3 a w = ret H'"
    "edited H3 H' a ts (ts @ [rename (new_name p s) t])" by blast
  have "cJSON_AddItemToObject al H a str w = ret H'"
    using r(1-4) H'(1) detached_addr [OF assms(3)] by (simp add: cJSON_AddItemToObject_def)
  moreover have "cells H' q = cells H q" if "q \<notin> set (a # blocks ts @ blocks [t])" "q \<noteq> p" for q
  proof -
    have "cells H' q = cells H3 q" using H'(2) that b unfolding edited_def by (auto split: if_splits)
    then show ?thesis using r(7) that by simp
  qed
  moreover have "p \<noteq> NULL \<longrightarrow> p \<in> set (blocks [t]) \<or> cells H p = None" using r(6) nt by auto
  ultimately show ?thesis using H'(2) unfolding edited_def by blast
qed

section \<open>Lookups refine the lookups on trees\<close>

text \<open>The pointer of a lookup and the item of the lookup on the tree are the same child.\<close>

definition same_child :: "jtree list \<Rightarrow> ptr \<Rightarrow> cjson option \<Rightarrow> bool" where
  "same_child ts p x \<longleftrightarrow> (case x of
     None \<Rightarrow> p = NULL
   | Some j \<Rightarrow> \<exists>t \<in> set ts. p = jt_addr t \<and> p \<noteq> NULL \<and> j = abs_tree t)"

lemma abs_name: "cj_name (abs_tree t) = map_option snd (jt_name t)"
  by (cases t) simp

lemma find_map_index: "find P (map f xs) = map_option f (find (P \<circ> f) xs)"
  by (induction xs) auto

lemma find_abs:
  "find (\<lambda>c. cJSON_strcasecmp (cj_name c) (Some s) = 0) (map abs_tree ts) =
    (if index_of (named s) ts < length ts then Some (abs_tree (ts ! index_of (named s) ts)) else None)"
proof -
  have "(\<lambda>c. cJSON_strcasecmp (cj_name c) (Some s) = 0) \<circ> abs_tree = named s"
    by (rule ext) (simp add: abs_name named_def)
  then show ?thesis by (simp add: find_map_index find_index_of [of "named s"])
qed

lemma first_of_drop: "first_of (drop k ts) NULL = (if k < length ts then jt_addr (ts ! k) else NULL)"
  by (auto simp: Cons_nth_drop_Suc [symmetric])

lemma same_child_nth:
  assumes "items H a ts"
  shows "same_child ts (first_of (drop k ts) NULL) (if k < length ts then Some (abs_tree (ts ! k)) else None)"
  using items_addr [OF assms] nth_mem [of k ts] by (auto simp: same_child_def first_of_drop)

lemma get_object_item_run:
  assumes "items H a ts" and "text_at_ptr H str s"
  shows "GetObjectItem H a str = ret (first_of (drop (index_of (named s) ts) ts) NULL)"
  using assms object_walk_row by (auto simp: items_def GetObjectItem_def)

lemma get_object_item_law:
  assumes "items H a ts" and "text_at_ptr H str s" and "children j = map abs_tree ts"
  shows "\<exists>p x. GetObjectItem H a str = ret p \<and> cJSON_GetObjectItem (Some j) s = Inr x \<and> same_child ts p x"
  using get_object_item_run [OF assms(1,2)] same_child_nth [OF assms(1), of "index_of (named s) ts"]
  by (simp add: cJSON_GetObjectItem_def assms(3) find_abs)

lemma get_array_item_law:
  assumes "items H a ts" and "children j = map abs_tree ts"
  shows "\<exists>p. GetArrayItem H a i = ret p \<and> same_child ts p (cJSON_GetArrayItem j i)"
proof -
  have "cJSON_GetArrayItem j i = (if nat i < length ts then Some (abs_tree (ts ! nat i)) else None)"
    by (auto simp: cJSON_GetArrayItem_def assms(2) Let_def)
  then show ?thesis
    using items_nth_walk [OF assms(1), of i] same_child_nth [OF assms(1), of "nat i"] by (auto simp: GetArrayItem_def)
qed

lemma get_array_size_law:
  assumes "items H a ts" and "children j = map abs_tree ts" and "int (length ts) \<le> INT_MAX"
  shows "GetArraySize H a = ret (cJSON_GetArraySize j)"
proof -
  from assms(1) obtain n where "get_item H a = Inr n" "row H NULL (n_child n) ts NULL" by (auto simp: items_def)
  then show ?thesis
    using size_walk_row [of H NULL "n_child n" ts 0] assms(2,3) by (simp add: GetArraySize_def cJSON_GetArraySize_def)
qed

section \<open>Editing by name\<close>

lemma items_name_walk:
  assumes "items H a ts" and "text_at_ptr H str s" and "int (length ts) \<le> INT_MAX"
  shows "\<exists>n. get_item H a = Inr n \<and>
    name_walk H (n_child n) str 0 = ret (first_of (drop (index_of (named s) ts) ts) NULL, int (index_of (named s) ts))"
  using assms name_walk_row [of H NULL _ ts str s 0] by (auto simp: items_def)

lemma by_name:
  assumes "items H a ts" and "text_at_ptr H str s" and "int (length ts) \<le> INT_MAX" and "k = index_of (named s) ts"
  shows "cJSON_DetachItemFromObject H a str = (if k < length ts then cJSON_DetachItemFromArray H a (int k) else ret (H, NULL))"
    and "cJSON_DeleteItemFromObject H a str = (if k < length ts then cJSON_DeleteItemFromArray H a (int k) else ret H)"
proof -
  from items_name_walk [OF assms(1-3)] assms(4) obtain n where "get_item H a = Inr n"
    "name_walk H (n_child n) str 0 = ret (first_of (drop k ts) NULL, int k)" by blast
  then show d: "cJSON_DetachItemFromObject H a str = (if k < length ts then cJSON_DetachItemFromArray H a (int k) else ret (H, NULL))"
    using items_addr [OF assms(1)] by (simp add: cJSON_DetachItemFromObject_def first_of_drop)
  show "cJSON_DeleteItemFromObject H a str = (if k < length ts then cJSON_DeleteItemFromArray H a (int k) else ret H)"
    by (simp add: cJSON_DeleteItemFromObject_def d cJSON_DeleteItemFromArray_def cJSON_Delete.simps)
qed

section \<open>References\<close>

text \<open>
  A reference is a second item for the same contents. It owns only itself, so adding it leaves
  the original alone, and so does deleting it.
\<close>

lemma create_reference_ok:
  assumes "good_malloc al" and "cells H item = Some (Node n)"
  obtains H' where "create_reference al H item = Inr (H', NULL)" "cells H' = cells H"
  | H' p where "create_reference al H item = Inr (H', p)" "p \<noteq> NULL" "cells H p = None"
      "cells H' = (cells H)(p \<mapsto> Node (n\<lparr>n_string := NULL, n_type := n_type n OR cJSON_IsReference, n_next := NULL, n_prev := NULL\<rparr>))"
proof -
  obtain H1 p where m: "new_item al H = (H1, p)" by fastforce
  show thesis
  proof (rule new_item_cases [OF assms(1) m])
    assume "p = NULL" "cells H1 = cells H"
    then show thesis using m that(1) by (simp add: create_reference_def)
  next
    assume p: "p \<noteq> NULL" "cells H p = None" "cells H1 = (cells H)(p \<mapsto> Node zero_node)"
    then have "item \<noteq> p" using assms(2) by auto
    with p m assms(2) show thesis using that(2) [of "H1\<lparr>cells := (cells H)(p \<mapsto> Node (n\<lparr>n_string := NULL, n_type := n_type n OR cJSON_IsReference, n_next := NULL, n_prev := NULL\<rparr>))\<rparr>" p]
      by (simp add: create_reference_def)
  qed
qed

lemma is_reference: "(ty OR cJSON_IsReference) AND cJSON_IsReference \<noteq> 0"
proof
  assume "(ty OR cJSON_IsReference) AND cJSON_IsReference = 0"
  then have "bit ((ty OR cJSON_IsReference) AND cJSON_IsReference) 8 = bit (0 :: int) 8" by simp
  then show False by (simp add: cJSON_IsReference_def bit_simps)
qed

definition reference_of :: "ptr \<Rightarrow> cj_node \<Rightarrow> jtree" where
  "reference_of p n = JT p (n_type n OR cJSON_IsReference) None (n_number n) None []"

definition same_contents :: "cj_heap \<Rightarrow> cj_heap \<Rightarrow> ptr \<Rightarrow> cj_node \<Rightarrow> bool" where
  "same_contents H H' p n \<longleftrightarrow> (\<exists>m. cells H' p = Some (Node m) \<and> n_child m = n_child n \<and> n_valuestring m = n_valuestring n)"

lemma set_item_iff:
  "set_item H p f = Inr H' \<longleftrightarrow> (\<exists>n. cells H p = Some (Node n) \<and> H' = H\<lparr>cells := (cells H)(p \<mapsto> Node (f n))\<rparr>)"
  by (auto simp: set_item_def get_item_def split: option.splits cj_cell.splits)

lemma link_keeps_contents:
  "suffix_object H x y = Inr H' \<Longrightarrow> cells H p = Some (Node n) \<Longrightarrow> same_contents H H' p n"
  by (auto simp: suffix_object_def set_item_iff same_contents_def bindR_Inr_iff split: if_splits)

lemma add_keeps_contents:
  "cJSON_AddItemToArray H a w = ret H' \<Longrightarrow> cells H p = Some (Node n) \<Longrightarrow> p \<noteq> a \<Longrightarrow> same_contents H H' p n"
  using link_keeps_contents [of H _ w H' p n]
  by (auto simp: cJSON_AddItemToArray_def bindO_def set_item_iff same_contents_def Let_def
      split: if_splits sum.splits Option.bind_splits)

lemma reference_law:
  assumes "good_malloc al" and "items H a ts" and "cells H item = Some (Node n)"
  shows "\<exists>H' p. cJSON_AddItemReferenceToArray al H a item = ret H' \<and>
    (p = NULL \<and> cells H' = cells H \<or>
     p \<noteq> NULL \<and> cells H p = None \<and> items H' a (ts @ [reference_of p n]) \<and>
     same_contents H H' p n \<and>
     (\<forall>q. q \<notin> set (a # blocks ts) \<longrightarrow> q \<noteq> p \<longrightarrow> cells H' q = cells H q))"
proof (rule create_reference_ok [OF assms(1,3)])
  fix H1
  assume "create_reference al H item = Inr (H1, NULL)" "cells H1 = cells H"
  moreover from this assms(2) obtain m where "get_item H1 a = Inr m" by (auto simp: items_def get_item_def)
  ultimately show ?thesis by (auto simp: cJSON_AddItemReferenceToArray_def cJSON_AddItemToArray_def)
next
  fix H1 p
  let ?m = "n\<lparr>n_string := NULL, n_type := n_type n OR cJSON_IsReference, n_next := NULL, n_prev := NULL\<rparr>"
  assume r: "create_reference al H item = Inr (H1, p)" "p \<noteq> NULL" "cells H p = None" "cells H1 = (cells H)(p \<mapsto> Node ?m)"
  have al: "cells H q \<noteq> None" if "q \<in> set (a # blocks ts)" for q
    using that assms(2) row_alloc by (auto simp: items_def)
  then have p: "p \<notin> set (a # blocks ts)" using r(3) by blast
  have "items H1 a ts" by (rule items_frame [OF assms(2)]) (use p r(4) in auto)
  moreover have "detached H1 p (reference_of p n)"
    using r(2,4) is_reference by (simp add: detached_def reference_of_def)
  ultimately obtain H' where H': "cJSON_AddItemToArray H1 a p = ret H'" "edited H1 H' a ts (ts @ [reference_of p n])"
    using add_item_law [of H1 a ts p "reference_of p n"] p by (auto simp: reference_of_def)
  have "items H' a (ts @ [reference_of p n])" using H'(2) unfolding edited_def by blast
  moreover have "same_contents H H' p n"
    using add_keeps_contents [OF H'(1), of p ?m] r(4) p by (simp add: same_contents_def)
  moreover have "cells H' q = cells H q" if "q \<notin> set (a # blocks ts)" "q \<noteq> p" for q
    using H'(2) that r(4) unfolding edited_def by (auto simp: reference_of_def)
  ultimately show ?thesis using r H'(1) by (auto simp: cJSON_AddItemReferenceToArray_def)
qed

section \<open>Properties\<close>

lemma c_view_idem: "c_view (c_view s) = c_view s"
  unfolding c_view_def by (rule takeWhile_eq_all_conv [THEN iffD2]) (auto dest: set_takeWhileD)

lemma strcasecmp_refl: "strcasecmp_loop s s = 0"
  by (induction s) auto

lemma renamed_is_named: "p \<noteq> NULL \<Longrightarrow> named s (rename (new_name p s) t)"
  by (cases t) (simp add: named_def new_name_def cJSON_strcasecmp_def c_view_idem strcasecmp_refl)

lemma index_of_append: "(\<And>x. x \<in> set xs \<Longrightarrow> \<not> P x) \<Longrightarrow> index_of P (xs @ ys) = length xs + index_of P ys"
  by (induction xs) auto

text \<open>An allocator for the examples.\<close>

definition ex_malloc :: allocator where
  "ex_malloc H n = (let p = 100 + calls H in if cells H p = None then p else NULL)"

lemma ex_good_malloc: "good_malloc ex_malloc"
  by (simp add: good_malloc_def ex_malloc_def Let_def)



text \<open>C27: the lookups on the pointer structure refine the lookups on the tree it represents: cJSON_GetObjectItem and
  cJSON_GetArrayItem return the address of the very child the tree lookup returns, NULL when it returns none, and
  cJSON_GetArraySize the number of children.\<close>
theorem cJSON_lookups_refine:
  assumes "items H a ts" and "children j = map abs_tree ts" and "text_at_ptr H str s" and "int (length ts) \<le> INT_MAX"
  shows "(\<exists>p x. GetObjectItem H a str = ret p \<and> cJSON_GetObjectItem (Some j) s = Inr x \<and> same_child ts p x) \<and>
    (\<forall>i. \<exists>p. GetArrayItem H a i = ret p \<and> same_child ts p (cJSON_GetArrayItem j i)) \<and>
    GetArraySize H a = ret (cJSON_GetArraySize j)"
  using get_object_item_law [OF assms(1,3,2)] get_array_item_law [OF assms(1,2)] get_array_size_law [OF assms(1,2,4)] by blast

theorem cJSON_lookups_refine_witness:
  "GetObjectItem ex_cj_heap 10 40 = ret 12 \<and> GetArraySize ex_cj_heap 10 = ret 3"
proof -
  have s: "text_at_ptr ex_cj_heap 40 [66]" by (simp add: text_at_ptr_def get_text_def ex_cj_heap_def)
  let ?j = "Item 6 None None None (map abs_tree ex_kids)"
  have r: "\<exists>p x. GetObjectItem ex_cj_heap 10 40 = ret p \<and> cJSON_GetObjectItem (Some ?j) [66] = Inr x \<and> same_child ex_kids p x"
    "GetArraySize ex_cj_heap 10 = ret (cJSON_GetArraySize ?j)"
    using cJSON_lookups_refine [OF ex_cj_items _ s, of ?j] by (auto simp: ex_kids_def INT_MAX_def)
  have "cJSON_GetObjectItem (Some ?j) [66] = Inr (Some (Item 4 (Some [120]) None (Some [98]) []))"
    by (simp add: cJSON_GetObjectItem_def ex_kids_def cJSON_strcasecmp_def c_view_def tolower_def)
  with r(1) have "GetObjectItem ex_cj_heap 10 40 = ret 12" by (auto simp: same_child_def ex_kids_def)
  moreover have "cJSON_GetArraySize ?j = 3" by (simp add: cJSON_GetArraySize_def ex_kids_def)
  ultimately show ?thesis using r(2) by simp
qed

text \<open>An item cannot be added under its own name: the name is freed before it is copied.\<close>

lemma add_under_own_name:
  assumes "detached H w t" and "cells H w = Some (Node n)" and "n_string n \<noteq> NULL"
  shows "cJSON_AddItemToObject al H a (n_string n) w = Some (Inl (BadPtr (n_string n)))"
proof -
  obtain b ty vs num nm kids where t: "t = JT b ty vs num nm kids" by (cases t)
  from assms(1,2) have "text_is H (n_string n) nm" by (simp add: detached_def t)
  with assms(3) obtain s where "cells H (n_string n) = Some (Text s)"
    by (cases "(H, n_string n, nm)" rule: text_is.cases) auto
  moreover have "w \<noteq> NULL" using detached_addr [OF assms(1)] by simp
  ultimately show ?thesis
    using assms(2,3) by (simp add: cJSON_AddItemToObject_def cj_strdup_def get_text_def)
qed

end
