(* ===== verification/CJsonDup.thy ===== *)
theory CJsonDup
  imports CJsonNames
begin

text \<open>
  \<^verbatim>\<open>cJSON_Duplicate\<close>: the copy is complete and shares nothing with the original, or there is no
  copy and no memory lost.
\<close>

section \<open>Duplicating\<close>

text \<open>
  \<open>view H c js\<close>: whoever reads the chain from \<open>c\<close> on sees the items \<open>js\<close>, through references too.
\<close>

fun text_view :: "cj_heap \<Rightarrow> ptr \<Rightarrow> u8 list option \<Rightarrow> bool" where
  "text_view H p None \<longleftrightarrow> p = NULL"
| "text_view H p (Some s) \<longleftrightarrow> text_at_ptr H p s"

fun view :: "cj_heap \<Rightarrow> ptr \<Rightarrow> cjson list \<Rightarrow> bool" where
  "view H c [] \<longleftrightarrow> c = NULL"
| "view H c (Item ty vs num nm js # rest) \<longleftrightarrow> c \<noteq> NULL \<and>
     (case cells H c of
        Some (Node n) \<Rightarrow> n_type n = ty \<and> n_number n = num \<and> text_view H (n_valuestring n) vs \<and>
          text_view H (n_string n) nm \<and> view H (n_child n) js \<and> view H (n_next n) rest
      | _ \<Rightarrow> False)"

text \<open>The copy of an item is no reference, and its strings end at the first NUL.\<close>

fun copies :: "cjson list \<Rightarrow> cjson list" where
  "copies [] = []"
| "copies (Item ty vs num nm js # rest) =
     Item (ty AND NOT cJSON_IsReference) (map_option c_view vs) num (map_option c_view nm) (copies js) # copies rest"

lemma extends_text: "extends H H' A \<Longrightarrow> text_view H p s \<Longrightarrow> text_view H' p s"
  using extends_dom [of H H' A p]
  by (cases s) (auto simp: text_at_ptr_def get_text_def split: option.splits)

lemma extends_view: "extends H H' A \<Longrightarrow> view H c js \<Longrightarrow> view H' c js"
proof (induction js arbitrary: c rule: copies.induct)
  case (2 ty vs num nm js rest)
  from 2(4) have "cells H' c = cells H c" by (intro extends_dom [OF 2(3)]) (auto split: option.splits)
  with 2 extends_text [OF 2(3)] show ?case by (auto split: option.splits cj_cell.splits)
qed simp

lemma extends_trans: "extends H H' A \<Longrightarrow> extends H' H'' B \<Longrightarrow> extends H H'' (A \<union> B)"
  unfolding extends_def by (metis Un_iff)

lemma extends_items: "extends H H' A \<Longrightarrow> items H a ts \<Longrightarrow> items H' a ts"
proof (rule items_frame)
  assume e: "extends H H' A" and i: "items H a ts"
  fix q
  assume "q \<in> set (a # blocks ts)"
  then have "cells H q \<noteq> None" using i row_alloc by (auto simp: items_def)
  then show "cells H' q = cells H q" by (rule extends_dom [OF e])
qed

lemma extends_detached: "extends H H' A \<Longrightarrow> detached H c t \<Longrightarrow> detached H' c t"
  unfolding detached_def using row_frame row_alloc extends_dom by metis

lemma delete_new:
  assumes "detached H' c t" and "extends H H' (set (blocks [t]))"
  shows "\<exists>H''. cJSON_Delete H' c = ret H'' \<and> cells H'' = cells H"
  using delete_detached [OF assms(1)] extends_drop [OF assms(2)] by simp

lemma delete_again:
  assumes "detached H c t" and "extends B H (set (blocks [t]))" and "cells H' = cells H"
  shows "\<exists>H''. cJSON_Delete H' c = ret H'' \<and> cells H'' = cells B"
proof (rule delete_new)
  show "extends B H' (set (blocks [t]))" using assms(2,3) by (simp add: extends_def)
  show "detached H' c t" by (rule extends_detached [OF extends_same [OF assms(3)] assms(1)])
qed

lemma not_reference: "(ty AND NOT cJSON_IsReference) AND cJSON_IsReference = 0"
  by (simp add: and.assoc)

text \<open>A string copied into a field of a new item.\<close>

lemma dup_text_ok:
  assumes "good_malloc al" and "text_view H str s" and "cells H c = Some (Node n)"
  obtains H' p where "dup_text al H str c field = Inr (H', s = None \<or> p \<noteq> NULL)"
    "cells H' = (if s = None then cells H else
      (if p = NULL then cells H else (cells H)(p \<mapsto> Text (c_view (the s))))(c \<mapsto> Node (field p n)))"
    "p \<noteq> NULL \<longrightarrow> s \<noteq> None \<and> cells H p = None"
proof (cases s)
  case None
  with assms(2) that [of H NULL] show thesis by (simp add: dup_text_def)
next
  case (Some x)
  with assms(2) have x: "str \<noteq> NULL" "get_text H str = Inr x" by (simp_all add: text_at_ptr_def)
  from strdup_ok [OF assms(1) x(2)] obtain H1 p where d: "cj_strdup al H str = Inr (H1, p)"
    "p \<noteq> NULL \<longrightarrow> cells H p = None" "cells H1 = (if p = NULL then cells H else (cells H)(p \<mapsto> Text (c_view x)))" by blast
  have "cells H1 c = Some (Node n)" using d(2,3) assms(3) by auto
  then show thesis
    using that [of "H1\<lparr>cells := (cells H1)(c \<mapsto> Node (field p n))\<rparr>" p] d x(1) Some by (simp add: dup_text_def)
qed

lemma dup_item_ok:
  assumes "good_malloc al" and "get_item H c = Inr n" and "text_view H (n_valuestring n) vs" and "text_view H (n_string n) nm"
  obtains H' where "dup_item al H c = ret (H', NULL)" "cells H' = cells H"
  | H' p t where "dup_item al H c = ret (H', p)" "detached H' p t" "extends H H' (set (blocks [t]))"
      "abs_tree t = Item (n_type n AND NOT cJSON_IsReference) (map_option c_view vs) (n_number n) (map_option c_view nm) []"
proof -
  obtain H1 p where m: "new_item al H = (H1, p)" by fastforce
  show thesis
  proof (rule new_item_cases [OF assms(1) m])
    assume "p = NULL" "cells H1 = cells H"
    with m show thesis by (intro that(1) [of H1]) (simp_all add: dup_item_def)
  next
    let ?ty = "n_type n AND NOT cJSON_IsReference"
    let ?n2 = "zero_node\<lparr>n_type := ?ty, n_number := n_number n\<rparr>"
    assume p: "p \<noteq> NULL" "cells H p = None" "cells H1 = (cells H)(p \<mapsto> Node zero_node)"
    have e1: "extends H H1 {p}" using p(2,3) by (simp add: extends_def)
    have n1: "get_item H1 c = Inr n" using assms(2) p(2,3) by (auto simp: get_item_def)
    define H2 where "H2 = H1\<lparr>cells := (cells H1)(p \<mapsto> Node ?n2)\<rparr>"
    have s2: "set_item H1 p (\<lambda>m. m\<lparr>n_type := ?ty, n_number := n_number n\<rparr>) = Inr H2" using p(3) by (simp add: H2_def)
    have c2: "cells H2 = (cells H)(p \<mapsto> Node ?n2)" using p(3) by (simp add: H2_def)
    have e2: "extends H H2 {p}" using p(2) c2 by (simp add: extends_def)
    obtain H3 q where t3: "dup_text al H2 (n_valuestring n) p (\<lambda>x. n_valuestring_update (\<lambda>_. x)) = Inr (H3, vs = None \<or> q \<noteq> NULL)"
      "cells H3 = (if vs = None then cells H2 else
        (if q = NULL then cells H2 else (cells H2)(q \<mapsto> Text (c_view (the vs))))(p \<mapsto> Node (?n2\<lparr>n_valuestring := q\<rparr>)))"
      "q \<noteq> NULL \<longrightarrow> vs \<noteq> None \<and> cells H2 q = None"
      using dup_text_ok [OF assms(1) extends_text [OF e2 assms(3)], of p ?n2 "\<lambda>x. n_valuestring_update (\<lambda>_. x)"] c2 by auto
    let ?vs = "if q = NULL then None else Some (q, c_view (the vs))"
    define t3' where "t3' = JT p ?ty ?vs (n_number n) None []"
    have q: "q \<noteq> NULL \<longrightarrow> q \<noteq> p \<and> cells H q = None" using t3(3) c2 by (auto split: if_splits)
    have d3: "cells H3 p = Some (Node (?n2\<lparr>n_valuestring := q\<rparr>))"
      using t3(2,3) c2 by (auto simp: zero_node_def)
    have det3: "detached H3 p t3'"
      using t3(2,3) c2 p(1) q not_reference [of "n_type n"] by (auto simp: t3'_def detached_def zero_node_def)
    have e3: "extends H H3 (set (blocks [t3']))"
      using t3(2) c2 p(2) q by (auto simp: extends_def t3'_def)
    show thesis
    proof (cases "vs = None \<or> q \<noteq> NULL")
      case False
      from delete_new [OF det3 e3] obtain H4 where "cJSON_Delete H3 p = ret H4" "cells H4 = cells H" by blast
      with False m p(1) n1 s2 t3(1) show thesis by (intro that(1) [of H4]) (simp_all add: dup_item_def)
    next
      case ok: True
      obtain H5 r where t5: "dup_text al H3 (n_string n) p (\<lambda>x. n_string_update (\<lambda>_. x)) = Inr (H5, nm = None \<or> r \<noteq> NULL)"
        "cells H5 = (if nm = None then cells H3 else
          (if r = NULL then cells H3 else (cells H3)(r \<mapsto> Text (c_view (the nm))))(p \<mapsto> Node (?n2\<lparr>n_valuestring := q, n_string := r\<rparr>)))"
        "r \<noteq> NULL \<longrightarrow> nm \<noteq> None \<and> cells H3 r = None"
        using dup_text_ok [OF assms(1) extends_text [OF e3 assms(4)] d3, of "\<lambda>x. n_string_update (\<lambda>_. x)"] by auto
      let ?nm = "if r = NULL then None else Some (r, c_view (the nm))"
      define t where "t = JT p ?ty ?vs (n_number n) ?nm []"
      have tq: "q \<noteq> NULL \<longrightarrow> cells H3 q = Some (Text (c_view (the vs)))" using t3(2,3) q by auto
      have r: "r \<noteq> NULL \<longrightarrow> r \<noteq> p \<and> r \<noteq> q \<and> cells H r = None"
        using t5(3) d3 tq e3 by (auto simp: extends_def)
      have det5: "detached H5 p t"
        using t5(2,3) d3 p(1) q r tq not_reference [of "n_type n"] by (auto simp: t_def detached_def zero_node_def)
      have e5: "extends H H5 (set (blocks [t]))"
        using e3 t5(2) p(2) q r by (auto simp: extends_def t_def t3'_def)
      show thesis
      proof (cases "nm = None \<or> r \<noteq> NULL")
        case False
        from delete_new [OF det5 e5] obtain H6 where "cJSON_Delete H5 p = ret H6" "cells H6 = cells H" by blast
        with False ok m p(1) n1 s2 t3(1) t5(1) show thesis by (intro that(1) [of H6]) (simp_all add: dup_item_def)
      next
        case True
        have "dup_item al H c = ret (H5, p)"
          using ok True m p(1) n1 s2 t3(1) t5(1) by (simp add: dup_item_def)
        moreover have "abs_tree t = Item ?ty (map_option c_view vs) (n_number n) (map_option c_view nm) []"
          using ok True t3(3) t5(3) by (auto simp: t_def)
        ultimately show thesis using det5 e5 that(2) by blast
      qed
    qed
  qed
qed

text \<open>An item with its children, as an item and as the owner of its list.\<close>

lemma detached_items:
  "detached H w (JT w ty vs num nm ts) \<Longrightarrow> ty AND cJSON_IsReference = 0 \<Longrightarrow> items H w ts"
  by (auto simp: detached_def items_def split: option.splits cj_cell.splits)

lemma edited_detached:
  assumes "detached H w (JT w ty vs num nm ts)" and "ty AND cJSON_IsReference = 0" and "edited H H' w ts ts'"
    and "set (text_block vs @ text_block nm) \<inter> set (blocks ts') = {}"
  shows "detached H' w (JT w ty vs num nm ts')"
proof -
  from assms(1,2) obtain n where n: "cells H w = Some (Node n)" "n_prev n = NULL" "n_next n = NULL" "n_type n = ty" "n_number n = num"
    "text_is H (n_valuestring n) vs" "text_is H (n_string n) nm" "w \<noteq> NULL"
    by (auto simp: detached_def split: option.splits cj_cell.splits)
  have d: "distinct (w # text_block vs @ text_block nm @ blocks ts)" using assms(1) by (simp add: detached_def)
  have "text_is H' x vs = text_is H x vs" "text_is H' x nm = text_is H x nm" for x
    using d assms(3,4) by (auto intro!: text_is_cong simp: edited_def)
  moreover obtain y where y: "cells H' w = Some (Node (n\<lparr>n_child := y\<rparr>))" using assms(3) n(1) by (auto simp: edited_def)
  moreover have "row H' NULL y ts' NULL" "distinct (w # blocks ts')" using assms(3) y by (auto simp: edited_def items_def)
  ultimately show ?thesis using n assms(2,4) d by (auto simp: detached_def)
qed

lemma detached_JT: "detached H p t \<Longrightarrow> \<exists>ty vs num nm ts. t = JT p ty vs num nm ts"
  using detached_addr by (cases t) fastforce

text \<open>
  What the loop over the children \<open>js\<close> does for a new item that has the children \<open>ts\<close> already; \<open>B\<close> is
  memory before the new item was made.
\<close>

definition dup_spec :: "allocator \<Rightarrow> cjson list \<Rightarrow> bool" where
  "dup_spec al js \<longleftrightarrow> (\<forall>B H c w ty vs num nm ts.
     view H c js \<longrightarrow> detached H w (JT w ty vs num nm ts) \<longrightarrow> ty AND cJSON_IsReference = 0 \<longrightarrow>
     extends B H (set (blocks [JT w ty vs num nm ts])) \<longrightarrow> view B c js \<longrightarrow>
     (\<exists>H' ok. dup_children al H c w (last_of NULL ts) = ret (H', ok) \<and>
       (ok \<longrightarrow> (\<exists>us. map abs_tree us = copies js \<and> detached H' w (JT w ty vs num nm (ts @ us)) \<and>
          extends B H' (set (blocks [JT w ty vs num nm (ts @ us)])))) \<and>
       (\<not> ok \<longrightarrow> cells H' = cells B)))"

lemma dup_specD:
  assumes "dup_spec al js" and "view H c js" and "detached H w (JT w ty vs num nm ts)" and "ty AND cJSON_IsReference = 0"
    and "extends B H (set (blocks [JT w ty vs num nm ts]))" and "view B c js"
  obtains H' us where "dup_children al H c w (last_of NULL ts) = ret (H', True)" "map abs_tree us = copies js"
    "detached H' w (JT w ty vs num nm (ts @ us))" "extends B H' (set (blocks [JT w ty vs num nm (ts @ us)]))"
  | H' where "dup_children al H c w (last_of NULL ts) = ret (H', False)" "cells H' = cells B"
proof -
  from assms(1)[unfolded dup_spec_def, rule_format, OF assms(2-6)] obtain H' ok
    where r: "dup_children al H c w (last_of NULL ts) = ret (H', ok)"
    "ok \<longrightarrow> (\<exists>us. map abs_tree us = copies js \<and> detached H' w (JT w ty vs num nm (ts @ us)) \<and>
       extends B H' (set (blocks [JT w ty vs num nm (ts @ us)])))"
    "\<not> ok \<longrightarrow> cells H' = cells B" by blast
  show thesis
  proof (cases ok)
    case True
    with r(2) obtain us where "map abs_tree us = copies js" "detached H' w (JT w ty vs num nm (ts @ us))"
      "extends B H' (set (blocks [JT w ty vs num nm (ts @ us)]))" by blast
    with r(1) True show thesis by (intro that(1)) simp_all
  next
    case False
    with r show thesis by (intro that(2) [of H']) simp_all
  qed
qed

text \<open>\<open>p\<close> is a complete copy of \<open>j\<close> in new memory, or NULL, and then nothing is left behind.\<close>

definition copied :: "cj_heap \<Rightarrow> cj_heap \<Rightarrow> ptr \<Rightarrow> cjson \<Rightarrow> bool" where
  "copied H H' p j \<longleftrightarrow> (if p = NULL then cells H' = cells H
     else \<exists>t. detached H' p t \<and> [abs_tree t] = copies [j] \<and> extends H H' (set (blocks [t])))"

lemma duplicate_step:
  assumes "good_malloc al" and "dup_spec al (children j)" and "view H c (j # rest)"
  shows "\<exists>H' p. cJSON_Duplicate al H c 1 = ret (H', p) \<and> copied H H' p j"
proof -
  obtain ty vs num nm js where j: "j = Item ty vs num nm js" by (cases j)
  with assms(3) obtain n where n: "c \<noteq> NULL" "cells H c = Some (Node n)" "n_type n = ty" "n_number n = num"
    "text_view H (n_valuestring n) vs" "text_view H (n_string n) nm" "view H (n_child n) js"
    by (auto split: option.splits cj_cell.splits)
  have gi: "get_item H c = Inr n" using n(2) by simp
  show ?thesis
  proof (rule dup_item_ok [OF assms(1) gi n(5,6)])
    fix H1
    assume "dup_item al H c = ret (H1, NULL)" "cells H1 = cells H"
    then show ?thesis using n(1) by (simp add: cJSON_Duplicate_def copied_def)
  next
    fix H1 p t
    assume d: "dup_item al H c = ret (H1, p)" "detached H1 p t" "extends H H1 (set (blocks [t]))"
      "abs_tree t = Item (n_type n AND NOT cJSON_IsReference) (map_option c_view vs) (n_number n) (map_option c_view nm) []"
    obtain ty1 vs1 num1 nm1 where t: "t = JT p ty1 vs1 num1 nm1 []" using detached_JT [OF d(2)] d(4) by auto
    have ty1: "ty1 AND cJSON_IsReference = 0" using d(4) not_reference t by simp
    have p0: "p \<noteq> NULL" using detached_addr [OF d(2)] by simp
    have n1: "get_item H1 c = Inr n" using extends_dom [OF d(3), of c] n(2) by (intro get_item_Node) auto
    have v1: "view H1 (n_child n) js" by (rule extends_view [OF d(3) n(7)])
    have "dup_spec al js" using assms(2) j by simp
    from this v1 d(2) [unfolded t] ty1 d(3) [unfolded t] n(7) show ?thesis
    proof (rule dup_specD)
      fix H2 us
      assume "dup_children al H1 (n_child n) p (last_of NULL []) = ret (H2, True)" "map abs_tree us = copies js"
        "detached H2 p (JT p ty1 vs1 num1 nm1 ([] @ us))" "extends H H2 (set (blocks [JT p ty1 vs1 num1 nm1 ([] @ us)]))"
      moreover from this(2) have "[abs_tree (JT p ty1 vs1 num1 nm1 us)] = copies [j]" using d(4) t n(3,4) j by simp
      ultimately show ?thesis using n(1) d(1) p0 n1 by (auto simp: cJSON_Duplicate_def copied_def)
    next
      fix H2
      assume "dup_children al H1 (n_child n) p (last_of NULL []) = ret (H2, False)" "cells H2 = cells H"
      then show ?thesis using n(1) d(1) p0 n1 by (auto simp: cJSON_Duplicate_def copied_def)
    qed
  qed
qed

lemma link_copy:
  assumes "detached H w (JT w ty vs num nm ts)" and "ty AND cJSON_IsReference = 0"
    and "extends B H (set (blocks [JT w ty vs num nm ts]))" and "extends H H2 (set (blocks [t]))" and "detached H2 p t"
  obtains H3 where "(if last_of NULL ts \<noteq> NULL then suffix_object H2 (last_of NULL ts) p
      else set_item H2 w (n_child_update (\<lambda>_. p))) = Inr H3"
    "detached H3 w (JT w ty vs num nm (ts @ [t]))" "extends B H3 (set (blocks [JT w ty vs num nm (ts @ [t])]))"
proof -
  let ?T = "JT w ty vs num nm"
  have det2: "detached H2 w (?T ts)" by (rule extends_detached [OF assms(4,1)])
  have "cells H q \<noteq> None" if "q \<in> set (blocks [?T ts])" for q
    using row_alloc that assms(1) unfolding detached_def by blast
  then have dis: "set (blocks [t]) \<inter> set (blocks [?T ts]) = {}"
    using assms(4) unfolding extends_def by blast
  then have "set (blocks [t]) \<inter> set (w # blocks ts) = {}" by auto
  from link_law [OF detached_items [OF det2 assms(2)] assms(5) this] obtain H3
    where l: "(if last_of NULL ts \<noteq> NULL then suffix_object H2 (last_of NULL ts) p
      else set_item H2 w (n_child_update (\<lambda>_. p))) = Inr H3" "edited H2 H3 w ts (ts @ [t])" by blast
  have det3: "detached H3 w (?T (ts @ [t]))"
    by (rule edited_detached [OF det2 assms(2) l(2)]) (use dis det2 in \<open>auto simp: detached_def\<close>)
  have "extends B H2 (set (blocks [?T ts]) \<union> set (blocks [t]))" by (rule extends_trans [OF assms(3,4)])
  then have "extends B H3 (set (blocks [?T (ts @ [t])]))" using l(2) unfolding extends_def edited_def by auto
  with l(1) det3 that show thesis by blast
qed

lemma dup_children_ok:
  assumes "good_malloc al"
  shows "dup_spec al js"
proof (induction js rule: copies.induct)
  case 1
  then show ?case by (auto simp: dup_spec_def dup_children.simps)
next
  case (2 ty' vs' num' nm' js rest)
  let ?j = "Item ty' vs' num' nm' js"
  show ?case
    unfolding dup_spec_def
  proof (intro allI impI)
    fix B H c w ty vs num nm ts
    let ?T = "JT w ty vs num nm"
    let ?goal = "\<exists>H' ok. dup_children al H c w (last_of NULL ts) = ret (H', ok) \<and>
       (ok \<longrightarrow> (\<exists>us. map abs_tree us = copies (?j # rest) \<and> detached H' w (?T (ts @ us)) \<and>
          extends B H' (set (blocks [?T (ts @ us)])))) \<and> (\<not> ok \<longrightarrow> cells H' = cells B)"
    assume v: "view H c (?j # rest)" "view B c (?j # rest)" and det: "detached H w (?T ts)"
      and ty: "ty AND cJSON_IsReference = 0" and e: "extends B H (set (blocks [?T ts]))"
    from v(2) obtain n where n: "c \<noteq> NULL" "cells B c = Some (Node n)" "view B (n_next n) rest"
      by (auto split: option.splits cj_cell.splits)
    from duplicate_step [OF assms _ v(1)] 2(1) obtain H2 p where d: "cJSON_Duplicate al H c 1 = ret (H2, p)" "copied H H2 p ?j"
      by auto
    show ?goal
    proof (cases "p = NULL")
      case True
      with d(2) have "cells H2 = cells H" by (simp add: copied_def)
      from delete_again [OF det e this] obtain H3 where "cJSON_Delete H2 w = ret H3" "cells H3 = cells B" by blast
      with True d(1) n(1) show ?thesis by (subst dup_children_loop) auto
    next
      case False
      with d(2) obtain t where t: "detached H2 p t" "[abs_tree t] = copies [?j]" "extends H H2 (set (blocks [t]))"
        by (auto simp: copied_def)
      obtain H3 where l: "(if last_of NULL ts \<noteq> NULL then suffix_object H2 (last_of NULL ts) p
          else set_item H2 w (n_child_update (\<lambda>_. p))) = Inr H3"
        "detached H3 w (?T (ts @ [t]))" "extends B H3 (set (blocks [?T (ts @ [t])]))"
        by (rule link_copy [OF det ty e t(3,1)])
      have n3: "get_item H3 c = Inr n" using extends_dom [OF l(3), of c] n(2) by (intro get_item_Node) auto
      have v3: "view H3 (n_next n) rest" by (rule extends_view [OF l(3) n(3)])
      have p: "p = last_of NULL (ts @ [t])" using detached_addr [OF t(1)] by simp
      have step: "dup_children al H c w (last_of NULL ts) = dup_children al H3 (n_next n) w (last_of NULL (ts @ [t]))"
        unfolding p [symmetric] using n(1) d(1) False l(1) n3 by (subst dup_children_loop) simp
      from 2(2) v3 l(2) ty l(3) n(3) show ?thesis
      proof (rule dup_specD)
        fix H4 us
        assume "dup_children al H3 (n_next n) w (last_of NULL (ts @ [t])) = ret (H4, True)" "map abs_tree us = copies rest"
          "detached H4 w (?T ((ts @ [t]) @ us))" "extends B H4 (set (blocks [?T ((ts @ [t]) @ us)]))"
        moreover from this(2) have "map abs_tree (t # us) = copies (?j # rest)" using t(2) by simp
        ultimately show ?thesis unfolding step by (metis append.assoc append_Cons append_Nil)
      next
        fix H4
        assume "dup_children al H3 (n_next n) w (last_of NULL (ts @ [t])) = ret (H4, False)" "cells H4 = cells B"
        then show ?thesis unfolding step by blast
      qed
    qed
  qed
qed

lemma duplicate_law:
  assumes "good_malloc al" and "view H c (j # rest)"
  shows "\<exists>H' p. cJSON_Duplicate al H c 1 = ret (H', p) \<and> copied H H' p j"
  by (rule duplicate_step [OF assms(1) dup_children_ok [OF assms(1)] assms(2)])

section \<open>Properties\<close>

lemma text_is_view: "text_is H p x \<Longrightarrow> text_view H p (map_option snd x)"
  by (cases "(H, p, x)" rule: text_is.cases) (auto simp: text_at_ptr_def get_text_def)

fun no_refs :: "jtree list \<Rightarrow> bool" where
  "no_refs [] \<longleftrightarrow> True"
| "no_refs (JT a ty vs num nm kids # ts) \<longleftrightarrow> ty AND cJSON_IsReference = 0 \<and> no_refs kids \<and> no_refs ts"

text \<open>A tree without references is what its readers see.\<close>

lemma row_view: "row H p c ts NULL \<Longrightarrow> no_refs ts \<Longrightarrow> view H c (map abs_tree ts)"
proof (induction ts arbitrary: p c rule: no_refs.induct)
  case (2 a ty vs num nm kids ts)
  then show ?case using text_is_view [of H] by (auto split: option.splits cj_cell.splits)
qed simp



end
