(* ===== verification/CJsonBuild.thy ===== *)
theory CJsonBuild
  imports CJsonDup
begin

text \<open>
  The functions that make an array of numbers or strings in one call, and what they do when an
  allocation fails half-way.
\<close>

section \<open>Building arrays\<close>

definition built :: "cj_heap \<Rightarrow> cj_heap \<Rightarrow> ptr \<Rightarrow> int \<Rightarrow> jtree list \<Rightarrow> bool" where
  "built B H a ty ts \<longleftrightarrow> detached H a (JT a ty None None None ts) \<and>
     extends B H (set (blocks [JT a ty None None None ts]))"

text \<open>A function that makes a new item for \<open>x\<close>, the item \<open>g x\<close>, or returns NULL.\<close>

definition makes :: "(cj_heap \<Rightarrow> 'x \<Rightarrow> (cj_heap \<times> ptr) res) \<Rightarrow> ('x \<Rightarrow> cjson) \<Rightarrow> bool" where
  "makes mk g \<longleftrightarrow> (\<forall>H x. \<exists>H' p. mk H x = Inr (H', p) \<and>
     (if p = NULL then cells H' = cells H
      else \<exists>t. detached H' p t \<and> abs_tree t = g x \<and> extends H H' (set (blocks [t]))))"

lemma makesE:
  assumes "makes mk g"
  obtains H' where "mk H x = Inr (H', NULL)" "cells H' = cells H"
  | H' p t where "mk H x = Inr (H', p)" "p \<noteq> NULL" "detached H' p t" "abs_tree t = g x" "extends H H' (set (blocks [t]))"
  using assms unfolding makes_def by (metis (full_types))

lemma detached_NULL_free: "detached H p t \<Longrightarrow> NULL \<notin> set (blocks [t])"
  using blocks_not_NULL unfolding detached_def by blast

lemma built_NULL: "built B H a ty ts \<Longrightarrow> cells B NULL = None \<Longrightarrow> cells H NULL = None"
  unfolding built_def using detached_NULL_free unfolding extends_def by metis

lemma suffix_NULL:
  "cells H NULL = None \<Longrightarrow> suffix_object H NULL q = Inl (BadPtr NULL)"
  "cells H NULL = None \<Longrightarrow> cells H p = Some (Node n) \<Longrightarrow> suffix_object H p NULL = Inl (BadPtr NULL)"
  by (cases "p = NULL"; simp add: suffix_object_def set_item_def get_item_def)+

lemma makes_NULL:
  assumes "makes mk g" and "cells H NULL = None"
  obtains H' p where "mk H x = Inr (H', p)" "cells H' NULL = None"
  using makesE [OF assms(1), of H x thesis] detached_NULL_free assms(2) that unfolding extends_def by metis

lemma fill_first_failed:
  assumes "makes mk g" and "cells H NULL = None" and "1 < count" and "count \<le> 1 + int (length xs)"
  shows "fill_array mk a count 1 xs NULL H = Inl (BadPtr NULL)"
proof -
  from assms(3,4) obtain y ys where xs: "xs = y # ys" by (cases xs) auto
  obtain H' p where "mk H y = Inr (H', p)" "cells H' NULL = None" by (rule makes_NULL [OF assms(1,2)])
  with assms(3) xs show ?thesis by (simp add: suffix_NULL)
qed

lemma fill_array_ok:
  assumes "makes mk g" and "cells B NULL = None" and "ty AND cJSON_IsReference = 0"
  shows "built B H a ty ts \<Longrightarrow> i = int (length ts) \<Longrightarrow> p = last_of NULL ts \<Longrightarrow> count \<le> i + int (length xs) \<Longrightarrow>
    (\<exists>H' us. fill_array mk a count i xs p H = Inr H' \<and> map abs_tree us = map g (take (nat (count - i)) xs) \<and>
       built B H' a ty (ts @ us)) \<or>
    fill_array mk a count i xs p H = Inl (BadPtr NULL) \<or>
    (\<exists>H'. fill_array mk a count i xs p H = Inr H' \<and> i = 0 \<and> count = 1 \<and> built B H' a ty [])"
proof (induction xs arbitrary: H ts i p)
  case Nil
  then show ?case by auto
next
  case (Cons x xs)
  let ?T = "JT a ty None None None"
  note b = Cons.prems(1) [unfolded built_def]
  show ?case
  proof (cases "i < count")
    case False
    with Cons.prems(1) show ?thesis by auto
  next
    case lt: True
    obtain n where n: "cells H a = Some (Node n)" "row H NULL (n_child n) ts NULL"
      using detached_items [OF conjunct1 [OF b] assms(3)] by (auto simp: items_def)
    have H0: "cells H NULL = None" by (rule built_NULL [OF Cons.prems(1) assms(2)])
    show ?thesis
    proof (rule makesE [OF assms(1), of H x])
      fix H1
      assume m: "mk H x = Inr (H1, NULL)" "cells H1 = cells H"
      show ?thesis
      proof (cases "ts = []")
        case True
        then have i: "i = 0" "n_child n = NULL" using Cons.prems(2) n(2) by simp_all
        define H2 where "H2 = H1\<lparr>cells := (cells H1)(a \<mapsto> Node (n\<lparr>n_child := NULL\<rparr>))\<rparr>"
        have "n\<lparr>n_child := NULL\<rparr> = n" using i(2) by simp
        then have H2: "cells H2 = cells H" using m(2) n(1) by (simp add: H2_def fun_upd_idem)
        have step: "fill_array mk a count i (x # xs) p H = fill_array mk a count 1 xs NULL H2"
          using lt i(1) m n(1) by (simp add: H2_def)
        have b2: "built B H2 a ty []"
          using b H2 True extends_detached [OF extends_same [OF H2]] unfolding built_def extends_def by simp
        show ?thesis
        proof (cases "count = 1")
          case True
          then have "fill_array mk a count 1 xs NULL H2 = Inr H2" by (cases xs) auto
          with step b2 i(1) True show ?thesis by simp
        next
          case False
          have "fill_array mk a count 1 xs NULL H2 = Inl (BadPtr NULL)"
            by (rule fill_first_failed [OF assms(1)]) (use H0 H2 lt i(1) False Cons.prems(4) in auto)
          with step show ?thesis by simp
        qed
      next
        case False
        with n(2) obtain ln where "cells H p = Some (Node ln)"
          unfolding Cons.prems(3) by (cases ts rule: rev_cases) (auto simp: row_append elim: row_node)
        then have "suffix_object H1 p NULL = Inl (BadPtr NULL)" using m(2) H0 by (intro suffix_NULL) simp_all
        with lt m(1) False Cons.prems(2) show ?thesis by simp
      qed
    next
      fix H1 q t
      assume m: "mk H x = Inr (H1, q)" "q \<noteq> NULL" "detached H1 q t" "abs_tree t = g x" "extends H H1 (set (blocks [t]))"
      obtain H3 where l: "(if last_of NULL ts \<noteq> NULL then suffix_object H1 (last_of NULL ts) q
          else set_item H1 a (n_child_update (\<lambda>_. q))) = Inr H3"
        "detached H3 a (?T (ts @ [t]))" "extends B H3 (set (blocks [?T (ts @ [t])]))"
        by (rule link_copy [OF conjunct1 [OF b] assms(3) conjunct2 [OF b] m(5,3)])
      have "last_of NULL ts = NULL \<longleftrightarrow> i = 0"
        using last_of_not_NULL [OF n(2), of NULL] Cons.prems(2) by (cases "ts = []") auto
      then have step: "fill_array mk a count i (x # xs) p H = fill_array mk a count (i + 1) xs q H3"
        using lt m(1) l(1) Cons.prems(3) by auto
      have b3: "built B H3 a ty (ts @ [t])" using l(2,3) by (simp add: built_def)
      have q: "q = last_of NULL (ts @ [t])" using detached_addr [OF m(3)] by simp
      have nn: "nat (count - i) = Suc (nat (count - (i + 1)))" using lt by simp
      have IH: "(\<exists>H' us. fill_array mk a count (i + 1) xs q H3 = Inr H' \<and> map abs_tree us = map g (take (nat (count - (i + 1))) xs) \<and>
          built B H' a ty ((ts @ [t]) @ us)) \<or> fill_array mk a count (i + 1) xs q H3 = Inl (BadPtr NULL) \<or>
          (\<exists>H'. fill_array mk a count (i + 1) xs q H3 = Inr H' \<and> i + 1 = 0 \<and> count = 1 \<and> built B H' a ty [])"
        by (rule Cons.IH [OF b3 _ q]) (use Cons.prems(2,4) in auto)
      moreover have "i + 1 \<noteq> 0" using Cons.prems(2) by simp
      moreover have "map abs_tree (t # us) = map g (take (nat (count - i)) (x # xs))"
        if "map abs_tree us = map g (take (nat (count - (i + 1))) xs)" for us
        using that m(4) nn by simp
      ultimately show ?thesis unfolding step by (metis append.assoc append_Cons append_Nil)
    qed
  qed
qed

lemma create_item_ok:
  assumes "good_malloc al"
  obtains H' where "create_item al H f = Inr (H', NULL)" "cells H' = cells H"
  | H' p where "create_item al H f = Inr (H', p)" "p \<noteq> NULL" "cells H p = None" "cells H' = (cells H)(p \<mapsto> Node (f zero_node))"
proof -
  obtain H1 p where m: "new_item al H = (H1, p)" by fastforce
  show thesis
  proof (rule new_item_cases [OF assms m])
    assume "p = NULL" "cells H1 = cells H"
    with m show thesis by (intro that(1) [of H1]) (simp_all add: create_item_def)
  next
    assume "p \<noteq> NULL" "cells H p = None" "cells H1 = (cells H)(p \<mapsto> Node zero_node)"
    with m show thesis
      by (intro that(2) [of "H1\<lparr>cells := (cells H1)(p \<mapsto> Node (f zero_node))\<rparr>" p]) (simp_all add: create_item_def)
  qed
qed

definition number_item :: "decimal_number \<Rightarrow> cjson" where
  "number_item d = Item cJSON_Number None (Some d) None []"

lemma create_number_makes:
  assumes "good_malloc al"
  shows "makes (\<lambda>H x. cJSON_CreateNumber al H (f x)) (\<lambda>x. number_item (f x))"
  unfolding makes_def
proof (intro allI)
  fix H x
  let ?t = "\<lambda>p. JT p cJSON_Number None (Some (f x)) None []"
  show "\<exists>H' p. cJSON_CreateNumber al H (f x) = Inr (H', p) \<and>
      (if p = NULL then cells H' = cells H
       else \<exists>t. detached H' p t \<and> abs_tree t = number_item (f x) \<and> extends H H' (set (blocks [t])))"
  proof (rule create_item_ok [OF assms, of H "\<lambda>n. n\<lparr>n_type := cJSON_Number, n_number := Some (f x)\<rparr>"])
    fix H'
    assume "create_item al H (\<lambda>n. n\<lparr>n_type := cJSON_Number, n_number := Some (f x)\<rparr>) = Inr (H', NULL)" "cells H' = cells H"
    then show ?thesis by (auto simp: cJSON_CreateNumber_def)
  next
    fix H' p
    assume c: "create_item al H (\<lambda>n. n\<lparr>n_type := cJSON_Number, n_number := Some (f x)\<rparr>) = Inr (H', p)" "p \<noteq> NULL"
      "cells H p = None" "cells H' = (cells H)(p \<mapsto> Node (zero_node\<lparr>n_type := cJSON_Number, n_number := Some (f x)\<rparr>))"
    then have "detached H' p (?t p)" "extends H H' (set (blocks [?t p]))" "abs_tree (?t p) = number_item (f x)"
      by (auto simp: detached_def extends_def zero_node_def cJSON_Number_def cJSON_IsReference_def number_item_def)
    with c(1,2) show ?thesis unfolding cJSON_CreateNumber_def by auto
  qed
qed

lemma create_array_law:
  assumes "good_malloc al" and "makes mk g" and "cells H NULL = None" and "0 \<le> count" and "count \<le> int (length xs)"
  shows "create_array_of mk al H xs count = Inl (BadPtr NULL) \<or>
    (\<exists>H' a. create_array_of mk al H xs count = Inr (H', a) \<and>
      (if a = NULL then cells H' = cells H
       else \<exists>ts. built H H' a cJSON_Array ts \<and> (map abs_tree ts = map g (take (nat count) xs) \<or> count = 1 \<and> ts = [])))"
proof (rule create_item_ok [OF assms(1), of H "n_type_update (\<lambda>_. cJSON_Array)"])
  fix H'
  assume "create_item al H (n_type_update (\<lambda>_. cJSON_Array)) = Inr (H', NULL)" "cells H' = cells H"
  then show ?thesis by (auto simp: create_array_of_def cJSON_CreateArray_def)
next
  fix H' a
  assume c: "create_item al H (n_type_update (\<lambda>_. cJSON_Array)) = Inr (H', a)" "a \<noteq> NULL"
    "cells H a = None" "cells H' = (cells H)(a \<mapsto> Node (zero_node\<lparr>n_type := cJSON_Array\<rparr>))"
  then have b: "built H H' a cJSON_Array []"
    by (auto simp: built_def detached_def extends_def zero_node_def cJSON_Array_def cJSON_IsReference_def)
  have ty: "cJSON_Array AND cJSON_IsReference = 0" by (simp add: cJSON_Array_def cJSON_IsReference_def)
  have run: "create_array_of mk al H xs count = bindR (fill_array mk a count 0 xs NULL H') (\<lambda>H. Inr (H, a))"
    using c(1,2) by (simp add: create_array_of_def cJSON_CreateArray_def)
  from fill_array_ok [OF assms(2,3) ty b, of 0 NULL count xs] assms(5)
  consider H2 us where "fill_array mk a count 0 xs NULL H' = Inr H2" "map abs_tree us = map g (take (nat count) xs)"
      "built H H2 a cJSON_Array us"
    | "fill_array mk a count 0 xs NULL H' = Inl (BadPtr NULL)"
    | H2 where "fill_array mk a count 0 xs NULL H' = Inr H2" "count = 1" "built H H2 a cJSON_Array []" by auto
  then show ?thesis
  proof cases
    case 1
    with run c(2) show ?thesis by (intro disjI2 exI [of _ H2] exI [of _ a]) auto
  next
    case 2
    with run show ?thesis by simp
  next
    case 3
    with run c(2) show ?thesis by (intro disjI2 exI [of _ H2] exI [of _ a]) auto
  qed
qed

section \<open>Properties\<close>


text \<open>Both outcomes of a failing allocation.\<close>

definition two_allocations :: allocator where
  "two_allocations H n = (if calls H < 2 then ex_malloc H n else NULL)"

lemma create_int_array_crashes: "cJSON_CreateIntArray two_allocations ex_cj_heap [7, 8] 2 = Inl (BadPtr NULL)"
  by (simp add: cJSON_CreateIntArray_def create_array_of_def cJSON_CreateArray_def create_item_def cJSON_CreateNumber_def
      new_item_def cj_malloc_def two_allocations_def ex_malloc_def ex_cj_heap_def Let_def suffix_object_def set_item_def
      get_item_def)


end
