(* ===== verification/CJsonTypes.thy ===== *)
theory CJsonTypes
  imports CJsonPrint
begin

text \<open>
  What \<^verbatim>\<open>cJSON_Parse\<close> of \<^verbatim>\<open>src/src/cJSON.c\<close> returns on any text at all: an item
  whose fields agree with its type all the way down, or an error position inside the text.
  A small calculus for the parsers carries the proof, one rule per way to combine them.
\<close>

section \<open>Well-typed items\<close>

fun well_typed :: "cjson \<Rightarrow> bool" where
  "well_typed (Item ty vs nu nm cs) \<longleftrightarrow>
     cJSON_False \<le> ty \<and> ty \<le> cJSON_Object \<and>
     (vs \<noteq> None \<longleftrightarrow> ty = cJSON_String) \<and>
     (nu \<noteq> None \<longleftrightarrow> ty = cJSON_Number) \<and>
     (cs \<noteq> [] \<longrightarrow> ty = cJSON_Array \<or> ty = cJSON_Object) \<and>
     (\<forall>c \<in> set cs. well_typed c \<and> (cj_name c \<noteq> None \<longleftrightarrow> ty = cJSON_Object))"

definition value_item :: "cjson \<Rightarrow> bool" where
  "value_item x \<longleftrightarrow> well_typed x \<and> cj_name x = None"

definition member_item :: "cjson \<Rightarrow> bool" where
  "member_item x \<longleftrightarrow> well_typed x \<and> cj_name x \<noteq> None"

lemma value_items:
  "value_item (Item cJSON_NULL None None None [])" "value_item (Item cJSON_False None None None [])"
  "value_item (Item cJSON_True None None None [])" "value_item (Item cJSON_String (Some s) None None [])"
  "value_item (Item cJSON_Number None (Some d) None [])"
  "list_all value_item cs \<Longrightarrow> value_item (Item cJSON_Array None None None cs)"
  "list_all member_item cs \<Longrightarrow> value_item (Item cJSON_Object None None None cs)"
  by (auto simp: value_item_def member_item_def cJSON_types list_all_iff)

lemma member_item_name: "value_item x \<Longrightarrow> member_item (set_name s x)"
  by (cases x) (simp add: value_item_def member_item_def set_name_def)

text \<open>The error position, \<^verbatim>\<open>ep\<close>, as the caller can ask for it: NULL when the parser succeeded.\<close>

definition cJSON_GetErrorPtr :: "'a parse \<Rightarrow> nat option" where
  "cJSON_GetErrorPtr r = (case r of Failed e \<Rightarrow> Some e | _ \<Rightarrow> None)"

section \<open>A calculus for the parsers\<close>

text \<open>
  \<open>yields m lo P r\<close>: if \<open>r\<close> is a result, it has \<open>P\<close> and ends at or after \<open>lo\<close>; if it is
  an error, its position is in the text at or after \<open>lo\<close>.
\<close>

definition yields :: "u8 list \<Rightarrow> nat \<Rightarrow> ('a \<Rightarrow> bool) \<Rightarrow> 'a parse \<Rightarrow> bool" where
  "yields m lo P r \<longleftrightarrow>
     (\<forall>x q. r = Parsed x q \<longrightarrow> P x \<and> lo \<le> q) \<and> (\<forall>e. r = Failed e \<longrightarrow> lo \<le> e \<and> e < length m)"

lemma yields_simps [simp]:
  "yields m lo P (Undef u)" "yields m lo P NoFuel"
  "yields m lo P (Parsed x q) \<longleftrightarrow> P x \<and> lo \<le> q" "yields m lo P (Failed e) \<longleftrightarrow> lo \<le> e \<and> e < length m"
  by (auto simp: yields_def)

named_theorems yields_rules

lemma yields_tryR [yields_rules]: "(\<And>x. r = Inr x \<Longrightarrow> yields m lo P (f x)) \<Longrightarrow> yields m lo P (tryR r f)"
  by (cases r) auto

lemma yields_bindP:
  "yields m lo Q r \<Longrightarrow> (\<And>x q. Q x \<Longrightarrow> lo \<le> q \<Longrightarrow> yields m lo P (f x q)) \<Longrightarrow> yields m lo P (bindP r f)"
  by (cases r) auto

lemma yields_if [yields_rules]:
  "(b \<Longrightarrow> yields m lo P r) \<Longrightarrow> (\<not> b \<Longrightarrow> yields m lo P s) \<Longrightarrow> yields m lo P (if b then r else s)"
  by simp

lemma skip_le: "skip m p = Inr q \<Longrightarrow> lo \<le> p \<Longrightarrow> lo \<le> q"
  using skip_bounds [of m p q] by simp

lemma yields_string: "lo \<le> p \<Longrightarrow> yields m lo (\<lambda>_. True) (parse_string m p)"
  unfolding parse_string_def
  by (intro yields_rules) (auto simp: rd8_Inr_iff dest!: unescape_bounds split: prod.splits intro!: yields_rules)

lemmas yields_bind_string = yields_bindP [OF yields_string]

section \<open>The parsers\<close>

text \<open>What is asked of the parser of values that the others are given.\<close>

definition parses_items :: "u8 list \<Rightarrow> (nat \<Rightarrow> cjson parse) \<Rightarrow> bool" where
  "parses_items m pv \<longleftrightarrow> (\<forall>lo p. lo \<le> p \<longrightarrow> yields m lo value_item (pv p))"

lemma parses_itemsD: "parses_items m pv \<Longrightarrow> lo \<le> p \<Longrightarrow> yields m lo value_item (pv p)"
  by (simp add: parses_items_def)

lemmas yields_bind_value = yields_bindP [OF parses_itemsD]

lemma array_loop_yields:
  "parses_items m pv \<Longrightarrow> lo \<le> p \<Longrightarrow> list_all value_item cs \<Longrightarrow>
   yields m lo (list_all value_item) (array_loop k pv m p cs)"
proof (induction k arbitrary: p cs)
  case (Suc k)
  show ?case
    unfolding array_loop.simps
  proof (intro yields_rules yields_bind_value [OF Suc.prems(1)])
    fix c p1 x q p2
    assume "skip m (p + 1) = Inr p1" "value_item x" "lo \<le> q" "skip m q = Inr p2"
    with Suc.prems show "yields m lo (list_all value_item) (array_loop k pv m p2 (cs @ [x]))"
      by (intro Suc.IH) (auto dest: skip_le)
  qed (use Suc.prems in \<open>auto simp: rd8_Inr_iff dest!: skip_bounds\<close>)
qed simp

lemma parse_array_yields:
  assumes "parses_items m pv" and "lo \<le> p"
  shows "yields m lo value_item (parse_array pv m p)"
  unfolding parse_array_def
proof (intro yields_rules yields_bind_value [OF assms(1)] yields_bindP [OF array_loop_yields [OF assms(1)]])
  fix cs q
  assume "list_all value_item cs" "lo \<le> q"
  then show "yields m lo value_item (Parsed (Item cJSON_Array None None None cs) q)" by (simp add: value_items)
qed (use assms(2) in \<open>auto simp: rd8_Inr_iff value_items(6) [of "[]", simplified] dest!: skip_bounds\<close>)

lemma parse_member_yields:
  assumes "parses_items m pv" and "lo \<le> p"
  shows "yields m lo member_item (parse_member pv m p)"
  unfolding parse_member_def
proof (intro yields_rules yields_bind_string yields_bind_value [OF assms(1)])
  fix x q p'
  assume "value_item x" "lo \<le> q" "skip m q = Inr p'"
  then show "yields m lo member_item (Parsed (set_name s x) p')" for s
    by (auto simp: member_item_name dest: skip_le)
qed (use assms(2) in \<open>auto simp: rd8_Inr_iff dest!: skip_bounds\<close>)

lemma object_loop_yields:
  "parses_items m pv \<Longrightarrow> lo \<le> p \<Longrightarrow> list_all member_item cs \<Longrightarrow>
   yields m lo (list_all member_item) (object_loop k pv m p cs)"
proof (induction k arbitrary: p cs)
  case (Suc k)
  show ?case
    unfolding object_loop.simps
  proof (intro yields_rules yields_bindP [OF parse_member_yields [OF Suc.prems(1)]])
    fix x q
    assume "member_item x" "lo \<le> q"
    with Suc.prems show "yields m lo (list_all member_item) (object_loop k pv m q (cs @ [x]))"
      by (intro Suc.IH) auto
  qed (use Suc.prems in \<open>auto simp: rd8_Inr_iff\<close>)
qed simp

lemma parse_object_yields:
  assumes "parses_items m pv" and "lo \<le> p"
  shows "yields m lo value_item (parse_object pv m p)"
  unfolding parse_object_def
proof (intro yields_rules yields_bindP [OF parse_member_yields [OF assms(1)]] yields_bindP [OF object_loop_yields [OF assms(1)]])
  fix cs q
  assume "list_all member_item cs" "lo \<le> q"
  then show "yields m lo value_item (Parsed (Item cJSON_Object None None None cs) q)" by (simp add: value_items)
qed (use assms(2) in \<open>auto simp: rd8_Inr_iff value_items(7) [of "[]", simplified] dest!: skip_bounds\<close>)

lemma parse_value_yields: "parses_items m (parse_value n m)"
proof (induction n)
  case 0
  then show ?case by (simp add: parses_items_def)
next
  case (Suc n)
  have "yields m lo value_item (parse_value (Suc n) m p)" if "lo \<le> p" for lo p
    unfolding parse_value.simps
  proof (intro yields_rules yields_bind_string parse_array_yields [OF Suc.IH] parse_object_yields [OF Suc.IH])
    fix c dq
    assume "rd8 m p = Inr c" "c = 0x2D \<or> is_digit c" "parse_number m p = Inr dq"
    then have "p < snd dq" using parse_number_bounds [of m p "fst dq" "snd dq"] by (auto simp: rd8_Inr_iff)
    with that show "yields m lo value_item (case dq of (d, q) \<Rightarrow> Parsed (Item cJSON_Number None (Some d) None []) q)"
      by (cases dq) (simp add: value_items)
  qed (use that in \<open>auto simp: rd8_Inr_iff value_items\<close>)
  then show ?case unfolding parses_items_def by blast
qed

lemma cJSON_ParseWithOpts_yields: "yields m p value_item (cJSON_ParseWithOpts m p nul)"
  unfolding cJSON_ParseWithOpts_def
  by (intro yields_rules yields_bind_value [OF parse_value_yields]) (auto simp: rd8_Inr_iff dest!: skip_bounds)

section \<open>Parsing, then printing\<close>

text \<open>
  A parsed item whose numbers are C integers and whose strings have no NUL inside is what
  the printer prints faithfully.
\<close>

fun plain :: "cjson \<Rightarrow> bool" where
  "plain (Item ty vs nu nm cs) \<longleftrightarrow>
     (\<forall>d. nu = Some d \<longrightarrow> (\<exists>i. d = Dec i 0 \<and> int_range i)) \<and> (\<forall>s. vs = Some s \<longrightarrow> 0 \<notin> set s) \<and>
     (\<forall>n. nm = Some n \<longrightarrow> 0 \<notin> set n) \<and> (\<forall>c \<in> set cs. plain c)"

lemma plain_name: "plain x \<Longrightarrow> cj_name x = Some n \<Longrightarrow> 0 \<notin> set n"
  by (cases x) simp

lemma well_typed_printable: "well_typed x \<Longrightarrow> plain x \<Longrightarrow> printable x"
proof (induction x)
  case (Item ty vs nu nm cs)
  have kids: "\<forall>c \<in> set cs. printable c \<and> (cj_name c \<noteq> None \<longleftrightarrow> ty = cJSON_Object) \<and> (\<forall>n. cj_name c = Some n \<longrightarrow> 0 \<notin> set n)"
    using Item plain_name by auto
  have "ty = cJSON_False \<or> ty = cJSON_True \<or> ty = cJSON_NULL \<or> ty = cJSON_Number \<or> ty = cJSON_String \<or>
      ty = cJSON_Array \<or> ty = cJSON_Object"
    using Item.prems(1) by (auto simp: cJSON_types)
  then show ?case
    using Item.prems kids by (elim disjE) (auto simp: cJSON_types)
qed

lemma cJSON_parse_print_parse:
  assumes "cJSON_Parse m p = Parsed x q" and "plain x"
    and "cJSON_Print ok x = Inr (Some t) \<or> cJSON_PrintUnformatted ok x = Inr (Some t)"
  shows "cJSON_Parse (t @ [0]) 0 = Parsed x (length t)"
proof -
  have "value_item x"
    using cJSON_ParseWithOpts_yields [of m p False] assms(1) by (simp add: cJSON_Parse_def yields_def)
  then have "json_text x t"
    using print_value_text [OF well_typed_printable [OF _ assms(2)]] assms(3)
    unfolding value_item_def cJSON_Print_def cJSON_PrintUnformatted_def unnamed_def by (cases x) auto
  moreover have "num_stop 0" by (simp add: num_stop_def is_digit_def)
  ultimately show ?thesis using json_parse_run [OF _ ws_Nil, of x t "t @ [0]" 0]
    by (simp add: text_at_def rd8_def cJSON_Parse_def cJSON_ParseWithOpts_def del: parse_value.simps)
qed

section \<open>Properties\<close>

lemma result_typed:
  shows "\<forall>x q. cJSON_ParseWithOpts m p nul = Parsed x q \<longrightarrow> well_typed x \<and> cj_name x = None"
    and "\<forall>e. cJSON_GetErrorPtr (cJSON_ParseWithOpts m p nul) = Some e \<longrightarrow> p \<le> e \<and> e < length m"
  using cJSON_ParseWithOpts_yields [of m p nul]
  by (auto simp: yields_def value_item_def cJSON_GetErrorPtr_def split: parse.splits)

text \<open>C22: Whatever the text, what cJSON_Parse and cJSON_ParseWithOpts return is typed: an item they return has one of the
  seven types, a string exactly if it is a string, a number exactly if it is a number, children only if it is an array
  or an object, all of them typed the same way and named exactly if they are members of an object, and it has no name
  itself; when they return NULL the position cJSON_GetErrorPtr reports lies in the text they were given.\<close>
theorem cJSON_Parse_result_typed:
  shows "(\<forall>x q. cJSON_ParseWithOpts m p nul = Parsed x q \<longrightarrow> well_typed x \<and> cj_name x = None) \<and>
    (\<forall>e. cJSON_GetErrorPtr (cJSON_ParseWithOpts m p nul) = Some e \<longrightarrow> p \<le> e \<and> e < length m)"
  by (intro conjI result_typed)

theorem cJSON_Parse_result_typed_witness:
  "(\<exists>x q. cJSON_ParseWithOpts (bytes_of ''[[1,null],true]'' @ [0]) 0 True = Parsed x q \<and> well_typed x) \<and>
   (\<exists>e. cJSON_GetErrorPtr (cJSON_ParseWithOpts (bytes_of ''[[1,nul],true]'' @ [0]) 0 True) = Some e \<and> e < 15)"
proof -
  have "case cJSON_ParseWithOpts (bytes_of ''[[1,null],true]'' @ [0]) 0 True of Parsed x q \<Rightarrow> True | _ \<Rightarrow> False" by code_simp
  then have "\<exists>x q. cJSON_ParseWithOpts (bytes_of ''[[1,null],true]'' @ [0]) 0 True = Parsed x q"
    by (cases "cJSON_ParseWithOpts (bytes_of ''[[1,null],true]'' @ [0]) 0 True") simp_all
  moreover have "cJSON_GetErrorPtr (cJSON_ParseWithOpts (bytes_of ''[[1,nul],true]'' @ [0]) 0 True) = Some 4" by code_simp
  moreover have "length (bytes_of ''[[1,nul],true]'' @ [0 :: u8]) = 15" by simp
  ultimately show ?thesis using cJSON_Parse_result_typed by fastforce
qed

end
