(* ===== verification/CJsonParseHeap.thy ===== *)
theory CJsonParseHeap
  imports CJsonDup CJsonTypes
begin

text \<open>
  The parser of \<^verbatim>\<open>src/src/cJSON.c\<close> as it runs: it allocates an item, fills it, links it and goes
  on, so that a failure, of the text or of \<^verbatim>\<open>malloc\<close>, leaves a half-built tree for the caller to
  delete. What it does is compared step by step with the parser of \<^verbatim>\<open>CJson\<close>, which builds a value.
\<close>

section \<open>The parser\<close>

text \<open>
  A parsing function is given memory and the global \<^verbatim>\<open>ep\<close> (\<open>None\<close> for NULL), and returns both with
  the position after what it read, \<open>None\<close> for NULL. \<open>bindV\<close> is \<^verbatim>\<open>value = f (...); if (!value) return 0;\<close>
\<close>

type_synonym parsing = "(cj_heap \<times> nat option \<times> nat option) run"

definition bindV :: "parsing \<Rightarrow> (cj_heap \<Rightarrow> nat option \<Rightarrow> nat \<Rightarrow> parsing) \<Rightarrow> parsing" where
  "bindV m f = bindO m (\<lambda>(H, ep, value). case value of None \<Rightarrow> ret (H, ep, None) | Some p \<Rightarrow> f H ep p)"

type_synonym value_parser = "cj_heap \<Rightarrow> nat option \<Rightarrow> ptr \<Rightarrow> nat \<Rightarrow> parsing"

definition heap_parse_number :: "u8 list \<Rightarrow> value_parser" where
  "heap_parse_number m H ep item p =
     bindO (Some (parse_number m p)) (\<lambda>(d, q).
     bindO (Some (set_item H item (\<lambda>n. n\<lparr>n_number := Some d, n_type := cJSON_Number\<rparr>))) (\<lambda>H.
     ret (H, ep, Some q)))"

text \<open>The buffer is a block of its own until it is written; a failing \<^verbatim>\<open>malloc\<close> does not set \<^verbatim>\<open>ep\<close>.\<close>

definition heap_parse_string :: "allocator \<Rightarrow> u8 list \<Rightarrow> value_parser" where
  "heap_parse_string al m H ep item p =
     bindO (Some (rd8 m p)) (\<lambda>c.
     if c \<noteq> CH_QUOTE then ret (H, Some p, None)
     else bindO (Some (count_string m (p + 1) 0)) (\<lambda>len.
       let (H, out) = cj_malloc al H (len + 1) (Text []) in
       if out = NULL then ret (H, ep, None)
       else bindO (Some (unescape m (len + 1) (p + 1) [] None None)) (\<lambda>(w, q).
         bindO (Some (put_bytes (len + 1) w [0])) (\<lambda>_.
         let H = H\<lparr>cells := (cells H)(out \<mapsto> Text w)\<rparr> in
         bindO (Some (rd8 m q)) (\<lambda>c.
         bindO (Some (set_item H item (\<lambda>n. n\<lparr>n_valuestring := out, n_type := cJSON_String\<rparr>))) (\<lambda>H.
         ret (H, ep, Some (if c = CH_QUOTE then q + 1 else q))))))))"

text \<open>\<open>k\<close> bounds the number of members, \<open>child\<close> is the item read last.\<close>

primrec heap_array_loop :: "nat \<Rightarrow> value_parser \<Rightarrow> allocator \<Rightarrow> u8 list \<Rightarrow> value_parser" where
  "heap_array_loop 0 pv al m H ep child p = None"
| "heap_array_loop (Suc k) pv al m H ep child p =
     bindO (Some (rd8 m p)) (\<lambda>c.
     if c = 0x2C then
       (let (H, new) = new_item al H in
        if new = NULL then ret (H, ep, None)
        else bindO (Some (suffix_object H child new)) (\<lambda>H.
          bindO (Some (skip m (p + 1))) (\<lambda>p.
          bindV (pv H ep new p) (\<lambda>H ep p.
          bindO (Some (skip m p)) (\<lambda>p. heap_array_loop k pv al m H ep new p)))))
     else if c = 0x5D then ret (H, ep, Some (p + 1))
     else ret (H, Some p, None))"

definition heap_parse_array :: "value_parser \<Rightarrow> allocator \<Rightarrow> u8 list \<Rightarrow> value_parser" where
  "heap_parse_array pv al m H ep item p =
     bindO (Some (rd8 m p)) (\<lambda>c.
     if c \<noteq> 0x5B then ret (H, Some p, None)
     else bindO (Some (set_item H item (n_type_update (\<lambda>_. cJSON_Array)))) (\<lambda>H.
       bindO (Some (skip m (p + 1))) (\<lambda>p.
       bindO (Some (rd8 m p)) (\<lambda>c.
       if c = 0x5D then ret (H, ep, Some (p + 1))
       else (let (H, child) = new_item al H in
         bindO (Some (set_item H item (n_child_update (\<lambda>_. child)))) (\<lambda>H.
         if child = NULL then ret (H, ep, None)
         else bindO (Some (skip m p)) (\<lambda>p.
           bindV (pv H ep child p) (\<lambda>H ep p.
           bindO (Some (skip m p)) (\<lambda>p. heap_array_loop (length m) pv al m H ep child p)))))))))"

text \<open>A member: the text read as the value of \<open>child\<close> becomes its name, and the value is read.\<close>

definition heap_parse_member :: "value_parser \<Rightarrow> allocator \<Rightarrow> u8 list \<Rightarrow> value_parser" where
  "heap_parse_member pv al m H ep child p =
     bindO (Some (skip m p)) (\<lambda>p.
     bindV (heap_parse_string al m H ep child p) (\<lambda>H ep p.
     bindO (Some (skip m p)) (\<lambda>p.
     bindO (Some (set_item H child (\<lambda>n. n\<lparr>n_string := n_valuestring n, n_valuestring := NULL\<rparr>))) (\<lambda>H.
     bindO (Some (rd8 m p)) (\<lambda>c.
     if c \<noteq> 0x3A then ret (H, Some p, None)
     else bindO (Some (skip m (p + 1))) (\<lambda>p.
       bindV (pv H ep child p) (\<lambda>H ep p.
       bindO (Some (skip m p)) (\<lambda>p. ret (H, ep, Some p)))))))))"

primrec heap_object_loop :: "nat \<Rightarrow> value_parser \<Rightarrow> allocator \<Rightarrow> u8 list \<Rightarrow> value_parser" where
  "heap_object_loop 0 pv al m H ep child p = None"
| "heap_object_loop (Suc k) pv al m H ep child p =
     bindO (Some (rd8 m p)) (\<lambda>c.
     if c = 0x2C then
       (let (H, new) = new_item al H in
        if new = NULL then ret (H, ep, None)
        else bindO (Some (suffix_object H child new)) (\<lambda>H.
          bindV (heap_parse_member pv al m H ep new (p + 1)) (\<lambda>H ep p.
          heap_object_loop k pv al m H ep new p)))
     else if c = 0x7D then ret (H, ep, Some (p + 1))
     else ret (H, Some p, None))"

definition heap_parse_object :: "value_parser \<Rightarrow> allocator \<Rightarrow> u8 list \<Rightarrow> value_parser" where
  "heap_parse_object pv al m H ep item p =
     bindO (Some (rd8 m p)) (\<lambda>c.
     if c \<noteq> 0x7B then ret (H, Some p, None)
     else bindO (Some (set_item H item (n_type_update (\<lambda>_. cJSON_Object)))) (\<lambda>H.
       bindO (Some (skip m (p + 1))) (\<lambda>p.
       bindO (Some (rd8 m p)) (\<lambda>c.
       if c = 0x7D then ret (H, ep, Some (p + 1))
       else (let (H, child) = new_item al H in
         bindO (Some (set_item H item (n_child_update (\<lambda>_. child)))) (\<lambda>H.
         if child = NULL then ret (H, ep, None)
         else bindV (heap_parse_member pv al m H ep child p) (\<lambda>H ep p.
           heap_object_loop (length m) pv al m H ep child p)))))))"

text \<open>The first argument bounds the nesting, as it does for \<open>parse_value\<close>.\<close>

primrec heap_parse_value :: "nat \<Rightarrow> allocator \<Rightarrow> u8 list \<Rightarrow> value_parser" where
  "heap_parse_value 0 al m H ep item p = None"
| "heap_parse_value (Suc n) al m H ep item p =
     bindO (Some (starts_with m p (bytes_of ''null''))) (\<lambda>b.
     if b then bindO (Some (set_item H item (n_type_update (\<lambda>_. cJSON_NULL)))) (\<lambda>H. ret (H, ep, Some (p + 4)))
     else bindO (Some (starts_with m p (bytes_of ''false''))) (\<lambda>b.
     if b then bindO (Some (set_item H item (n_type_update (\<lambda>_. cJSON_False)))) (\<lambda>H. ret (H, ep, Some (p + 5)))
     else bindO (Some (starts_with m p (bytes_of ''true''))) (\<lambda>b.
     if b then bindO (Some (set_item H item (n_type_update (\<lambda>_. cJSON_True)))) (\<lambda>H. ret (H, ep, Some (p + 4)))
     else bindO (Some (rd8 m p)) (\<lambda>c.
     if c = CH_QUOTE then heap_parse_string al m H ep item p
     else if c = 0x2D \<or> is_digit c then heap_parse_number m H ep item p
     else if c = 0x5B then heap_parse_array (heap_parse_value n al m) al m H ep item p
     else if c = 0x7B then heap_parse_object (heap_parse_value n al m) al m H ep item p
     else ret (H, Some p, None)))))"

text \<open>
  The result is memory, \<^verbatim>\<open>ep\<close>, the item, and what is stored through \<^verbatim>\<open>return_parse_end\<close>, if anything.
\<close>

definition heap_ParseWithOpts ::
    "allocator \<Rightarrow> u8 list \<Rightarrow> cj_heap \<Rightarrow> nat \<Rightarrow> bool \<Rightarrow> (cj_heap \<times> nat option \<times> ptr \<times> nat option) run" where
  "heap_ParseWithOpts al m H value require_null_terminated =
     (let (H, c) = new_item al H; ep = None in
      if c = NULL then ret (H, ep, NULL, None)
      else bindO (Some (skip m value)) (\<lambda>p.
        bindO (heap_parse_value (Suc (length m)) al m H ep c p) (\<lambda>(H, ep, end).
        case end of
          None \<Rightarrow> bindO (cJSON_Delete H c) (\<lambda>H. ret (H, ep, NULL, None))
        | Some q \<Rightarrow>
            if require_null_terminated then
              bindO (Some (skip m q)) (\<lambda>q.
              bindO (Some (rd8 m q)) (\<lambda>e.
              if e \<noteq> 0 then bindO (cJSON_Delete H c) (\<lambda>H. ret (H, Some q, NULL, None))
              else ret (H, ep, c, Some q)))
            else ret (H, ep, c, Some q))))"

definition heap_Parse :: "allocator \<Rightarrow> u8 list \<Rightarrow> cj_heap \<Rightarrow> nat \<Rightarrow> (cj_heap \<times> nat option \<times> ptr) run" where
  "heap_Parse al m H value =
     bindO (heap_ParseWithOpts al m H value False) (\<lambda>(H, ep, c, _). ret (H, ep, c))"

section \<open>Items that grow\<close>

text \<open>\<open>own H pr u\<close>: the item \<open>u\<close> is in memory, the last of its chain, after the item at \<open>pr\<close>.\<close>

definition own :: "cj_heap \<Rightarrow> ptr \<Rightarrow> jtree \<Rightarrow> bool" where
  "own H pr u \<longleftrightarrow> row H pr (jt_addr u) [u] NULL \<and> distinct (blocks [u])"

text \<open>
  \<open>grows H H' pr u t\<close>: the item \<open>u\<close> has become \<open>t\<close>; it has kept its blocks, its new ones were free, and
  nothing else is changed.
\<close>

definition grows :: "cj_heap \<Rightarrow> cj_heap \<Rightarrow> ptr \<Rightarrow> jtree \<Rightarrow> jtree \<Rightarrow> bool" where
  "grows H H' pr u t \<longleftrightarrow> own H' pr t \<and> jt_addr t = jt_addr u \<and> set (blocks [u]) \<subseteq> set (blocks [t]) \<and>
     (\<forall>q. q \<notin> set (blocks [t]) \<longrightarrow> cells H' q = cells H q) \<and>
     (\<forall>q \<in> set (blocks [t]) - set (blocks [u]). cells H q = None) \<and> calls H \<le> calls H'"

text \<open>
  A \<^verbatim>\<open>malloc\<close> between \<open>H\<close> and \<open>H'\<close> returned NULL, in a memory that differs from \<open>H\<close> in finitely many places.
\<close>

definition near :: "cj_heap \<Rightarrow> cj_heap \<Rightarrow> bool" where
  "near H K \<longleftrightarrow> finite {q. cells K q \<noteq> cells H q}"

definition denied :: "allocator \<Rightarrow> cj_heap \<Rightarrow> cj_heap \<Rightarrow> bool" where
  "denied al H H' \<longleftrightarrow> (\<exists>K n. near H K \<and> calls H \<le> calls K \<and> calls K < calls H' \<and> al K n = NULL)"

lemma near_trans: "near H K \<Longrightarrow> near K L \<Longrightarrow> near H L"
  unfolding near_def by (rule finite_subset [of _ "{q. cells K q \<noteq> cells H q} \<union> {q. cells L q \<noteq> cells K q}"]) auto

lemma near_refl [simp]: "near H H"
  by (simp add: near_def)

lemma grows_own: "grows H H' pr u t \<Longrightarrow> own H' pr t"
  by (simp add: grows_def)

lemma grows_near: "grows H H' pr u t \<Longrightarrow> near H H'"
  unfolding grows_def near_def by (rule finite_subset [of _ "set (blocks [t])"]) auto

lemma grows_refl: "own H pr u \<Longrightarrow> grows H H pr u u"
  by (simp add: grows_def)

lemma grows_trans:
  assumes "grows H K pr u t" and "grows K L pr t v"
  shows "grows H L pr u v"
proof -
  have "cells L q = cells H q" if "q \<notin> set (blocks [v])" for q
    using assms that unfolding grows_def by (metis subsetD)
  moreover have "cells H q = None" if "q \<in> set (blocks [v]) - set (blocks [u])" for q
    using assms that unfolding grows_def by (metis Diff_iff)
  ultimately show ?thesis using assms unfolding grows_def by auto
qed

lemma grows_calls: "grows H H' pr u t \<Longrightarrow> calls H \<le> calls H'"
  by (simp add: grows_def)

lemma denied_before:
  assumes "near H K" and "calls H \<le> calls K" and "denied al K L"
  shows "denied al H L"
proof -
  from assms(3) obtain M n where m: "near K M" "calls K \<le> calls M" "calls M < calls L" "al M n = NULL"
    by (auto simp: denied_def)
  have "near H M" by (rule near_trans [OF assms(1) m(1)])
  moreover have "calls H \<le> calls M" using assms(2) m(2) by simp
  ultimately show ?thesis using m(3,4) unfolding denied_def by blast
qed

lemma denied_later: "grows H K pr u t \<Longrightarrow> denied al K L \<Longrightarrow> denied al H L"
  by (rule denied_before [OF grows_near grows_calls])

lemma denied_now: "al H n = NULL \<Longrightarrow> calls H < calls L \<Longrightarrow> denied al H L"
  unfolding denied_def using near_refl by blast

lemma own_node:
  assumes "own H pr (JT a ty vs num nm kids)"
  obtains n where "cells H a = Some (Node n)" "n_prev n = pr" "n_next n = NULL" "n_type n = ty" "n_number n = num"
    "text_is H (n_string n) nm" "a \<noteq> NULL"
    "ty AND cJSON_IsReference = 0 \<longrightarrow> text_is H (n_valuestring n) vs \<and> row H NULL (n_child n) kids NULL"
  using assms by (auto simp: own_def split: option.splits cj_cell.splits)

text \<open>Giving an item without children its value, with \<open>v\<close> the block allocated for it, if any.\<close>

lemma grows_set:
  assumes "own H pr (JT a ty None num nm [])" and "ty AND cJSON_IsReference = 0" and "ty' AND cJSON_IsReference = 0"
    and "cells H a = Some (Node n)" and "cells H' = (cells H)(a \<mapsto> Node (n\<lparr>n_number := num', n_type := ty'\<rparr>))"
    and "calls H \<le> calls H'"
  shows "grows H H' pr (JT a ty None num nm []) (JT a ty' None num' nm [])"
proof -
  have "text_is H' q nm = text_is H q nm" for q
    using assms(1,5) by (intro text_is_cong) (auto simp: own_def)
  then show ?thesis using assms by (auto simp: grows_def own_def)
qed

lemma grows_type:
  assumes "own H pr (JT a ty None num nm [])" and "ty AND cJSON_IsReference = 0" and "ty' AND cJSON_IsReference = 0"
  obtains H' where "set_item H a (n_type_update (\<lambda>_. ty')) = Inr H'"
    "grows H H' pr (JT a ty None num nm []) (JT a ty' None num nm [])"
proof -
  obtain n where n: "cells H a = Some (Node n)" "n_number n = num" by (rule own_node [OF assms(1)])
  have "n\<lparr>n_number := num, n_type := ty'\<rparr> = n\<lparr>n_type := ty'\<rparr>" using n(2) by (cases n) simp
  then have "grows H (H\<lparr>cells := (cells H)(a \<mapsto> Node (n\<lparr>n_type := ty'\<rparr>))\<rparr>) pr (JT a ty None num nm []) (JT a ty' None num nm [])"
    by (intro grows_set [OF assms n(1), of _ num]) simp_all
  with n(1) that show thesis by simp
qed

text \<open>A string read into the item, and the value made the name.\<close>

lemma grows_string:
  assumes "own H pr (JT a ty None None nm [])" and "ty AND cJSON_IsReference = 0" and "cells H a = Some (Node n)"
    and "cells H out = None" and "out \<noteq> NULL" and "calls H \<le> calls H'"
    and "cells H' = (cells H)(out \<mapsto> Text w, a \<mapsto> Node (n\<lparr>n_valuestring := out, n_type := cJSON_String\<rparr>))"
  shows "grows H H' pr (JT a ty None None nm []) (JT a cJSON_String (Some (out, w)) None nm [])"
proof -
  have o: "out \<notin> set (blocks [JT a ty None None nm []])"
    using assms(1,4) row_alloc unfolding own_def by blast
  then have "text_is H' q nm = text_is H q nm" for q
    using assms(1,7) by (intro text_is_cong) (auto simp: own_def)
  moreover have "cJSON_String AND cJSON_IsReference = 0" by (simp add: cJSON_String_def cJSON_IsReference_def)
  ultimately show ?thesis using assms o by (auto simp: grows_def own_def)
qed

lemma grows_name:
  assumes "own H pr (JT a ty (Some (q, s)) num None [])" and "ty AND cJSON_IsReference = 0" and "cells H a = Some (Node n)"
    and "cells H' = (cells H)(a \<mapsto> Node (n\<lparr>n_string := n_valuestring n, n_valuestring := NULL\<rparr>))" and "calls H \<le> calls H'"
  shows "grows H H' pr (JT a ty (Some (q, s)) num None []) (JT a ty None num (Some (q, s)) [])"
  using assms by (auto simp: grows_def own_def)

section \<open>Children\<close>

lemma own_items: "own H pr (JT a ty vs num nm ts) \<Longrightarrow> ty AND cJSON_IsReference = 0 \<Longrightarrow> items H a ts"
  by (auto simp: own_def items_def split: option.splits cj_cell.splits)

text \<open>The item at \<open>a\<close> with other children.\<close>

lemma own_edited:
  assumes "own H pr (JT a ty vs num nm ts)" and "ty AND cJSON_IsReference = 0" and "edited H H' a ts ts'"
    and "set (text_block vs @ text_block nm) \<inter> set (blocks ts') = {}"
  shows "own H' pr (JT a ty vs num nm ts')"
proof -
  obtain n where n: "cells H a = Some (Node n)" "n_prev n = pr" "n_next n = NULL" "n_type n = ty" "n_number n = num"
    "text_is H (n_string n) nm" "a \<noteq> NULL"
    "ty AND cJSON_IsReference = 0 \<longrightarrow> text_is H (n_valuestring n) vs \<and> row H NULL (n_child n) ts NULL"
    by (rule own_node [OF assms(1)])
  have d: "distinct (a # text_block vs @ text_block nm @ blocks ts)" using assms(1) by (simp add: own_def)
  have "text_is H' x vs = text_is H x vs" "text_is H' x nm = text_is H x nm" for x
    using d assms(3,4) by (auto intro!: text_is_cong simp: edited_def)
  moreover obtain y where y: "cells H' a = Some (Node (n\<lparr>n_child := y\<rparr>))" using assms(3) n(1) by (auto simp: edited_def)
  moreover have "row H' NULL y ts' NULL" "distinct (a # blocks ts')" using assms(3) y by (auto simp: edited_def items_def)
  ultimately show ?thesis using n assms(2,4) d by (auto simp: own_def)
qed

lemma set_item_calls: "set_item H p f = Inr H' \<Longrightarrow> calls H' = calls H"
  by (auto simp: set_item_def bindR_Inr_iff)

lemma suffix_object_calls: "suffix_object H p c = Inr H' \<Longrightarrow> calls H' = calls H"
  by (auto simp: suffix_object_def bindR_Inr_iff dest!: set_item_calls)

lemma new_item_calls: "new_item al H = (H1, w) \<Longrightarrow> calls H1 = Suc (calls H) \<and> w = al H SIZEOF_CJSON"
  by (auto simp: new_item_def cj_malloc_def Let_def)

text \<open>A new item at the end of the chain of children.\<close>

definition fresh_item :: "ptr \<Rightarrow> jtree" where
  "fresh_item w = JT w 0 None None None []"

lemma grows_link:
  assumes "own H pr (JT a ty vs num nm ts)" and "ty AND cJSON_IsReference = 0"
    and "cells H w = None" and "w \<noteq> NULL" and "cells H1 = (cells H)(w \<mapsto> Node zero_node)" and "calls H \<le> calls H1"
  obtains H2 where "(if last_of NULL ts \<noteq> NULL then suffix_object H1 (last_of NULL ts) w
      else set_item H1 a (n_child_update (\<lambda>_. w))) = Inr H2"
    "grows H H2 pr (JT a ty vs num nm ts) (JT a ty vs num nm (ts @ [fresh_item w]))"
proof -
  let ?T = "JT a ty vs num nm" and ?t = "fresh_item w"
  have w: "w \<notin> set (blocks [?T ts])" using assms(1,3) row_alloc unfolding own_def by blast
  have "row H1 pr a [?T ts] NULL"
    by (rule row_frame [of H]) (use assms(1,5) w in \<open>auto simp: own_def\<close>)
  then have o1: "own H1 pr (?T ts)" using assms(1) by (simp add: own_def)
  have det: "detached H1 w ?t" using assms(4,5) by (simp add: detached_def fresh_item_def zero_node_def)
  have dis: "set (blocks [?t]) \<inter> set (a # blocks ts) = {}" using w by (simp add: fresh_item_def)
  from link_law [OF own_items [OF o1 assms(2)] det dis] obtain H2
    where l: "(if last_of NULL ts \<noteq> NULL then suffix_object H1 (last_of NULL ts) w
      else set_item H1 a (n_child_update (\<lambda>_. w))) = Inr H2" "edited H1 H2 a ts (ts @ [?t])" by blast
  have "own H2 pr (?T (ts @ [?t]))"
    by (rule own_edited [OF o1 assms(2) l(2)]) (use o1 w in \<open>auto simp: own_def fresh_item_def\<close>)
  moreover have "calls H \<le> calls H2"
    using l(1) assms(6) by (auto split: if_splits dest!: suffix_object_calls set_item_calls)
  moreover have "cells H2 q = cells H q" if "q \<notin> set (blocks [?T (ts @ [?t])])" for q
    using that l(2) assms(5) by (auto simp: edited_def fresh_item_def)
  ultimately have "grows H H2 pr (?T ts) (?T (ts @ [?t]))"
    using assms(3) by (auto simp: grows_def fresh_item_def)
  with l(1) that show thesis by blast
qed

text \<open>What the last child does, its parent does.\<close>

lemma own_last:
  assumes "own H pr (JT a ty vs num nm (ts @ [u]))" and "ty AND cJSON_IsReference = 0"
  shows "own H (last_of NULL ts) u"
proof -
  obtain n where "cells H a = Some (Node n)" "n_prev n = pr" "n_next n = NULL" "n_type n = ty" "n_number n = num"
    "text_is H (n_string n) nm" "a \<noteq> NULL"
    "ty AND cJSON_IsReference = 0 \<longrightarrow> text_is H (n_valuestring n) vs \<and> row H NULL (n_child n) (ts @ [u]) NULL"
    by (rule own_node [OF assms(1)])
  then have "row H (last_of NULL ts) (jt_addr u) [u] NULL" using assms(2) by (simp add: row_append)
  moreover have "distinct (blocks [u])" using assms(1) by (auto simp: own_def)
  ultimately show ?thesis by (simp add: own_def)
qed

lemma grows_last:
  assumes "own H pr (JT a ty vs num nm (ts @ [u]))" and "ty AND cJSON_IsReference = 0" and "grows H H' (last_of NULL ts) u t"
  shows "grows H H' pr (JT a ty vs num nm (ts @ [u])) (JT a ty vs num nm (ts @ [t]))"
proof -
  let ?T = "JT a ty vs num nm"
  have old: "q \<notin> set (blocks [t])" if "q \<in> set (a # text_block vs @ text_block nm @ blocks ts)" for q
  proof -
    have "q \<in> set (blocks [?T (ts @ [u])])" using that by auto
    then have "cells H q \<noteq> None" using assms(1) row_alloc unfolding own_def by blast
    moreover have "q \<notin> set (blocks [u])" using that assms(1) by (auto simp: own_def)
    ultimately show ?thesis using assms(3) unfolding grows_def by (metis DiffI)
  qed
  have same: "cells H' q = cells H q" if "q \<in> set (a # text_block vs @ text_block nm @ blocks ts)" for q
    using old [OF that] assms(3) unfolding grows_def by blast
  obtain n where n: "cells H a = Some (Node n)" "n_prev n = pr" "n_next n = NULL" "n_type n = ty" "n_number n = num"
    "text_is H (n_string n) nm" "a \<noteq> NULL"
    "ty AND cJSON_IsReference = 0 \<longrightarrow> text_is H (n_valuestring n) vs \<and> row H NULL (n_child n) (ts @ [u]) NULL"
    by (rule own_node [OF assms(1)])
  have "text_is H' x vs = text_is H x vs" "text_is H' x nm = text_is H x nm" for x
    using same by (auto intro!: text_is_cong)
  moreover have "row H' NULL (n_child n) ts (jt_addr u)"
    by (rule row_frame [of H]) (use n(8) assms(2) same in \<open>auto simp: row_append\<close>)
  moreover have "row H' (last_of NULL ts) (jt_addr t) [t] NULL" "jt_addr t = jt_addr u" "distinct (blocks [t])"
    using assms(3) by (auto simp: grows_def own_def)
  moreover have "distinct (a # text_block vs @ text_block nm @ blocks ts)" using assms(1) by (auto simp: own_def)
  moreover have "cells H' a = cells H a" using same by simp
  ultimately have "own H' pr (?T (ts @ [t]))"
    using n assms(2) old by (auto simp: own_def row_append)
  then show ?thesis using assms(3) by (auto simp: grows_def)
qed

section \<open>Agreement with the parser of values\<close>

text \<open>
  \<open>agrees al H ep pr u Q r R\<close>: the run \<open>R\<close>, which begins in \<open>H\<close> on the item \<open>u\<close>, does what \<open>r\<close> says. The
  item grows; if \<open>R\<close> returns a position, \<open>r\<close> is a result at it, in relation \<open>Q\<close> with the item; if it
  returns NULL, \<open>r\<close> is an error at the position \<^verbatim>\<open>ep\<close> now has, or \<^verbatim>\<open>ep\<close> is untouched and a
  \<^verbatim>\<open>malloc\<close> has failed.
\<close>

definition agrees ::
    "allocator \<Rightarrow> cj_heap \<Rightarrow> nat option \<Rightarrow> ptr \<Rightarrow> jtree \<Rightarrow> ('a \<Rightarrow> jtree \<Rightarrow> bool) \<Rightarrow> 'a parse \<Rightarrow> parsing \<Rightarrow> bool" where
  "agrees al H ep pr u Q r R \<longleftrightarrow> (case R of
     None \<Rightarrow> r = NoFuel
   | Some (Inl b) \<Rightarrow> r = Undef b
   | Some (Inr (H', ep', value)) \<Rightarrow> \<exists>t. grows H H' pr u t \<and>
       (case value of
          Some p \<Rightarrow> (\<exists>x. r = Parsed x p \<and> Q x t) \<and> ep' = ep
        | None \<Rightarrow> (\<exists>e. r = Failed e \<and> ep' = Some e) \<or> denied al H H' \<and> ep' = ep))"

lemma agrees_simps [simp]:
  "agrees al H ep pr u Q r None \<longleftrightarrow> r = NoFuel"
  "agrees al H ep pr u Q r (Some (Inl b)) \<longleftrightarrow> r = Undef b"
  by (simp_all add: agrees_def)

text \<open>The rules: one for each way a parsing function goes on.\<close>

lemma agrees_done: "own H pr u \<Longrightarrow> Q x u \<Longrightarrow> agrees al H ep pr u Q (Parsed x p) (ret (H, ep, Some p))"
  by (auto simp: agrees_def intro: grows_refl)

lemma agrees_error: "own H pr u \<Longrightarrow> agrees al H ep pr u Q (Failed p) (ret (H, Some p, None))"
  by (auto simp: agrees_def intro: grows_refl)

lemma agrees_denied: "own H pr u \<Longrightarrow> denied al H H' \<Longrightarrow> cells H' = cells H \<Longrightarrow> agrees al H ep pr u Q r (ret (H', ep, None))"
  using row_frame [of H pr "jt_addr u" "[u]" NULL H']
  by (auto simp: agrees_def grows_def own_def denied_def intro!: exI [of _ u])

lemma agrees_tryR: "(\<And>x. r = Inr x \<Longrightarrow> agrees al H ep pr u Q (f x) (F x)) \<Longrightarrow> agrees al H ep pr u Q (tryR r f) (bindO (Some r) F)"
  by (cases r) auto

lemma agrees_if:
  "(b \<Longrightarrow> agrees al H ep pr u Q r R) \<Longrightarrow> (\<not> b \<Longrightarrow> agrees al H ep pr u Q s S) \<Longrightarrow>
    agrees al H ep pr u Q (if b then r else s) (if b then R else S)"
  by simp

lemma agrees_step:
  assumes "grows H K pr u t" and "agrees al K ep pr t Q r R"
  shows "agrees al H ep pr u Q r R"
  using assms(2) grows_trans [OF assms(1)] denied_later [OF assms(1)]
  unfolding agrees_def by (fastforce split: option.splits sum.splits)

lemma agrees_bind:
  assumes "agrees al H ep pr u Q r R"
    and "\<And>x p t K. Q x t \<Longrightarrow> grows H K pr u t \<Longrightarrow> agrees al K ep pr t Q' (f x p) (F K ep p)"
  shows "agrees al H ep pr u Q' (bindP r f) (bindV R F)"
proof (cases "\<exists>K ep' p. R = ret (K, ep', Some p)")
  case True
  then obtain K ep' p where R: "R = ret (K, ep', Some p)" by blast
  with assms(1) obtain x t where "grows H K pr u t" "r = Parsed x p" "Q x t" "ep' = ep" by (auto simp: agrees_def)
  with assms(2) R show ?thesis by (auto simp: bindV_def intro: agrees_step)
next
  case False
  with assms(1) show ?thesis
    by (auto simp: agrees_def bindV_def split: option.splits sum.splits)
qed

lemma agrees_weaken:
  assumes "agrees al H ep pr u Q r R" and "\<And>x t. Q x t \<Longrightarrow> Q' x t"
  shows "agrees al H ep pr u Q' r R"
  using assms unfolding agrees_def by (fastforce split: option.splits sum.splits)

lemma agrees_last:
  assumes "agrees al H ep (last_of NULL ts) u Q r R" and "own H pr (JT a ty vs num nm (ts @ [u]))" and "ty AND cJSON_IsReference = 0"
  shows "agrees al H ep pr (JT a ty vs num nm (ts @ [u])) (\<lambda>x t'. \<exists>t. t' = JT a ty vs num nm (ts @ [t]) \<and> jt_addr t = jt_addr u \<and> Q x t) r R"
proof -
  have g: "grows H H' pr (JT a ty vs num nm (ts @ [u])) (JT a ty vs num nm (ts @ [t])) \<and> jt_addr t = jt_addr u"
    if "grows H H' (last_of NULL ts) u t" for H' t
    using grows_last [OF assms(2,3) that] that unfolding grows_def by blast
  show ?thesis using assms(1) g unfolding agrees_def by (fastforce split: option.splits sum.splits)
qed

text \<open>What is asked of the parser of values that the others are given.\<close>

definition with_name :: "(ptr \<times> u8 list) option \<Rightarrow> cjson \<Rightarrow> cjson" where
  "with_name nm x = Item (cj_type x) (valuestring x) (number x) (map_option snd nm) (children x)"

definition fills :: "allocator \<Rightarrow> (nat \<Rightarrow> cjson parse) \<Rightarrow> value_parser \<Rightarrow> bool" where
  "fills al pv hpv \<longleftrightarrow> (\<forall>H ep pr w ty nm p. own H pr (JT w ty None None nm []) \<longrightarrow> ty AND cJSON_IsReference = 0 \<longrightarrow>
     agrees al H ep pr (JT w ty None None nm []) (\<lambda>x t. abs_tree t = with_name nm x \<and> cj_name x = None) (pv p) (hpv H ep w p))"

lemma fillsD:
  assumes "fills al pv hpv" and "own H pr (JT w ty None None nm [])" and "ty AND cJSON_IsReference = 0"
  shows "agrees al H ep pr (JT w ty None None nm []) (\<lambda>x t. abs_tree t = with_name nm x \<and> cj_name x = None) (pv p) (hpv H ep w p)"
  using assms unfolding fills_def by blast

lemma fresh_fills:
  assumes "fills al pv hpv" and "own H pr (fresh_item w)"
  shows "agrees al H ep pr (fresh_item w) (\<lambda>x t. abs_tree t = x) (pv p) (hpv H ep w p)"
proof -
  have "with_name None x = x" if "cj_name x = None" for x using that by (cases x) (simp add: with_name_def)
  then show ?thesis unfolding fresh_item_def
    by (intro agrees_weaken [OF fillsD [OF assms(1) assms(2) [unfolded fresh_item_def]]]) auto
qed

section \<open>Strings and numbers\<close>

lemma cJSON_types_plain:
  "cJSON_False AND cJSON_IsReference = 0" "cJSON_True AND cJSON_IsReference = 0" "cJSON_NULL AND cJSON_IsReference = 0"
  "cJSON_Number AND cJSON_IsReference = 0" "cJSON_String AND cJSON_IsReference = 0"
  "cJSON_Array AND cJSON_IsReference = 0" "cJSON_Object AND cJSON_IsReference = 0"
  by (simp_all add: cJSON_types cJSON_IsReference_def)

lemma heap_parse_number_agrees:
  assumes "own H pr (JT a ty None None nm [])" and "ty AND cJSON_IsReference = 0"
  shows "agrees al H ep pr (JT a ty None None nm []) (\<lambda>x t. abs_tree t = with_name nm x \<and> cj_name x = None)
    (tryR (parse_number m p) (\<lambda>(d, q). Parsed (Item cJSON_Number None (Some d) None []) q)) (heap_parse_number m H ep a p)"
proof -
  obtain n where n: "cells H a = Some (Node n)" by (rule own_node [OF assms(1)])
  show ?thesis
    unfolding heap_parse_number_def
  proof (rule agrees_tryR)
    fix dq :: "decimal_number \<times> nat"
    obtain d q where dq: "dq = (d, q)" by fastforce
    let ?H = "H\<lparr>cells := (cells H)(a \<mapsto> Node (n\<lparr>n_number := Some d, n_type := cJSON_Number\<rparr>))\<rparr>"
    have g: "grows H ?H pr (JT a ty None None nm []) (JT a cJSON_Number None (Some d) nm [])"
      by (rule grows_set [OF assms cJSON_types_plain(4) n]) simp_all
    from n show "agrees al H ep pr (JT a ty None None nm []) (\<lambda>x t. abs_tree t = with_name nm x \<and> cj_name x = None)
      (case dq of (d, q) \<Rightarrow> Parsed (Item cJSON_Number None (Some d) None []) q)
      (case dq of (d, q) \<Rightarrow> bindO (Some (set_item H a (\<lambda>n. n\<lparr>n_number := Some d, n_type := cJSON_Number\<rparr>))) (\<lambda>H. ret (H, ep, Some q)))"
      by (auto simp: dq with_name_def intro!: agrees_step [OF g] agrees_done grows_own [OF g])
  qed
qed

lemma heap_parse_string_agrees:
  assumes "good_malloc al" and "own H pr (JT a ty None None nm [])" and "ty AND cJSON_IsReference = 0"
  shows "agrees al H ep pr (JT a ty None None nm []) (\<lambda>s t. \<exists>q. t = JT a cJSON_String (Some (q, s)) None nm [])
    (parse_string m p) (heap_parse_string al m H ep a p)"
proof -
  let ?u = "JT a ty None None nm []" and ?Q = "\<lambda>s t. \<exists>q. t = JT a cJSON_String (Some (q, s)) None nm []"
  obtain n where n: "cells H a = Some (Node n)" by (rule own_node [OF assms(2)])
  show ?thesis
    unfolding parse_string_def heap_parse_string_def
  proof (intro agrees_tryR agrees_if agrees_error assms(2))
    fix len
    obtain H1 out where m: "cj_malloc al H (len + 1) (Text []) = (H1, out)" by fastforce
    have c1: "calls H1 = Suc (calls H)" "out = al H (len + 1)" using m by (auto simp: cj_malloc_def Let_def)
    show "agrees al H ep pr ?u ?Q
      (tryR (unescape m (len + 1) (p + 1) [] None None) (\<lambda>(w, q). tryR (put_bytes (len + 1) w [0]) (\<lambda>_. tryR (rd8 m q) (\<lambda>c.
         Parsed w (if c = CH_QUOTE then q + 1 else q)))))
      (let (H, out) = cj_malloc al H (len + 1) (Text []) in if out = NULL then ret (H, ep, None)
       else bindO (Some (unescape m (len + 1) (p + 1) [] None None)) (\<lambda>(w, q).
         bindO (Some (put_bytes (len + 1) w [0])) (\<lambda>_. let H = H\<lparr>cells := (cells H)(out \<mapsto> Text w)\<rparr> in
         bindO (Some (rd8 m q)) (\<lambda>c. bindO (Some (set_item H a (\<lambda>n. n\<lparr>n_valuestring := out, n_type := cJSON_String\<rparr>))) (\<lambda>H.
         ret (H, ep, Some (if c = CH_QUOTE then q + 1 else q)))))))"
    proof (rule malloc_cases [OF assms(1) m])
      assume "out = NULL" "cells H1 = cells H"
      moreover from this have "denied al H H1" using c1 by (intro denied_now [of al H "len + 1"]) simp_all
      ultimately show ?thesis using m by (simp add: agrees_denied assms(2))
    next
      assume o: "out \<noteq> NULL" "cells H out = None" "cells H1 = (cells H)(out \<mapsto> Text [])"
      have a: "a \<noteq> out" using n o(2) by auto
      let ?H = "\<lambda>w. H1\<lparr>cells := (cells H)(out \<mapsto> Text w, a \<mapsto> Node (n\<lparr>n_valuestring := out, n_type := cJSON_String\<rparr>))\<rparr>"
      have g: "grows H (?H w) pr ?u (JT a cJSON_String (Some (out, w)) None nm [])" for w
        by (rule grows_string [OF assms(2,3) n o(2,1)]) (simp_all add: c1(1))
      have s: "set_item (H1\<lparr>cells := (cells H1)(out \<mapsto> Text w)\<rparr>) a (\<lambda>n. n\<lparr>n_valuestring := out, n_type := cJSON_String\<rparr>) = Inr (?H w)" for w
        using n o(3) a by (simp add: set_item_def get_item_def)
      have fin: "agrees al H ep pr ?u ?Q (Parsed w p') (ret (?H w, ep, Some p'))" for w p'
        by (rule agrees_step [OF g agrees_done [OF grows_own [OF g]]]) simp
      show ?thesis
        using m o(1) by (auto simp: Let_def s intro!: agrees_tryR fin)
    qed
  qed
qed

end
