(* ===== verification/CJsonParseTree.thy ===== *)
theory CJsonParseTree
  imports CJsonParseHeap
begin

text \<open>
  The parser on the pointer structure refines the parser of values: the loops, the values and
  \<^verbatim>\<open>cJSON_ParseWithOpts\<close> with its deletion of what a failure has left.
\<close>

section \<open>Arrays and objects\<close>

text \<open>The next child: allocated, linked, and read by \<open>R\<close>.\<close>

definition named_kids :: "ptr \<Rightarrow> int \<Rightarrow> (ptr \<times> u8 list) option \<Rightarrow> cjson list \<Rightarrow> jtree \<Rightarrow> bool" where
  "named_kids a ty nm cs t \<longleftrightarrow> (\<exists>ts. t = JT a ty None None nm ts \<and> map abs_tree ts = cs)"

lemma last_of_append: "last_of p (ts @ [t]) = jt_addr t"
  by simp

lemma link_next:
  assumes "good_malloc al" and "own H pr (JT a ty None None nm ts)" and "ty AND cJSON_IsReference = 0"
    and "ts \<noteq> []"
    and "\<And>K w. w \<noteq> NULL \<Longrightarrow> own K pr (JT a ty None None nm (ts @ [fresh_item w])) \<Longrightarrow>
      agrees al K ep pr (JT a ty None None nm (ts @ [fresh_item w])) Q r (R K w)"
  shows "agrees al H ep pr (JT a ty None None nm ts) Q r
    (let (H, new) = new_item al H in if new = NULL then ret (H, ep, None)
     else bindO (Some (suffix_object H (last_of NULL ts) new)) (\<lambda>H. R H new))"
proof -
  obtain H1 w where m: "new_item al H = (H1, w)" by fastforce
  note c = new_item_calls [OF m]
  show ?thesis
  proof (rule new_item_cases [OF assms(1) m])
    assume "w = NULL" "cells H1 = cells H"
    moreover from this have "denied al H H1" using c by (intro denied_now [of al H SIZEOF_CJSON]) simp_all
    ultimately show ?thesis using m by (simp add: agrees_denied assms(2))
  next
    assume w: "w \<noteq> NULL" "cells H w = None" "cells H1 = (cells H)(w \<mapsto> Node zero_node)"
    from c have "calls H \<le> calls H1" by simp
    from grows_link [OF assms(2,3) w(2,1,3) this] obtain K where
      K: "(if last_of NULL ts \<noteq> NULL then suffix_object H1 (last_of NULL ts) w
        else set_item H1 a (n_child_update (\<lambda>_. w))) = Inr K"
      "grows H K pr (JT a ty None None nm ts) (JT a ty None None nm (ts @ [fresh_item w]))" .
    have "last_of NULL ts \<noteq> NULL"
      using own_items [OF assms(2,3)] assms(4) last_of_not_NULL unfolding items_def by blast
    with K(1) have "suffix_object H1 (last_of NULL ts) w = Inr K" by simp
    with m w(1) show ?thesis by (simp add: agrees_step [OF K(2) assms(5) [OF w(1) grows_own [OF K(2)]]])
  qed
qed

lemma link_first:
  assumes "good_malloc al" and "own H pr (JT a ty None None nm [])" and "ty AND cJSON_IsReference = 0"
    and "\<And>K w. w \<noteq> NULL \<Longrightarrow> own K pr (JT a ty None None nm [fresh_item w]) \<Longrightarrow>
      agrees al K ep pr (JT a ty None None nm [fresh_item w]) Q r (R K w)"
  shows "agrees al H ep pr (JT a ty None None nm []) Q r
    (let (H, child) = new_item al H in
     bindO (Some (set_item H a (n_child_update (\<lambda>_. child)))) (\<lambda>H.
     if child = NULL then ret (H, ep, None) else R H child))"
proof -
  obtain H1 w where m: "new_item al H = (H1, w)" by fastforce
  note c = new_item_calls [OF m]
  obtain n where n: "cells H a = Some (Node n)" "n_prev n = pr" "n_next n = NULL" "n_type n = ty" "n_number n = None"
    "text_is H (n_string n) nm" "a \<noteq> NULL"
    "ty AND cJSON_IsReference = 0 \<longrightarrow> text_is H (n_valuestring n) None \<and> row H NULL (n_child n) [] NULL"
    by (rule own_node [OF assms(2)])
  show ?thesis
  proof (rule new_item_cases [OF assms(1) m])
    assume w: "w = NULL" "cells H1 = cells H"
    have "n\<lparr>n_child := NULL\<rparr> = n" using n(8) assms(3) by (cases n) simp
    then have "set_item H1 a (n_child_update (\<lambda>_. NULL)) = Inr H1"
      using n(1) w(2) by (simp add: set_item_def get_item_def fun_upd_idem)
    moreover have "denied al H H1" using c w by (intro denied_now [of al H SIZEOF_CJSON]) simp_all
    ultimately show ?thesis using m w by (simp add: agrees_denied assms(2))
  next
    assume w: "w \<noteq> NULL" "cells H w = None" "cells H1 = (cells H)(w \<mapsto> Node zero_node)"
    from c have "calls H \<le> calls H1" by simp
    from grows_link [OF assms(2,3) w(2,1,3) this] obtain K where
      K: "(if last_of NULL [] \<noteq> NULL then suffix_object H1 (last_of NULL []) w
        else set_item H1 a (n_child_update (\<lambda>_. w))) = Inr K"
      "grows H K pr (JT a ty None None nm []) (JT a ty None None nm ([] @ [fresh_item w]))" .
    have "own K pr (JT a ty None None nm [fresh_item w])" using grows_own [OF K(2)] by simp
    from assms(4) [OF w(1) this] K m w(1) show ?thesis by (auto intro: agrees_step)
  qed
qed

text \<open>A child read by \<open>R\<close>, and then the rest of the loop.\<close>

lemma agrees_child:
  assumes "own H pr (JT a ty None None nm (ts @ [u]))" and "ty AND cJSON_IsReference = 0"
    and "agrees al H ep (last_of NULL ts) u (\<lambda>x t. abs_tree t = x) r R"
    and "\<And>x p t K. abs_tree t = x \<Longrightarrow> jt_addr t = jt_addr u \<Longrightarrow> own K pr (JT a ty None None nm (ts @ [t])) \<Longrightarrow>
      agrees al K ep pr (JT a ty None None nm (ts @ [t])) Q (f x p) (F K ep p)"
  shows "agrees al H ep pr (JT a ty None None nm (ts @ [u])) Q (bindP r f) (bindV R F)"
  by (rule agrees_bind [OF agrees_last [OF assms(3,1,2)]]) (use assms(4) grows_own in blast)

lemma heap_array_loop_agrees:
  assumes "good_malloc al" and "fills al pv hpv" and "ty AND cJSON_IsReference = 0"
  shows "own H pr (JT a ty None None nm ts) \<Longrightarrow> ts \<noteq> [] \<Longrightarrow> map abs_tree ts = cs \<Longrightarrow>
    agrees al H ep pr (JT a ty None None nm ts) (named_kids a ty nm)
      (array_loop k pv m p cs) (heap_array_loop k hpv al m H ep (last_of NULL ts) p)"
proof (induction k arbitrary: H ep p ts cs)
  case 0
  show ?case by simp
next
  case (Suc k)
  show ?case
    unfolding array_loop.simps heap_array_loop.simps
  proof (intro agrees_tryR agrees_if agrees_error link_next [OF assms(1) Suc.prems(1) assms(3) Suc.prems(2)] agrees_done)
    fix K w p1
    assume w: "w \<noteq> NULL" "own K pr (JT a ty None None nm (ts @ [fresh_item w]))"
    show "agrees al K ep pr (JT a ty None None nm (ts @ [fresh_item w])) (named_kids a ty nm)
      (bindP (pv p1) (\<lambda>x p. tryR (skip m p) (\<lambda>p. array_loop k pv m p (cs @ [x]))))
      (bindV (hpv K ep w p1) (\<lambda>H ep p. bindO (Some (skip m p)) (heap_array_loop k hpv al m H ep w)))"
    proof (rule agrees_child [OF w(2) assms(3) fresh_fills [OF assms(2) own_last [OF w(2) assms(3)]]])
      fix x p t L
      assume t: "abs_tree t = x" "jt_addr t = jt_addr (fresh_item w)" "own L pr (JT a ty None None nm (ts @ [t]))"
      have "w = last_of NULL (ts @ [t])" using t(2) by (simp add: fresh_item_def)
      with Suc.IH [OF t(3), of "cs @ [x]"] t(1) Suc.prems(3)
      show "agrees al L ep pr (JT a ty None None nm (ts @ [t])) (named_kids a ty nm)
        (tryR (skip m p) (\<lambda>p. array_loop k pv m p (cs @ [x]))) (bindO (Some (skip m p)) (heap_array_loop k hpv al m L ep w))"
        by (intro agrees_tryR) simp
    qed
  next
    show "named_kids a ty nm cs (JT a ty None None nm ts)" using Suc.prems(3) by (auto simp: named_kids_def)
  qed (use Suc.prems in simp_all)
qed

text \<open>What a parser of arrays or objects returns, on the item it was given.\<close>

definition valued :: "(ptr \<times> u8 list) option \<Rightarrow> cjson \<Rightarrow> jtree \<Rightarrow> bool" where
  "valued nm x t \<longleftrightarrow> abs_tree t = with_name nm x \<and> cj_name x = None"

lemma valued_kids: "named_kids a ty nm cs t \<Longrightarrow> valued nm (Item ty None None None cs) t"
  by (auto simp: named_kids_def valued_def with_name_def)

lemma agrees_kids:
  assumes "agrees al H ep pr u (named_kids a ty nm) r R"
  shows "agrees al H ep pr u (valued nm) (bindP r (\<lambda>cs p. Parsed (Item ty None None None cs) p)) R"
proof (cases "\<exists>K ep' p. R = ret (K, ep', Some p)")
  case True
  with assms valued_kids [of a ty nm] show ?thesis by (fastforce simp: agrees_def)
next
  case False
  with assms show ?thesis by (auto simp: agrees_def split: option.splits sum.splits)
qed

lemma bindP_bindP: "bindP (bindP r f) g = bindP r (\<lambda>x p. bindP (f x p) g)"
  by (cases r) simp_all

lemma bindP_tryR: "bindP (tryR r f) g = tryR r (\<lambda>x. bindP (f x) g)"
  by (cases r) simp_all

lemma heap_parse_array_agrees:
  assumes "good_malloc al" and "fills al pv hpv" and "own H pr (JT a ty None None nm [])" and "ty AND cJSON_IsReference = 0"
  shows "agrees al H ep pr (JT a ty None None nm []) (valued nm) (parse_array pv m p) (heap_parse_array hpv al m H ep a p)"
proof -
  let ?T = "JT a cJSON_Array None None nm"
  note plain = cJSON_types_plain(6)
  obtain H1 where H1: "set_item H a (n_type_update (\<lambda>_. cJSON_Array)) = Inr H1" "grows H H1 pr (JT a ty None None nm []) (?T [])"
    by (rule grows_type [OF assms(3,4) plain])
  have o1: "own H1 pr (?T [])" by (rule grows_own [OF H1(2)])
  let ?R = "bindO (Some (skip m (p + 1))) (\<lambda>p. bindO (Some (rd8 m p)) (\<lambda>c.
       if c = 0x5D then ret (H1, ep, Some (p + 1))
       else (let (H, child) = new_item al H1 in
         bindO (Some (set_item H a (n_child_update (\<lambda>_. child)))) (\<lambda>H.
         if child = NULL then ret (H, ep, None)
         else bindO (Some (skip m p)) (\<lambda>p. bindV (hpv H ep child p) (\<lambda>H ep p.
           bindO (Some (skip m p)) (\<lambda>p. heap_array_loop (length m) hpv al m H ep child p)))))))"
  have "agrees al H1 ep pr (?T []) (valued nm) (tryR (skip m (p + 1)) (\<lambda>p. tryR (rd8 m p) (\<lambda>c.
       if c = 0x5D then Parsed (Item cJSON_Array None None None []) (p + 1)
       else tryR (skip m p) (\<lambda>p. bindP (pv p) (\<lambda>x p. tryR (skip m p) (\<lambda>p.
         bindP (array_loop (length m) pv m p [x]) (\<lambda>cs p. Parsed (Item cJSON_Array None None None cs) p))))))) ?R"
  proof (intro agrees_tryR agrees_if agrees_done link_first [OF assms(1) o1 plain] o1)
    fix K w p1
    assume w: "own K pr (?T [fresh_item w])"
    then have w': "own K pr (?T ([] @ [fresh_item w]))" by simp
    have "agrees al K ep pr (?T ([] @ [fresh_item w])) (valued nm)
      (bindP (pv p1) (\<lambda>x p. tryR (skip m p) (\<lambda>p. bindP (array_loop (length m) pv m p [x]) (\<lambda>cs p. Parsed (Item cJSON_Array None None None cs) p))))
      (bindV (hpv K ep w p1) (\<lambda>H ep p. bindO (Some (skip m p)) (\<lambda>p. heap_array_loop (length m) hpv al m H ep w p)))"
    proof (rule agrees_child [OF w' plain fresh_fills [OF assms(2) own_last [OF w' plain]]])
      fix x p t L
      assume t: "abs_tree t = x" "jt_addr t = jt_addr (fresh_item w)" "own L pr (?T ([] @ [t]))"
      have "last_of NULL ([] @ [t]) = w" using t(2) by (simp add: fresh_item_def)
      with heap_array_loop_agrees [OF assms(1,2) plain t(3), of "[x]"] t(1)
      show "agrees al L ep pr (?T ([] @ [t])) (valued nm)
        (tryR (skip m p) (\<lambda>p. bindP (array_loop (length m) pv m p [x]) (\<lambda>cs p. Parsed (Item cJSON_Array None None None cs) p)))
        (bindO (Some (skip m p)) (\<lambda>p. heap_array_loop (length m) hpv al m L ep w p))"
        by (intro agrees_tryR agrees_kids) auto
    qed
    then show "agrees al K ep pr (?T [fresh_item w]) (valued nm)
      (bindP (pv p1) (\<lambda>x p. tryR (skip m p) (\<lambda>p. bindP (array_loop (length m) pv m p [x]) (\<lambda>cs p. Parsed (Item cJSON_Array None None None cs) p))))
      (bindV (hpv K ep w p1) (\<lambda>H ep p. bindO (Some (skip m p)) (\<lambda>p. heap_array_loop (length m) hpv al m H ep w p)))" by simp
  qed (simp add: valued_def with_name_def)
  with H1(1) show ?thesis
    unfolding parse_array_def heap_parse_array_def
    by (intro agrees_tryR agrees_if agrees_error assms(3)) (simp add: agrees_step [OF H1(2)])
qed

text \<open>One member, from the item just linked.\<close>

lemma heap_parse_member_agrees:
  assumes "good_malloc al" and "fills al pv hpv" and "own H pr (fresh_item w)"
  shows "agrees al H ep pr (fresh_item w) (\<lambda>x t. abs_tree t = x) (parse_member pv m p) (heap_parse_member hpv al m H ep w p)"
  unfolding parse_member_def heap_parse_member_def
proof (intro agrees_tryR)
  fix p1
  have zero: "(0::int) AND cJSON_IsReference = 0" by simp
  show "agrees al H ep pr (fresh_item w) (\<lambda>x t. abs_tree t = x)
    (bindP (parse_string m p1) (\<lambda>s p. tryR (skip m p) (\<lambda>p. tryR (rd8 m p) (\<lambda>c. if c \<noteq> 0x3A then Failed p
       else tryR (skip m (p + 1)) (\<lambda>p. bindP (pv p) (\<lambda>x p. tryR (skip m p) (\<lambda>p. Parsed (set_name s x) p)))))))
    (bindV (heap_parse_string al m H ep w p1) (\<lambda>H ep p. bindO (Some (skip m p)) (\<lambda>p.
       bindO (Some (set_item H w (\<lambda>n. n\<lparr>n_string := n_valuestring n, n_valuestring := NULL\<rparr>))) (\<lambda>H.
       bindO (Some (rd8 m p)) (\<lambda>c. if c \<noteq> 0x3A then ret (H, Some p, None)
       else bindO (Some (skip m (p + 1))) (\<lambda>p. bindV (hpv H ep w p) (\<lambda>H ep p. bindO (Some (skip m p)) (\<lambda>p. ret (H, ep, Some p)))))))))"
  proof (rule agrees_bind [OF heap_parse_string_agrees [OF assms(1) assms(3) [unfolded fresh_item_def] zero, folded fresh_item_def]])
    fix s p t K
    assume "\<exists>q. t = JT w cJSON_String (Some (q, s)) None None []" and g: "grows H K pr (fresh_item w) t"
    then obtain q where t: "t = JT w cJSON_String (Some (q, s)) None None []" by blast
    have oK: "own K pr t" by (rule grows_own [OF g])
    obtain n where n: "cells K w = Some (Node n)" using own_node [OF oK [unfolded t]] by metis
    let ?L = "K\<lparr>cells := (cells K)(w \<mapsto> Node (n\<lparr>n_string := n_valuestring n, n_valuestring := NULL\<rparr>))\<rparr>"
    let ?t = "JT w cJSON_String None None (Some (q, s)) []"
    have gL: "grows K ?L pr t ?t"
      unfolding t by (rule grows_name [OF oK [unfolded t] cJSON_types_plain(5) n]) simp_all
    have oL: "own ?L pr ?t" by (rule grows_own [OF gL])
    have rest: "agrees al ?L ep pr ?t (\<lambda>x t. abs_tree t = x)
      (bindP (pv p1) (\<lambda>x p. tryR (skip m p) (\<lambda>p. Parsed (set_name s x) p)))
      (bindV (hpv ?L ep w p1) (\<lambda>H ep p. bindO (Some (skip m p)) (\<lambda>p. ret (H, ep, Some p))))" for p1
    proof (rule agrees_bind [OF fillsD [OF assms(2) oL cJSON_types_plain(5)]])
      fix x p t' M
      assume "abs_tree t' = with_name (Some (q, s)) x \<and> cj_name x = None" "grows ?L M pr ?t t'"
      then show "agrees al M ep pr t' (\<lambda>x t. abs_tree t = x) (tryR (skip m p) (\<lambda>p. Parsed (set_name s x) p))
        (bindO (Some (skip m p)) (\<lambda>p. ret (M, ep, Some p)))"
        by (intro agrees_tryR agrees_done grows_own) (auto simp: with_name_def set_name_def)
    qed
    have s: "set_item K w (\<lambda>n. n\<lparr>n_string := n_valuestring n, n_valuestring := NULL\<rparr>) = Inr ?L" using n by simp
    show "agrees al K ep pr t (\<lambda>x t. abs_tree t = x)
      (tryR (skip m p) (\<lambda>p. tryR (rd8 m p) (\<lambda>c. if c \<noteq> 0x3A then Failed p
         else tryR (skip m (p + 1)) (\<lambda>p. bindP (pv p) (\<lambda>x p. tryR (skip m p) (\<lambda>p. Parsed (set_name s x) p))))))
      (bindO (Some (skip m p)) (\<lambda>p.
         bindO (Some (set_item K w (\<lambda>n. n\<lparr>n_string := n_valuestring n, n_valuestring := NULL\<rparr>))) (\<lambda>H.
         bindO (Some (rd8 m p)) (\<lambda>c. if c \<noteq> 0x3A then ret (H, Some p, None)
         else bindO (Some (skip m (p + 1))) (\<lambda>p. bindV (hpv H ep w p) (\<lambda>H ep p. bindO (Some (skip m p)) (\<lambda>p. ret (H, ep, Some p))))))))"
      unfolding s bindO_simps
      by (intro agrees_tryR agrees_step [OF gL] agrees_if agrees_error oL rest)
  qed
qed

lemma heap_object_loop_agrees:
  assumes "good_malloc al" and "fills al pv hpv" and "ty AND cJSON_IsReference = 0"
  shows "own H pr (JT a ty None None nm ts) \<Longrightarrow> ts \<noteq> [] \<Longrightarrow> map abs_tree ts = cs \<Longrightarrow>
    agrees al H ep pr (JT a ty None None nm ts) (named_kids a ty nm)
      (object_loop k pv m p cs) (heap_object_loop k hpv al m H ep (last_of NULL ts) p)"
proof (induction k arbitrary: H ep p ts cs)
  case 0
  show ?case by simp
next
  case (Suc k)
  show ?case
    unfolding object_loop.simps heap_object_loop.simps
  proof (intro agrees_tryR agrees_if agrees_error link_next [OF assms(1) Suc.prems(1) assms(3) Suc.prems(2)] agrees_done)
    fix K w
    assume w: "w \<noteq> NULL" "own K pr (JT a ty None None nm (ts @ [fresh_item w]))"
    show "agrees al K ep pr (JT a ty None None nm (ts @ [fresh_item w])) (named_kids a ty nm)
      (bindP (parse_member pv m (p + 1)) (\<lambda>x p. object_loop k pv m p (cs @ [x])))
      (bindV (heap_parse_member hpv al m K ep w (p + 1)) (\<lambda>H ep p. heap_object_loop k hpv al m H ep w p))"
    proof (rule agrees_child [OF w(2) assms(3) heap_parse_member_agrees [OF assms(1,2) own_last [OF w(2) assms(3)]]])
      fix x p t L
      assume t: "abs_tree t = x" "jt_addr t = jt_addr (fresh_item w)" "own L pr (JT a ty None None nm (ts @ [t]))"
      have "w = last_of NULL (ts @ [t])" using t(2) by (simp add: fresh_item_def)
      with Suc.IH [OF t(3), of "cs @ [x]"] t(1) Suc.prems(3)
      show "agrees al L ep pr (JT a ty None None nm (ts @ [t])) (named_kids a ty nm)
        (object_loop k pv m p (cs @ [x])) (heap_object_loop k hpv al m L ep w p)" by simp
    qed
  next
    show "named_kids a ty nm cs (JT a ty None None nm ts)" using Suc.prems(3) by (auto simp: named_kids_def)
  qed (use Suc.prems in simp_all)
qed

lemma heap_parse_object_agrees:
  assumes "good_malloc al" and "fills al pv hpv" and "own H pr (JT a ty None None nm [])" and "ty AND cJSON_IsReference = 0"
  shows "agrees al H ep pr (JT a ty None None nm []) (valued nm) (parse_object pv m p) (heap_parse_object hpv al m H ep a p)"
proof -
  let ?T = "JT a cJSON_Object None None nm"
  note plain = cJSON_types_plain(7)
  obtain H1 where H1: "set_item H a (n_type_update (\<lambda>_. cJSON_Object)) = Inr H1" "grows H H1 pr (JT a ty None None nm []) (?T [])"
    by (rule grows_type [OF assms(3,4) plain])
  have o1: "own H1 pr (?T [])" by (rule grows_own [OF H1(2)])
  let ?R = "bindO (Some (skip m (p + 1))) (\<lambda>p. bindO (Some (rd8 m p)) (\<lambda>c.
       if c = 0x7D then ret (H1, ep, Some (p + 1))
       else (let (H, child) = new_item al H1 in
         bindO (Some (set_item H a (n_child_update (\<lambda>_. child)))) (\<lambda>H.
         if child = NULL then ret (H, ep, None)
         else bindV (heap_parse_member hpv al m H ep child p) (\<lambda>H ep p.
           heap_object_loop (length m) hpv al m H ep child p)))))"
  have "agrees al H1 ep pr (?T []) (valued nm) (tryR (skip m (p + 1)) (\<lambda>p. tryR (rd8 m p) (\<lambda>c.
       if c = 0x7D then Parsed (Item cJSON_Object None None None []) (p + 1)
       else bindP (parse_member pv m p) (\<lambda>x p.
         bindP (object_loop (length m) pv m p [x]) (\<lambda>cs p. Parsed (Item cJSON_Object None None None cs) p))))) ?R"
  proof (intro agrees_tryR agrees_if agrees_done link_first [OF assms(1) o1 plain] o1)
    fix K w p1
    assume w: "own K pr (?T [fresh_item w])"
    then have w': "own K pr (?T ([] @ [fresh_item w]))" by simp
    have "agrees al K ep pr (?T ([] @ [fresh_item w])) (valued nm)
      (bindP (parse_member pv m p1) (\<lambda>x p. bindP (object_loop (length m) pv m p [x]) (\<lambda>cs p. Parsed (Item cJSON_Object None None None cs) p)))
      (bindV (heap_parse_member hpv al m K ep w p1) (\<lambda>H ep p. heap_object_loop (length m) hpv al m H ep w p))"
    proof (rule agrees_child [OF w' plain heap_parse_member_agrees [OF assms(1,2) own_last [OF w' plain]]])
      fix x p t L
      assume t: "abs_tree t = x" "jt_addr t = jt_addr (fresh_item w)" "own L pr (?T ([] @ [t]))"
      have "last_of NULL ([] @ [t]) = w" using t(2) by (simp add: fresh_item_def)
      with heap_object_loop_agrees [OF assms(1,2) plain t(3), of "[x]"] t(1)
      show "agrees al L ep pr (?T ([] @ [t])) (valued nm)
        (bindP (object_loop (length m) pv m p [x]) (\<lambda>cs p. Parsed (Item cJSON_Object None None None cs) p))
        (heap_object_loop (length m) hpv al m L ep w p)"
        by (intro agrees_kids) auto
    qed
    then show "agrees al K ep pr (?T [fresh_item w]) (valued nm)
      (bindP (parse_member pv m p1) (\<lambda>x p. bindP (object_loop (length m) pv m p [x]) (\<lambda>cs p. Parsed (Item cJSON_Object None None None cs) p)))
      (bindV (heap_parse_member hpv al m K ep w p1) (\<lambda>H ep p. heap_object_loop (length m) hpv al m H ep w p))" by simp
  qed (simp add: valued_def with_name_def)
  with H1(1) show ?thesis
    unfolding parse_object_def heap_parse_object_def
    by (intro agrees_tryR agrees_if agrees_error assms(3)) (simp add: agrees_step [OF H1(2)])
qed

section \<open>Values\<close>

lemma heap_parse_literal_agrees:
  assumes "own H pr (JT a ty None None nm [])" and "ty AND cJSON_IsReference = 0" and "ty' AND cJSON_IsReference = 0"
  shows "agrees al H ep pr (JT a ty None None nm []) (valued nm) (Parsed (Item ty' None None None []) q)
    (bindO (Some (set_item H a (n_type_update (\<lambda>_. ty')))) (\<lambda>H. ret (H, ep, Some q)))"
proof -
  obtain H1 where H1: "set_item H a (n_type_update (\<lambda>_. ty')) = Inr H1"
    "grows H H1 pr (JT a ty None None nm []) (JT a ty' None None nm [])"
    by (rule grows_type [OF assms])
  have "agrees al H1 ep pr (JT a ty' None None nm []) (valued nm) (Parsed (Item ty' None None None []) q) (ret (H1, ep, Some q))"
    by (rule agrees_done [OF grows_own [OF H1(2)]]) (simp add: valued_def with_name_def)
  with H1 show ?thesis by (simp add: agrees_step)
qed

lemma heap_parse_text_agrees:
  assumes "good_malloc al" and "own H pr (JT a ty None None nm [])" and "ty AND cJSON_IsReference = 0"
  shows "agrees al H ep pr (JT a ty None None nm []) (valued nm)
    (bindP (parse_string m p) (\<lambda>s p. Parsed (Item cJSON_String (Some s) None None []) p)) (heap_parse_string al m H ep a p)"
proof -
  have "agrees al H ep pr (JT a ty None None nm []) (valued nm)
    (bindP (parse_string m p) (\<lambda>s p. Parsed (Item cJSON_String (Some s) None None []) p))
    (bindV (heap_parse_string al m H ep a p) (\<lambda>H ep p. ret (H, ep, Some p)))"
    by (rule agrees_bind [OF heap_parse_string_agrees [OF assms]])
      (auto simp: valued_def with_name_def intro!: agrees_done intro: grows_own)
  moreover have "bindV R (\<lambda>H ep p. ret (H, ep, Some p)) = R" for R
    by (cases R) (auto simp: bindV_def bindO_def split: sum.splits option.splits)
  ultimately show ?thesis by simp
qed

lemma heap_parse_value_agrees:
  assumes "good_malloc al"
  shows "fills al (parse_value n m) (heap_parse_value n al m)"
proof (induction n)
  case 0
  show ?case by (simp add: fills_def)
next
  case (Suc n)
  show ?case
    unfolding fills_def valued_def [symmetric]
  proof (intro allI impI)
    fix H ep pr w ty nm p
    assume o: "own H pr (JT w ty None None nm [])" "(ty::int) AND cJSON_IsReference = 0"
    show "agrees al H ep pr (JT w ty None None nm []) (valued nm) (parse_value (Suc n) m p) (heap_parse_value (Suc n) al m H ep w p)"
      unfolding parse_value.simps heap_parse_value.simps
      by (intro agrees_tryR agrees_if agrees_error o heap_parse_literal_agrees cJSON_types_plain
        heap_parse_text_agrees heap_parse_number_agrees [folded valued_def]
        heap_parse_array_agrees heap_parse_object_agrees assms Suc.IH)
  qed
qed

section \<open>Whole texts\<close>

text \<open>
  What the caller gets: the tree of the value in new memory; or NULL, with memory as it was, and either the
  error position of the text in \<^verbatim>\<open>ep\<close> or, after a failed \<^verbatim>\<open>malloc\<close>, no error position.
\<close>

definition parse_outcome ::
    "allocator \<Rightarrow> cj_heap \<Rightarrow> cjson parse \<Rightarrow> (cj_heap \<times> nat option \<times> ptr \<times> nat option) run \<Rightarrow> bool" where
  "parse_outcome al H r R \<longleftrightarrow> (case R of
     None \<Rightarrow> False
   | Some (Inl b) \<Rightarrow> r = Undef b
   | Some (Inr (H', ep, c, value)) \<Rightarrow>
       if c \<noteq> NULL then \<exists>x q t. r = Parsed x q \<and> value = Some q \<and> ep = None \<and> detached H' c t \<and> abs_tree t = x \<and>
         extends H H' (set (blocks [t]))
       else value = None \<and> cells H' = cells H \<and> ((\<exists>e. r = Failed e \<and> ep = Some e) \<or> denied al H H' \<and> ep = None))"

lemma detached_own: "detached H c t \<longleftrightarrow> own H NULL t \<and> c = jt_addr t"
  using row_first by (fastforce simp: detached_def own_def)

lemma delete_grown:
  assumes "grows H1 H2 NULL (fresh_item c) t" and "cells H c = None" and "cells H1 = (cells H)(c \<mapsto> Node zero_node)"
  shows "detached H2 c t" "extends H H2 (set (blocks [t]))" "cJSON_Delete H2 c = ret (drop_cells H2 (set (blocks [t])))"
    "cells (drop_cells H2 (set (blocks [t]))) = cells H" "calls (drop_cells H2 (set (blocks [t]))) = calls H2"
proof -
  show d: "detached H2 c t" using assms(1) by (simp add: detached_own grows_def fresh_item_def)
  show e: "extends H H2 (set (blocks [t]))"
    using assms by (auto simp: extends_def grows_def fresh_item_def)
  show "cJSON_Delete H2 c = ret (drop_cells H2 (set (blocks [t])))" by (rule delete_detached [OF d])
  show "cells (drop_cells H2 (set (blocks [t]))) = cells H" by (rule extends_drop [OF e])
  show "calls (drop_cells H2 (set (blocks [t]))) = calls H2" by (simp add: drop_cells_def)
qed

lemma parse_value_total: "parse_value (Suc (length m)) m p \<noteq> NoFuel"
  using parse_value_good [of m p "Suc (length m)"] by (simp del: parse_value.simps)

lemma heap_ParseWithOpts_outcome:
  assumes "good_malloc al"
  shows "parse_outcome al H (cJSON_ParseWithOpts m v nul) (heap_ParseWithOpts al m H v nul)"
proof -
  obtain H1 c where new: "new_item al H = (H1, c)" by fastforce
  note calls = new_item_calls [OF new]
  show ?thesis
  proof (rule new_item_cases [OF assms new])
    assume "c = NULL" "cells H1 = cells H"
    moreover from this have "denied al H H1" using calls by (intro denied_now [of al H SIZEOF_CJSON]) simp_all
    ultimately show ?thesis using new by (simp add: heap_ParseWithOpts_def parse_outcome_def)
  next
    assume c: "c \<noteq> NULL" "cells H c = None" "cells H1 = (cells H)(c \<mapsto> Node zero_node)"
    let ?pv = "parse_value (Suc (length m)) m" and ?hpv = "heap_parse_value (Suc (length m)) al m H1 None c"
    have "own H1 NULL (fresh_item c)" using c(1,3) by (simp add: own_def fresh_item_def zero_node_def)
    then have ag: "agrees al H1 None NULL (fresh_item c) (\<lambda>x t. abs_tree t = x) (?pv p) (?hpv p)" for p
      by (rule fresh_fills [OF heap_parse_value_agrees [OF assms]])
    have near: "near H H1" unfolding near_def by (rule finite_subset [of _ "{c}"]) (auto simp: c(3))
    note del = delete_grown [OF _ c(2,3)]
    have out: "parse_outcome al H (bindP (?pv p) f) (bindO (?hpv p) (\<lambda>(H, ep, end).
        case end of None \<Rightarrow> bindO (cJSON_Delete H c) (\<lambda>H. ret (H, ep, NULL, None)) | Some q \<Rightarrow> F H ep q))"
      if F: "\<And>H2 x q t. grows H1 H2 NULL (fresh_item c) t \<Longrightarrow> abs_tree t = x \<Longrightarrow> parse_outcome al H (f x q) (F H2 None q)" for p f F
    proof (cases "?hpv p")
      case None
      with ag [of p] parse_value_total [of m p] show ?thesis by simp
    next
      case (Some R)
      show ?thesis
      proof (cases R)
        case (Inl b)
        with Some ag [of p] show ?thesis by (simp add: parse_outcome_def)
      next
        case (Inr R')
        then obtain H2 ep stop where R: "R = Inr (H2, ep, stop)" by (cases R') auto
        with ag [of p] Some obtain t where t: "grows H1 H2 NULL (fresh_item c) t" and e: "case stop of
            Some p' \<Rightarrow> (\<exists>x. ?pv p = Parsed x p' \<and> abs_tree t = x) \<and> ep = None
          | None \<Rightarrow> (\<exists>e. ?pv p = Failed e \<and> ep = Some e) \<or> denied al H1 H2 \<and> ep = None"
          unfolding agrees_def by auto
        note d = del [OF t]
        have "denied al H (drop_cells H2 (set (blocks [t])))" if "denied al H1 H2"
          using denied_before [OF near _ that] calls d(5) by (simp add: denied_def)
        with Some R e d F [OF t] show ?thesis by (cases stop) (auto simp: parse_outcome_def)
      qed
    qed
    have good: "parse_outcome al H (Parsed x q) (ret (H2, None, c, Some q))"
      if "grows H1 H2 NULL (fresh_item c) t" "abs_tree t = x" for H2 x q t
      using del [OF that(1)] that(2) c(1) by (auto simp: parse_outcome_def)
    have check: "parse_outcome al H (tryR (skip m q) (\<lambda>q. tryR (rd8 m q) (\<lambda>e. if e \<noteq> 0 then Failed q else Parsed x q)))
        (bindO (Some (skip m q)) (\<lambda>q. bindO (Some (rd8 m q)) (\<lambda>e.
           if e \<noteq> 0 then bindO (cJSON_Delete H2 c) (\<lambda>H. ret (H, Some q, NULL, None)) else ret (H2, None, c, Some q))))"
      if "grows H1 H2 NULL (fresh_item c) t" "abs_tree t = x" for H2 x q t
      using del [OF that(1)] good [OF that]
      by (cases "skip m q"; cases "rd8 m (projr (skip m q))") (auto simp: parse_outcome_def)
    have go: "parse_outcome al H (cJSON_ParseWithOpts m v nul) (bindO (Some (skip m v)) (\<lambda>p. bindO (?hpv p) (\<lambda>(H, ep, end).
        case end of None \<Rightarrow> bindO (cJSON_Delete H c) (\<lambda>H. ret (H, ep, NULL, None))
        | Some q \<Rightarrow> if nul then bindO (Some (skip m q)) (\<lambda>q. bindO (Some (rd8 m q)) (\<lambda>e.
              if e \<noteq> 0 then bindO (cJSON_Delete H c) (\<lambda>H. ret (H, Some q, NULL, None)) else ret (H, ep, c, Some q)))
            else ret (H, ep, c, Some q))))"
    proof (cases "skip m v")
      case (Inl b)
      then show ?thesis by (simp add: cJSON_ParseWithOpts_def parse_outcome_def)
    next
      case (Inr p)
      then show ?thesis
        unfolding cJSON_ParseWithOpts_def Inr tryR_simps bindO_simps
        by (cases nul) (auto simp del: parse_value.simps heap_parse_value.simps intro!: out good check)
    qed
    then show ?thesis using new c(1) by (simp add: heap_ParseWithOpts_def del: parse_value.simps heap_parse_value.simps)
  qed
qed

text \<open>With an allocator that has memory as long as finitely much of it is used, nothing but the text decides.\<close>

lemma never_denied:
  assumes "\<And>K n. finite (dom (cells K)) \<Longrightarrow> al K n \<noteq> NULL" and "finite (dom (cells H))"
  shows "\<not> denied al H H'"
proof -
  have "finite (dom (cells K))" if "near H K" for K
    by (rule finite_subset [of _ "dom (cells H) \<union> {q. cells K q \<noteq> cells H q}"])
      (use assms(2) that in \<open>auto simp: near_def\<close>)
  with assms(1) show ?thesis unfolding denied_def by blast
qed

lemma heap_ParseWithOpts_decided:
  assumes "good_malloc al" and "\<And>K n. finite (dom (cells K)) \<Longrightarrow> al K n \<noteq> NULL" and "finite (dom (cells H))"
  shows "cJSON_ParseWithOpts m v nul = Parsed x q \<Longrightarrow>
      \<exists>H' c t. heap_ParseWithOpts al m H v nul = ret (H', None, c, Some q) \<and> detached H' c t \<and> abs_tree t = x"
    and "cJSON_ParseWithOpts m v nul = Failed e \<Longrightarrow>
      \<exists>H'. heap_ParseWithOpts al m H v nul = ret (H', Some e, NULL, None) \<and> cells H' = cells H"
    and "cJSON_ParseWithOpts m v nul = Undef b \<Longrightarrow> heap_ParseWithOpts al m H v nul = Some (Inl b)"
proof -
  have o: "parse_outcome al H (cJSON_ParseWithOpts m v nul) (heap_ParseWithOpts al m H v nul)"
    by (rule heap_ParseWithOpts_outcome [OF assms(1)])
  have d: "denied al H H' \<longleftrightarrow> False" for H' using never_denied [of al H H'] assms(2,3) by blast
  show "\<exists>H' c t. heap_ParseWithOpts al m H v nul = ret (H', None, c, Some q) \<and> detached H' c t \<and> abs_tree t = x"
    if "cJSON_ParseWithOpts m v nul = Parsed x q"
    using o that by (auto simp: parse_outcome_def d split: option.splits sum.splits if_splits)
  show "\<exists>H'. heap_ParseWithOpts al m H v nul = ret (H', Some e, NULL, None) \<and> cells H' = cells H"
    if "cJSON_ParseWithOpts m v nul = Failed e"
    using o that by (auto simp: parse_outcome_def d split: option.splits sum.splits if_splits)
  show "heap_ParseWithOpts al m H v nul = Some (Inl b)" if "cJSON_ParseWithOpts m v nul = Undef b"
    using o that by (auto simp: parse_outcome_def d split: option.splits sum.splits if_splits)
qed

section \<open>Properties\<close>


text \<open>Memory for two blocks only: the third \<^verbatim>\<open>malloc\<close> fails, inside the array.\<close>

definition two_blocks :: allocator where
  "two_blocks H n = (if calls H < 2 \<and> cells H (100 + calls H) = None then 100 + calls H else NULL)"

declare cJSON_Delete.simps [code]


end
