(* ===== verification/TnsHeap.thy ===== *)
theory TnsHeap
  imports CJsonParseTree Tns
begin

text \<open>
  \<^verbatim>\<open>tns_connect_handle\<close> of \<^verbatim>\<open>src/src/oracle_tns.c\<close> with its memory: the buffer it allocates, the
  tree \<^verbatim>\<open>cJSON_Parse\<close> makes of it, and the pointers of the lookups. It prints what the
  handler of \<^verbatim>\<open>Tns\<close> prints, and gives nothing back.
\<close>

section \<open>The handler\<close>

text \<open>\<open>lit s\<close> is the address of the string literal \<open>s\<close>.\<close>

definition heap_print_item :: "string \<Rightarrow> cj_heap \<Rightarrow> ptr \<Rightarrow> printed res" where
  "heap_print_item fmt H v =
     (if v = NULL then Inr []
      else bindR (get_item H v) (\<lambda>n.
        if n_type n = cJSON_String then bindR (get_text H (n_valuestring n)) (\<lambda>s. Inr [(fmt, [Str (c_view s)])])
        else Inr []))"

definition heap_connect_report :: "(string \<Rightarrow> ptr) \<Rightarrow> cj_heap \<Rightarrow> ptr \<Rightarrow> printed run" where
  "heap_connect_report lit H root =
     (if root = NULL then ret []
      else bindO (GetObjectItem H root (lit ''DESCRIPTION'')) (\<lambda>desc.
        if desc = NULL then ret []
        else bindO (GetObjectItem H desc (lit ''CONNECT_DATA'')) (\<lambda>conn_data.
          if desc = NULL then ret []
          else bindO (GetObjectItem H conn_data (lit ''SERVICE_NAME'')) (\<lambda>v.
            bindO (Some (heap_print_item ''    SERVICE_NAME : %s'' H v)) (\<lambda>o1.
            bindO (GetObjectItem H conn_data (lit ''CID'')) (\<lambda>cid.
            if desc = NULL then ret o1
            else bindO (GetObjectItem H cid (lit ''HOST'')) (\<lambda>v.
              bindO (Some (heap_print_item ''    HOST : %s'' H v)) (\<lambda>o2.
              bindO (GetObjectItem H cid (lit ''USER'')) (\<lambda>v.
              bindO (Some (heap_print_item ''    USER : %s'' H v)) (\<lambda>o3.
              ret (o1 @ o2 @ o3)))))))))))"

text \<open>
  The \<^verbatim>\<open>memset\<close> that \<open>parse_connect_data_to_json\<close> begins with writes through \<^verbatim>\<open>jsonbuf\<close>, NULL or not.
\<close>

definition heap_connect_handle ::
    "allocator \<Rightarrow> (string \<Rightarrow> ptr) \<Rightarrow> u8 list \<Rightarrow> nat \<Rightarrow> nat \<Rightarrow> tns_session \<Rightarrow> cj_heap \<Rightarrow>
      (cj_heap \<times> tns_session \<times> printed \<times> int) run" where
  "heap_connect_handle al lit m pkt len sess H =
     (if len \<le> TNS_HEAD_LEN then ret (H, sess, [], CODE_SUCCESS)
      else
        bindO (Some (debug_hex_println g_hexdump_enbale ''dump tns connect'' m (PKT_DATA pkt) (len - TNS_HEAD_LEN))) (\<lambda>o0.
        bindO (Some (CONNECT_DATA_LEN m pkt)) (\<lambda>n.
        if 0 \<ge> unat n then ret (H, sess, o0, CODE_SUCCESS)
        else
          let clear = replicate (2 * unat n) 0; (H, jsonbuf) = cj_malloc al H (2 * unat n) (Text clear);
            outlen = int (2 * unat n) in
          bindO (Some (CONNECT_VER m pkt)) (\<lambda>ver.
          bindO (Some (CONNECT_VER_COMPATIBLE m pkt)) (\<lambda>compat.
          let sess = sess\<lparr>version := ver, version_compatible := compat, state := STAT_CONNECT\<rparr> in
          bindO (Some (CONNECT_DATA m pkt)) (\<lambda>text.
          if jsonbuf = NULL then Some (Inl (BadPtr NULL))
          else bindO (Some (parse_connect_data_to_json m text (int (unat n)) clear outlen)) (\<lambda>(out, outlen, _).
            let H = H\<lparr>cells := (cells H)(jsonbuf \<mapsto> Text out)\<rparr> in
            bindO (Some (c_str (cur_sess_desc sess) 0)) (\<lambda>d.
            bindO (Some (direction_str (cur_dir sess))) (\<lambda>r.
            bindO (Some (get_text H jsonbuf)) (\<lambda>json.
            bindO (heap_Parse al json H 0) (\<lambda>(H, ep, root).
            bindO (heap_connect_report lit H root) (\<lambda>o2.
            ret (H, sess, o0 @ (''%s %s connect data len:%d'', [Str d, Str r, Num outlen]) # o2, CODE_SUCCESS)))))))))))))"

section \<open>Lookups in the tree of a text\<close>

text \<open>The pointer \<open>p\<close> to the item \<open>x\<close> of the value that was parsed; NULL where there is none.\<close>

definition points_to :: "cj_heap \<Rightarrow> ptr \<Rightarrow> cjson option \<Rightarrow> bool" where
  "points_to H p x \<longleftrightarrow> (case x of
     None \<Rightarrow> p = NULL
   | Some j \<Rightarrow> \<exists>t n. abs_tree t = j \<and> well_typed j \<and> p \<noteq> NULL \<and> items H p (jt_kids t) \<and> cells H p = Some (Node n) \<and>
       n_type n = jt_type t \<and> text_is H (n_valuestring n) (jt_value t))"

lemma well_typed_plain: "well_typed (abs_tree t) \<Longrightarrow> jt_type t AND cJSON_IsReference = 0"
proof (cases t)
  case (JT a ty vs num nm kids)
  assume "well_typed (abs_tree t)"
  then have "ty = cJSON_False \<or> ty = cJSON_True \<or> ty = cJSON_NULL \<or> ty = cJSON_Number \<or> ty = cJSON_String \<or>
      ty = cJSON_Array \<or> ty = cJSON_Object"
    using JT by (auto simp: cJSON_types)
  then show ?thesis using JT cJSON_types_plain by auto
qed

lemma row_points_to:
  assumes "CJsonTree.row H pr p [t] e" and "distinct (blocks [t])" and "well_typed (abs_tree t)"
  shows "points_to H p (Some (abs_tree t))"
proof (cases t)
  case (JT a ty vs num nm kids)
  with assms well_typed_plain [OF assms(3)] show ?thesis
    by (auto simp: points_to_def items_def intro!: exI [of _ t] split: option.splits cj_cell.splits)
qed

lemma kid_points_to:
  assumes "items H a ts" and "t \<in> set ts" and "well_typed (abs_tree t)"
  shows "points_to H (jt_addr t) (Some (abs_tree t))"
proof -
  from assms(2) obtain us vs where ts: "ts = us @ t # vs" by (meson split_list)
  from assms(1) [unfolded ts] obtain n where
    "CJsonTree.row H (last_of NULL us) (jt_addr t) [t] (first_of vs NULL)" "distinct (blocks [t])"
    using items_split items_distinct(2) by metis
  then show ?thesis by (rule row_points_to [OF _ _ assms(3)])
qed

lemma lookup_points_to:
  assumes "points_to H p x" and "cells H NULL = None" and "text_at_ptr H str s"
  shows "(\<exists>q y. GetObjectItem H p str = ret q \<and> cJSON_GetObjectItem x s = Inr y \<and> points_to H q y) \<or>
    (GetObjectItem H p str = Some (Inl (BadPtr NULL)) \<and> cJSON_GetObjectItem x s = Inl (BadPtr NULL))"
proof (cases x)
  case None
  with assms show ?thesis
    by (simp add: points_to_def GetObjectItem_def cJSON_GetObjectItem_def get_item_def)
next
  case (Some j)
  with assms(1) obtain t where t: "abs_tree t = j" "well_typed j" "items H p (jt_kids t)" by (auto simp: points_to_def)
  have "children j = map abs_tree (jt_kids t)" using t(1) by (cases t) auto
  from get_object_item_law [OF t(3) assms(3) this] obtain q y where q: "GetObjectItem H p str = ret q"
    "cJSON_GetObjectItem (Some j) s = Inr y" "same_child (jt_kids t) q y" by blast
  have "well_typed (abs_tree u)" if "u \<in> set (jt_kids t)" for u using t(1,2) that by (cases t) auto
  then have "points_to H q y"
    using q(3) kid_points_to [OF t(3)] by (cases y) (auto simp: same_child_def points_to_def [of _ _ None])
  with q Some show ?thesis by simp
qed

lemma print_points_to: "points_to H p x \<Longrightarrow> heap_print_item fmt H p = Inr (print_item fmt x)"
proof (cases x)
  case None
  then show "points_to H p x \<Longrightarrow> ?thesis" by (simp add: points_to_def heap_print_item_def print_item_def)
next
  case (Some j)
  assume "points_to H p x"
  with Some obtain t n where t: "abs_tree t = j" "well_typed j" "p \<noteq> NULL" "cells H p = Some (Node n)"
    "n_type n = jt_type t" "text_is H (n_valuestring n) (jt_value t)" by (auto simp: points_to_def)
  have ty: "cj_type j = jt_type t" "valuestring j = map_option snd (jt_value t)" using t(1) by (cases t; auto)+
  have "valuestring j \<noteq> None \<longleftrightarrow> cj_type j = cJSON_String" using t(2) by (cases j) simp
  with t ty Some show ?thesis
    by (cases "(H, n_valuestring n, jt_value t)" rule: text_is.cases)
      (auto simp: heap_print_item_def print_item_def get_text_def)
qed

text \<open>The report, with the run of a lookup in place of the lookup.\<close>

definition literals :: "(string \<Rightarrow> ptr) \<Rightarrow> cj_heap \<Rightarrow> bool" where
  "literals lit H \<longleftrightarrow> (\<forall>s \<in> {''DESCRIPTION'', ''CONNECT_DATA'', ''SERVICE_NAME'', ''CID'', ''HOST'', ''USER''}.
     lit s \<noteq> NULL \<and> cells H (lit s) = Some (Literal (bytes_of s)))"

lemma bindO_lookup:
  assumes "points_to H p x" and "cells H NULL = None" and "text_at_ptr H str s"
    and "\<And>q y. points_to H q y \<Longrightarrow> F q = Some (G y)"
  shows "bindO (GetObjectItem H p str) F = Some (bindR (cJSON_GetObjectItem x s) G)"
  using lookup_points_to [OF assms(1-3)] assms(4) by auto

lemma points_to_NULL: "points_to H p x \<Longrightarrow> p = NULL \<longleftrightarrow> x = None"
  by (auto simp: points_to_def split: option.splits)

lemma bindO_print: "points_to H p x \<Longrightarrow> bindO (Some (heap_print_item fmt H p)) F = F (print_item fmt x)"
  by (simp add: print_points_to)

lemma bindR_same: "(\<And>x. f x = g x) \<Longrightarrow> bindR r f = bindR r g"
  by (cases r) simp_all

lemma heap_connect_report_ok:
  assumes "points_to H root x" and "cells H NULL = None" and "literals lit H"
  shows "heap_connect_report lit H root = Some (connect_report x)"
proof -
  define D C S I N U where "D = bytes_of ''DESCRIPTION''" and "C = bytes_of ''CONNECT_DATA''" and "S = bytes_of ''SERVICE_NAME''"
    and "I = bytes_of ''CID''" and "N = bytes_of ''HOST''" and "U = bytes_of ''USER''"
  note names = D_def [symmetric] C_def [symmetric] S_def [symmetric] I_def [symmetric] N_def [symmetric] U_def [symmetric]
  have l: "text_at_ptr H (lit ''DESCRIPTION'') D" "text_at_ptr H (lit ''CONNECT_DATA'') C" "text_at_ptr H (lit ''SERVICE_NAME'') S"
    "text_at_ptr H (lit ''CID'') I" "text_at_ptr H (lit ''HOST'') N" "text_at_ptr H (lit ''USER'') U"
    using assms(3) unfolding literals_def text_at_ptr_def get_text_def D_def C_def S_def I_def N_def U_def by simp_all
  note look = bindO_lookup [OF _ assms(2)]
  show ?thesis
  proof (cases x)
    case None
    then show ?thesis using points_to_NULL [OF assms(1)] by (simp add: heap_connect_report_def connect_report_def)
  next
    case (Some j)
    note root = assms(1) [unfolded Some]
    show ?thesis
      unfolding heap_connect_report_def connect_report_def names points_to_NULL [OF root] Some
      by (auto intro!: look l root simp: points_to_NULL bindO_print)
  qed
qed

section \<open>The handler and its memory\<close>

text \<open>
  \<open>short\<close>: the packet has no connect data. Otherwise a run that comes to its end leaves the buffer and, if the text
  had a value, the tree behind.
\<close>

definition handled_as ::
    "allocator \<Rightarrow> cj_heap \<Rightarrow> bool \<Rightarrow> bool \<Rightarrow> handled \<Rightarrow> (cj_heap \<times> tns_session \<times> printed \<times> int) run \<Rightarrow> bool" where
  "handled_as al H short full P R \<longleftrightarrow> (case R of
     None \<Rightarrow> False
   | Some (Inl b) \<Rightarrow> P = Inl b \<or> b = BadPtr NULL \<and> full
   | Some (Inr (H', sess, out, c)) \<Rightarrow> c = CODE_SUCCESS \<and> (P = Inr (sess, out, c) \<or> denied al H H') \<and>
       (short \<and> H' = H \<or> (\<exists>jsonbuf ts json. jsonbuf \<noteq> NULL \<and> cells H' jsonbuf = Some (Text json) \<and> extends H H' (set (jsonbuf # blocks ts)) \<and>
         distinct (jsonbuf # blocks ts) \<and> (ts = [] \<or> (\<exists>root t. ts = [t] \<and> detached H' root t)))))"

lemma handled_error [simp]: "handled_as al H sh fu (Inl b) (Some (Inl b))"
  by (simp add: handled_as_def)

lemma handled_step:
  assumes "\<And>x. r = Inr x \<Longrightarrow> handled_as al H sh fu (f x) (F x)"
  shows "handled_as al H sh fu (bindR r f) (bindO (Some r) F)"
proof (cases r)
  case (Inl b)
  show ?thesis unfolding Inl bindR.simps bindO_simps by (rule handled_error)
next
  case (Inr x)
  show ?thesis unfolding Inr bindR.simps bindO_simps by (rule assms [OF Inr])
qed

lemma literals_extends: "extends H H' A \<Longrightarrow> literals lit H \<Longrightarrow> literals lit H'"
  unfolding literals_def using extends_dom [of H H' A] by (intro ballI) (frule bspec, assumption, fastforce)

lemma heap_Parse_outcome:
  assumes "good_malloc al"
  shows "case heap_Parse al m H v of
     None \<Rightarrow> False
   | Some (Inl b) \<Rightarrow> cJSON_Parse m v = Undef b
   | Some (Inr (H', ep, c)) \<Rightarrow>
       if c \<noteq> NULL then \<exists>x q t. cJSON_Parse m v = Parsed x q \<and> detached H' c t \<and> abs_tree t = x \<and> extends H H' (set (blocks [t]))
       else cells H' = cells H \<and> ((\<exists>e. cJSON_Parse m v = Failed e) \<or> denied al H H')"
  using heap_ParseWithOpts_outcome [OF assms, of H m v False]
  by (cases "heap_ParseWithOpts al m H v False") (auto simp: parse_outcome_def heap_Parse_def cJSON_Parse_def split: sum.splits, blast)

lemma handled_parsed:
  assumes "good_malloc al" and "cells H NULL = None" and "literals lit H"
    and "jb \<noteq> NULL" and "cells H jb = None" and "cells K = (cells H)(jb \<mapsto> Text json)" and "calls H \<le> calls K"
  shows "handled_as al H sh fu
    (bindR (parsed_root (cJSON_Parse json 0)) (\<lambda>root. bindR (connect_report root) (\<lambda>o2. Inr (sess, out @ o2, CODE_SUCCESS))))
    (bindO (heap_Parse al json K 0) (\<lambda>(H, ep, root). bindO (heap_connect_report lit H root) (\<lambda>o2. ret (H, sess, out @ o2, CODE_SUCCESS))))"
proof -
  have e: "extends H K {jb}" using assms(5,6) by (simp add: extends_def)
  have near: "near H K" unfolding near_def by (rule finite_subset [of _ "{jb}"]) (auto simp: assms(6))
  note pa = heap_Parse_outcome [OF assms(1), where m = json and H = K and v = 0]
  show ?thesis
  proof (cases "heap_Parse al json K 0")
    case None
    with pa show ?thesis by simp
  next
    case (Some R)
    show ?thesis
    proof (cases R)
      case (Inl b)
      with pa Some show ?thesis by (simp add: handled_as_def parsed_root_def)
    next
      case (Inr R')
      then obtain L ep root where R: "R = Inr (L, ep, root)" by (cases R') auto
      show ?thesis
      proof (cases "root = NULL")
        case True
        with pa Some R have L: "cells L = cells K" "(\<exists>e. cJSON_Parse json 0 = Failed e) \<or> denied al K L" by simp_all
        have "jb \<noteq> NULL" "extends H L {jb}" "cells L jb = Some (Text json)" using e L(1) assms(4,6) by (simp_all add: extends_def)
        then have "\<exists>jsonbuf ts json. jsonbuf \<noteq> NULL \<and> cells L jsonbuf = Some (Text json) \<and> extends H L (set (jsonbuf # blocks ts)) \<and>
             distinct (jsonbuf # blocks ts) \<and> (ts = [] \<or> (\<exists>root t. ts = [t] \<and> detached L root t))"
          by (intro exI [of _ jb] exI [of _ "[]"] exI [of _ json]) simp
        moreover have "denied al H L" if "denied al K L" by (rule denied_before [OF near assms(7) that])
        ultimately show ?thesis
          using True Some R L(2) by (auto simp: handled_as_def parsed_root_def heap_connect_report_def connect_report_def)
      next
        case False
        with pa Some R obtain x q t where t: "cJSON_Parse json 0 = Parsed x q" "detached L root t" "abs_tree t = x"
          "extends K L (set (blocks [t]))" by auto
        have w: "well_typed x" using cJSON_ParseWithOpts_yields [of json 0 False] t(1) by (simp add: cJSON_Parse_def yields_def value_item_def)
        have d: "CJsonTree.row L NULL root [t] NULL" "distinct (blocks [t])" using t(2) by (simp_all add: detached_def)
        have p: "points_to L root (Some x)" using row_points_to [OF d] t(3) w by simp
        have jb: "cells K jb = Some (Text json)" "jb \<notin> set (blocks [t])" using assms(6) t(4) by (auto simp: extends_def)
        have eL: "extends H L (set (jb # blocks [t]))" using extends_trans [OF e t(4)] by simp
        have "NULL \<notin> set (jb # blocks [t])" using blocks_not_NULL [OF d(1)] assms(4) by auto
        then have "cells L NULL = None" using eL assms(2) unfolding extends_def by metis
        from heap_connect_report_ok [OF p this literals_extends [OF eL assms(3)]]
        have rep: "heap_connect_report lit L root = Some (connect_report (Some x))" .
        have jL: "cells L jb = Some (Text json)" using extends_dom [OF t(4), of jb] jb(1) by simp
        show ?thesis
        proof (cases "connect_report (Some x)")
          case (Inl b)
          with Some R rep t(1) show ?thesis by (simp add: handled_as_def parsed_root_def)
        next
          case (Inr o2)
          have "\<exists>jsonbuf ts json. jsonbuf \<noteq> NULL \<and> cells L jsonbuf = Some (Text json) \<and> extends H L (set (jsonbuf # blocks ts)) \<and>
             distinct (jsonbuf # blocks ts) \<and> (ts = [] \<or> (\<exists>root t. ts = [t] \<and> detached L root t))"
            using assms(4) jL eL jb(2) d(2) t(2) by (intro exI [of _ jb] exI [of _ "[t]"] exI [of _ json]) auto
          with Inr Some R rep t(1) show ?thesis by (simp add: handled_as_def parsed_root_def)
        qed
      qed
    qed
  qed
qed

lemma handled_if:
  "(b \<Longrightarrow> handled_as al H sh fu P R) \<Longrightarrow> (\<not> b \<Longrightarrow> handled_as al H sh fu Q S) \<Longrightarrow>
    handled_as al H sh fu (if b then P else Q) (if b then R else S)"
  by simp

lemma handled_test:
  "(b \<Longrightarrow> handled_as al H sh fu P R) \<Longrightarrow> (\<not> b \<Longrightarrow> handled_as al H sh fu P S) \<Longrightarrow>
    handled_as al H sh fu P (if b then R else S)"
  by simp

lemma handled_triple:
  "(\<And>a b c. handled_as al H sh fu (f a b c) (F a b c)) \<Longrightarrow>
    handled_as al H sh fu (case x of (a, b, c) \<Rightarrow> f a b c) (case x of (a, b, c) \<Rightarrow> F a b c)"
  by (cases x) simp

lemma handled_text: "handled_as al H sh fu P (F s) \<Longrightarrow>
    handled_as al H sh fu P (bindO (Some (get_text (K\<lparr>cells := (cells K)(p \<mapsto> Text s)\<rparr>) p)) F)"
  by (simp add: get_text_def)

lemma handled_malloc:
  assumes "good_malloc al"
    and "\<And>K. al H k = NULL \<Longrightarrow> handled_as al H sh fu P (F K NULL)"
    and "\<And>K p. p \<noteq> NULL \<Longrightarrow> cells H p = None \<Longrightarrow> cells K = (cells H)(p \<mapsto> v) \<Longrightarrow> calls H \<le> calls K \<Longrightarrow>
      handled_as al H sh fu P (F K p)"
  shows "handled_as al H sh fu P (case cj_malloc al H k v of (K, p) \<Rightarrow> F K p)"
proof -
  obtain K p where m: "cj_malloc al H k v = (K, p)" by fastforce
  then have c: "p = al H k" "calls H \<le> calls K" by (auto simp: cj_malloc_def Let_def)
  show ?thesis
    by (rule malloc_cases [OF assms(1) m]) (use assms(2,3) c in \<open>simp_all add: m\<close>)
qed

lemma handled_report:
  assumes "good_malloc al" and "cells H NULL = None" and "literals lit H"
    and "jb \<noteq> NULL" and "cells H jb = None" and "cells K = (cells H)(jb \<mapsto> v)" and "calls H \<le> calls K"
  shows "handled_as al H sh fu
    (bindR (parsed_root (cJSON_Parse json 0)) (\<lambda>root. bindR (connect_report root) (\<lambda>o2. Inr (sess, o0 @ l # o2, CODE_SUCCESS))))
    (bindO (heap_Parse al json (K\<lparr>cells := (cells K)(jb \<mapsto> Text json)\<rparr>) 0) (\<lambda>(H, ep, root).
      bindO (heap_connect_report lit H root) (\<lambda>o2. ret (H, sess, o0 @ l # o2, CODE_SUCCESS))))"
  using handled_parsed [OF assms(1-5), where out = "o0 @ [l]" and json = json and K = "K\<lparr>cells := (cells K)(jb \<mapsto> Text json)\<rparr>"]
    assms(6,7) by simp

lemma heap_connect_handle_runs:
  assumes "good_malloc al" and "cells H NULL = None" and "literals lit H"
  shows "handled_as al H (len \<le> TNS_HEAD_LEN \<or> CONNECT_DATA_LEN m pkt = Inr 0)
    (\<exists>n. CONNECT_DATA_LEN m pkt = Inr n \<and> al H (2 * unat n) = NULL)
    (tns_connect_handle m pkt len sess) (heap_connect_handle al lit m pkt len sess H)"
  unfolding tns_connect_handle_def heap_connect_handle_def Let_def
  apply (rule handled_if)
  subgoal by (simp add: handled_as_def)
  apply (intro handled_step handled_if)
  subgoal by (auto simp: handled_as_def unat_eq_0)
  apply (rule handled_malloc [OF assms(1)])
  subgoal for o0 n K
    by (intro handled_step handled_test) (auto simp: handled_as_def)
  subgoal
    by (intro handled_step handled_test handled_triple handled_text handled_report [OF assms]) simp_all
  done

section \<open>Many packets\<close>

text \<open>
  The handler called for one packet after the other: each with the receive buffer, the offset and length of the
  packet in it, and the session.
\<close>

fun heap_connect_packets ::
    "allocator \<Rightarrow> (string \<Rightarrow> ptr) \<Rightarrow> (u8 list \<times> nat \<times> nat \<times> tns_session) list \<Rightarrow> cj_heap \<Rightarrow> cj_heap run" where
  "heap_connect_packets al lit [] H = ret H"
| "heap_connect_packets al lit ((m, pkt, len, sess) # ps) H =
     bindO (heap_connect_handle al lit m pkt len sess H) (\<lambda>(H, _). heap_connect_packets al lit ps H)"

fun has_connect_data :: "u8 list \<times> nat \<times> nat \<times> tns_session \<Rightarrow> bool" where
  "has_connect_data (m, pkt, len, sess) \<longleftrightarrow> TNS_HEAD_LEN < len \<and> CONNECT_DATA_LEN m pkt \<noteq> Inr 0"

text \<open>What one packet leaves.\<close>

lemma heap_connect_grows:
  assumes "good_malloc al" and "cells H NULL = None" and "literals lit H"
    and "heap_connect_handle al lit m pkt len sess H = ret (H', r)"
  shows "cells H \<subseteq>\<^sub>m cells H'" "cells H' NULL = None" "literals lit H'"
    "finite (dom (cells H)) \<Longrightarrow> finite (dom (cells H')) \<and>
      card (dom (cells H)) + (if has_connect_data (m, pkt, len, sess) then 1 else 0) \<le> card (dom (cells H'))"
proof -
  obtain sess' out c where r: "r = (sess', out, c)" by (cases r) auto
  have "(len \<le> TNS_HEAD_LEN \<or> CONNECT_DATA_LEN m pkt = Inr 0) \<and> H' = H \<or>
      (\<exists>jsonbuf ts json. jsonbuf \<noteq> NULL \<and> cells H' jsonbuf = Some (Text json) \<and> extends H H' (set (jsonbuf # blocks ts)) \<and>
         distinct (jsonbuf # blocks ts) \<and> (ts = [] \<or> (\<exists>root t. ts = [t] \<and> detached H' root t)))"
    using heap_connect_handle_runs [OF assms(1-3), of len m pkt sess] assms(4) by (auto simp: handled_as_def r)
  then have "cells H \<subseteq>\<^sub>m cells H' \<and> cells H' NULL = None \<and> literals lit H' \<and>
    (finite (dom (cells H)) \<longrightarrow> finite (dom (cells H')) \<and>
      card (dom (cells H)) + (if has_connect_data (m, pkt, len, sess) then 1 else 0) \<le> card (dom (cells H')))"
  proof
    assume "(len \<le> TNS_HEAD_LEN \<or> CONNECT_DATA_LEN m pkt = Inr 0) \<and> H' = H"
    then show ?thesis using assms(2,3) by auto
  next
    assume "\<exists>jsonbuf ts json. jsonbuf \<noteq> NULL \<and> cells H' jsonbuf = Some (Text json) \<and> extends H H' (set (jsonbuf # blocks ts)) \<and>
         distinct (jsonbuf # blocks ts) \<and> (ts = [] \<or> (\<exists>root t. ts = [t] \<and> detached H' root t))"
    then obtain jb ts json where l: "jb \<noteq> NULL" "cells H' jb = Some (Text json)" "extends H H' (set (jb # blocks ts))"
      "ts = [] \<or> (\<exists>root t. ts = [t] \<and> detached H' root t)" by blast
    have sub: "cells H \<subseteq>\<^sub>m cells H'" unfolding map_le_def using extends_dom [OF l(3)] by fastforce
    have "NULL \<notin> set (jb # blocks ts)" using l(1,4) blocks_not_NULL [of H' NULL _ ts NULL NULL] by (auto simp: detached_def)
    then have "cells H' NULL = None" using l(3) assms(2) unfolding extends_def by metis
    moreover have "finite (dom (cells H')) \<and> card (dom (cells H)) + 1 \<le> card (dom (cells H'))" if "finite (dom (cells H))"
    proof -
      have "dom (cells H') \<subseteq> dom (cells H) \<union> set (jb # blocks ts)"
      proof
        fix q
        assume "q \<in> dom (cells H')"
        then show "q \<in> dom (cells H) \<union> set (jb # blocks ts)"
          using l(3) unfolding extends_def by (cases "q \<in> set (jb # blocks ts)") (metis UnCI, metis UnCI domIff)
      qed
      then have fin: "finite (dom (cells H'))" using that by (meson finite_UnI finite_set finite_subset)
      have "cells H jb = None" using l(3) by (simp add: extends_def)
      then have "insert jb (dom (cells H)) \<subseteq> dom (cells H')" using l(2) map_le_implies_dom_le [OF sub] by auto
      from card_mono [OF fin this] have "Suc (card (dom (cells H))) \<le> card (dom (cells H'))"
        using that \<open>cells H jb = None\<close> by (simp add: domIff)
      with fin show ?thesis by simp
    qed
    ultimately show ?thesis using sub literals_extends [OF l(3) assms(3)] by auto
  qed
  then show "cells H \<subseteq>\<^sub>m cells H'" "cells H' NULL = None" "literals lit H'"
    "finite (dom (cells H)) \<Longrightarrow> finite (dom (cells H')) \<and>
      card (dom (cells H)) + (if has_connect_data (m, pkt, len, sess) then 1 else 0) \<le> card (dom (cells H'))" by blast+
qed

lemma heap_connect_packets_grow:
  assumes "good_malloc al"
  shows "cells H NULL = None \<Longrightarrow> literals lit H \<Longrightarrow> finite (dom (cells H)) \<Longrightarrow> heap_connect_packets al lit ps H = ret H' \<Longrightarrow>
    cells H \<subseteq>\<^sub>m cells H' \<and> card (dom (cells H)) + length (filter has_connect_data ps) \<le> card (dom (cells H'))"
proof (induction ps arbitrary: H)
  case Nil
  then show ?case by simp
next
  case (Cons p ps)
  obtain m pkt len sess where p: "p = (m, pkt, len, sess)" by (cases p) auto
  with Cons.prems(4) obtain K r where K: "heap_connect_handle al lit m pkt len sess H = ret (K, r)"
    "heap_connect_packets al lit ps K = ret H'"
    by (cases "heap_connect_handle al lit m pkt len sess H") (auto simp: bindO_def split: sum.splits)
  note g = heap_connect_grows [OF assms Cons.prems(1,2) K(1)]
  from g(4) [OF Cons.prems(3)] have f: "finite (dom (cells K))"
    "card (dom (cells H)) + (if has_connect_data p then 1 else 0) \<le> card (dom (cells K))" by (simp_all only: p)
  from Cons.IH [OF g(2,3) f(1) K(2)] g(1) f(2) show ?case by (auto intro: map_le_trans split: if_splits)
qed

section \<open>Properties\<close>


text \<open>A memory with the literals, and a packet with the connect data (A=B).\<close>

definition ex_lit :: "string \<Rightarrow> ptr" where
  "ex_lit s = (if s = ''DESCRIPTION'' then 1 else if s = ''CONNECT_DATA'' then 2 else if s = ''SERVICE_NAME'' then 3
     else if s = ''CID'' then 4 else if s = ''HOST'' then 5 else 6)"

definition ex_lit_heap :: cj_heap where
  "ex_lit_heap = \<lparr>cells = [1 \<mapsto> Literal (bytes_of ''DESCRIPTION''), 2 \<mapsto> Literal (bytes_of ''CONNECT_DATA''),
     3 \<mapsto> Literal (bytes_of ''SERVICE_NAME''), 4 \<mapsto> Literal (bytes_of ''CID''), 5 \<mapsto> Literal (bytes_of ''HOST''),
     6 \<mapsto> Literal (bytes_of ''USER'')], calls = 0\<rparr>"

definition small_connect :: "u8 list" where
  "small_connect = [0, 33, 0, 0, 1, 0, 0, 0, 0x01, 0x39, 0x01, 0x2C,
     0, 0, 0, 0, 0, 0, 0, 0, 0, 0, 0, 0, 0, 5, 0, 28] @ bytes_of ''(A=B)''"

lemma ex_lit_heap_ok: "cells ex_lit_heap NULL = None" "literals ex_lit ex_lit_heap" "finite (dom (cells ex_lit_heap))"
  by (simp_all add: ex_lit_heap_def literals_def ex_lit_def)

declare object_walk.simps [code]


text \<open>C36: memory only grows: after any sequence of connect packets that the program survives, every block that was
  allocated before is allocated still, with what it held, and there is at least one block more for every packet
  with connect data among them.\<close>
theorem tns_connect_packets_leak:
  assumes "good_malloc al" and "cells H NULL = None" and "literals lit H" and "finite (dom (cells H))"
    and "heap_connect_packets al lit ps H = ret H'"
  shows "cells H \<subseteq>\<^sub>m cells H' \<and> card (dom (cells H)) + length (filter has_connect_data ps) \<le> card (dom (cells H'))"
  by (rule heap_connect_packets_grow [OF assms])

theorem tns_connect_packets_leak_witness:
  "\<exists>H'. heap_connect_packets ex_malloc ex_lit (replicate 2 (small_connect, 0, 33, zero_session)) ex_lit_heap = ret H' \<and>
    card (dom (cells ex_lit_heap)) + 2 \<le> card (dom (cells H'))"
proof -
  let ?ps = "replicate 2 (small_connect, 0, 33, zero_session)"
  have "(case heap_connect_packets ex_malloc ex_lit ?ps ex_lit_heap of Some (Inr _) \<Rightarrow> True | _ \<Rightarrow> False)" by code_simp
  then obtain H' where H': "heap_connect_packets ex_malloc ex_lit ?ps ex_lit_heap = ret H'"
    by (auto split: option.splits sum.splits)
  have "length (filter has_connect_data ?ps) = 2" by code_simp
  with tns_connect_packets_leak [OF ex_good_malloc ex_lit_heap_ok H'] H' show ?thesis by auto
qed

end
