(* ===== verification/HList.thy ===== *)
theory HList
  imports ListHead
begin

text \<open>
  The hash lists of \<^verbatim>\<open>src/src/list.h\<close>: a list with a head of one pointer, whose nodes point
  back at the pointer that points at them. \<^verbatim>\<open>pprev\<close> holds the address of a pointer: of the
  head's \<^verbatim>\<open>first\<close> or of a node's \<^verbatim>\<open>next\<close>, each the first field of its structure, so that the
  address of the pointer is the address of the structure. \<open>hw\<close> is what these pointers hold
  and \<open>hp\<close> the \<^verbatim>\<open>pprev\<close> fields of the nodes.
\<close>

record hmem =
  hw :: "ptr \<rightharpoonup> ptr"
  hp :: "ptr \<rightharpoonup> ptr"

definition get_word :: "hmem \<Rightarrow> ptr \<Rightarrow> ptr res" where
  "get_word m a = (case hw m a of None \<Rightarrow> Inl (BadPtr a) | Some v \<Rightarrow> Inr v)"

definition set_word :: "hmem \<Rightarrow> ptr \<Rightarrow> ptr \<Rightarrow> hmem res" where
  "set_word m a v = (if hw m a = None then Inl (BadPtr a) else Inr (m\<lparr>hw := (hw m)(a \<mapsto> v)\<rparr>))"

definition get_pprev :: "hmem \<Rightarrow> ptr \<Rightarrow> ptr res" where
  "get_pprev m a = (case hp m a of None \<Rightarrow> Inl (BadPtr a) | Some v \<Rightarrow> Inr v)"

definition set_pprev :: "hmem \<Rightarrow> ptr \<Rightarrow> ptr \<Rightarrow> hmem res" where
  "set_pprev m a v = (if hp m a = None then Inl (BadPtr a) else Inr (m\<lparr>hp := (hp m)(a \<mapsto> v)\<rparr>))"

section \<open>Operations\<close>

definition INIT_HLIST_HEAD :: "hmem \<Rightarrow> ptr \<Rightarrow> hmem res" where
  "INIT_HLIST_HEAD m h = set_word m h NULL"

definition INIT_HLIST_NODE :: "hmem \<Rightarrow> ptr \<Rightarrow> hmem res" where
  "INIT_HLIST_NODE m n = bindR (set_word m n NULL) (\<lambda>m. set_pprev m n NULL)"

definition hlist_unhashed :: "hmem \<Rightarrow> ptr \<Rightarrow> bool res" where
  "hlist_unhashed m n = bindR (get_pprev m n) (\<lambda>p. Inr (p = NULL))"

definition hlist_empty :: "hmem \<Rightarrow> ptr \<Rightarrow> bool res" where
  "hlist_empty m h = bindR (get_word m h) (\<lambda>f. Inr (f = NULL))"

definition hlist_del_raw :: "hmem \<Rightarrow> ptr \<Rightarrow> hmem res" where
  "hlist_del_raw m n =
     bindR (get_word m n) (\<lambda>next.
     bindR (get_pprev m n) (\<lambda>pprev.
     bindR (set_word m pprev next) (\<lambda>m.
     if next \<noteq> NULL then set_pprev m next pprev else Inr m)))"

definition hlist_del :: "hmem \<Rightarrow> ptr \<Rightarrow> hmem res" where
  "hlist_del m n =
     bindR (hlist_del_raw m n) (\<lambda>m.
     bindR (set_word m n LIST_POISON1) (\<lambda>m.
     set_pprev m n LIST_POISON2))"

definition hlist_del_init :: "hmem \<Rightarrow> ptr \<Rightarrow> hmem res" where
  "hlist_del_init m n =
     bindR (hlist_unhashed m n) (\<lambda>u.
     if \<not> u then bindR (hlist_del_raw m n) (\<lambda>m. INIT_HLIST_NODE m n) else Inr m)"

definition hlist_add_head :: "hmem \<Rightarrow> ptr \<Rightarrow> ptr \<Rightarrow> hmem res" where
  "hlist_add_head m n h =
     bindR (get_word m h) (\<lambda>first.
     bindR (set_word m n first) (\<lambda>m.
     bindR (if first \<noteq> NULL then set_pprev m first n else Inr m) (\<lambda>m.
     bindR (set_word m h n) (\<lambda>m.
     set_pprev m n h))))"

definition hlist_add_before :: "hmem \<Rightarrow> ptr \<Rightarrow> ptr \<Rightarrow> hmem res" where
  "hlist_add_before m n next =
     bindR (get_pprev m next) (\<lambda>p.
     bindR (set_pprev m n p) (\<lambda>m.
     bindR (set_word m n next) (\<lambda>m.
     bindR (set_pprev m next n) (\<lambda>m.
     bindR (get_pprev m n) (\<lambda>p.
     set_word m p n)))))"

definition hlist_add_after :: "hmem \<Rightarrow> ptr \<Rightarrow> ptr \<Rightarrow> hmem res" where
  "hlist_add_after m n next =
     bindR (get_word m n) (\<lambda>v.
     bindR (set_word m next v) (\<lambda>m.
     bindR (set_word m n next) (\<lambda>m.
     bindR (set_pprev m next n) (\<lambda>m.
     bindR (get_word m next) (\<lambda>v.
     if v \<noteq> NULL then set_pprev m v next else Inr m)))))"

definition hlist_add_fake :: "hmem \<Rightarrow> ptr \<Rightarrow> hmem res" where
  "hlist_add_fake m n = set_pprev m n n"

definition hlist_move_list :: "hmem \<Rightarrow> ptr \<Rightarrow> ptr \<Rightarrow> hmem res" where
  "hlist_move_list m old a =
     bindR (get_word m old) (\<lambda>first.
     bindR (set_word m a first) (\<lambda>m.
     bindR (if first \<noteq> NULL then set_pprev m first a else Inr m) (\<lambda>m.
     set_word m old NULL)))"

text \<open>The loops of the iteration macros; \<open>None\<close> is a loop that does not end.\<close>

partial_function (option) hlist_for_each_loop :: "hmem \<Rightarrow> ptr \<Rightarrow> ptr list \<Rightarrow> ptr list res option" where
  "hlist_for_each_loop m pos seen =
     (if pos \<noteq> NULL
      then case get_word m pos of
             Inl e \<Rightarrow> Some (Inl e)
           | Inr n \<Rightarrow> hlist_for_each_loop m n (seen @ [pos])
      else Some (Inr seen))"

definition hlist_for_each :: "hmem \<Rightarrow> ptr \<Rightarrow> ptr list res option" where
  "hlist_for_each m h =
     (case get_word m h of Inl e \<Rightarrow> Some (Inl e) | Inr p \<Rightarrow> hlist_for_each_loop m p [])"

partial_function (option) hlist_for_each_safe_loop ::
    "(hmem \<Rightarrow> ptr \<Rightarrow> hmem res) \<Rightarrow> hmem \<Rightarrow> ptr \<Rightarrow> hmem res option" where
  "hlist_for_each_safe_loop body m pos =
     (if pos \<noteq> NULL
      then case get_word m pos of
             Inl e \<Rightarrow> Some (Inl e)
           | Inr n \<Rightarrow> (case body m pos of
                         Inl e \<Rightarrow> Some (Inl e)
                       | Inr m \<Rightarrow> hlist_for_each_safe_loop body m n)
      else Some (Inr m))"

definition hlist_for_each_safe ::
    "(hmem \<Rightarrow> ptr \<Rightarrow> hmem res) \<Rightarrow> hmem \<Rightarrow> ptr \<Rightarrow> hmem res option" where
  "hlist_for_each_safe body m h =
     (case get_word m h of Inl e \<Rightarrow> Some (Inl e) | Inr p \<Rightarrow> hlist_for_each_safe_loop body m p)"

section \<open>The abstraction\<close>

text \<open>\<open>hseg m w xs\<close>: from the pointer at \<open>w\<close> on, the nodes are \<open>xs\<close>, up to NULL.\<close>

fun hseg :: "hmem \<Rightarrow> ptr \<Rightarrow> ptr list \<Rightarrow> bool" where
  "hseg m w [] \<longleftrightarrow> hw m w = Some NULL"
| "hseg m w (x # xs) \<longleftrightarrow> x \<noteq> NULL \<and> hw m w = Some x \<and> hp m x = Some w \<and> hseg m x xs"

definition hlist :: "hmem \<Rightarrow> ptr \<Rightarrow> ptr list \<Rightarrow> bool" where
  "hlist m h xs \<longleftrightarrow> distinct (h # xs) \<and> h \<noteq> NULL \<and> hseg m h xs"

text \<open>The links of \<open>xs\<close> after the pointer at \<open>w\<close>, up to the last node of \<open>xs\<close>.\<close>

fun hpath :: "hmem \<Rightarrow> ptr \<Rightarrow> ptr list \<Rightarrow> bool" where
  "hpath m w [] \<longleftrightarrow> True"
| "hpath m w (x # xs) \<longleftrightarrow> x \<noteq> NULL \<and> hw m w = Some x \<and> hp m x = Some w \<and> hpath m x xs"

lemma hseg_append: "hseg m w (xs @ ys) \<longleftrightarrow> hpath m w xs \<and> hseg m (left_of w xs) ys"
  by (induction xs arbitrary: w) (auto simp: left_of_def)

lemma hpath_cong:
  "(\<And>q. q \<in> set (butlast (w # xs)) \<Longrightarrow> hw m' q = hw m q) \<Longrightarrow> (\<And>q. q \<in> set xs \<Longrightarrow> hp m' q = hp m q) \<Longrightarrow>
    hpath m' w xs = hpath m w xs"
  by (induction xs arbitrary: w) auto

lemma hseg_cong:
  "(\<And>q. q \<in> set (w # xs) \<Longrightarrow> hw m' q = hw m q) \<Longrightarrow> (\<And>q. q \<in> set xs \<Longrightarrow> hp m' q = hp m q) \<Longrightarrow>
    hseg m' w xs = hseg m w xs"
  by (induction xs arbitrary: w) auto

lemma hlist_frame:
  "hlist m h xs \<Longrightarrow> (\<And>q. q \<in> insert h (set xs) \<Longrightarrow> hw m' q = hw m q \<and> hp m' q = hp m q) \<Longrightarrow> hlist m' h xs"
  using hseg_cong [of h xs m' m] by (auto simp: hlist_def)

lemmas hmem_defs = get_word_def set_word_def get_pprev_def set_pprev_def

lemma hlist_split:
  assumes "hlist m h (xs @ ys)"
  shows "hpath m h xs" "hseg m (left_of h xs) ys" "distinct (h # xs @ ys)" "h \<noteq> NULL"
  using assms by (auto simp: hlist_def hseg_append)

lemma hlist_join:
  "distinct (h # xs @ ys) \<Longrightarrow> h \<noteq> NULL \<Longrightarrow> hpath m h xs \<Longrightarrow> hseg m (left_of h xs) ys \<Longrightarrow> hlist m h (xs @ ys)"
  by (simp add: hlist_def hseg_append)

lemma left_of_cases: "left_of h xs = h \<and> xs = [] \<or> left_of h xs \<in> set xs"
  by (auto simp: left_of_def)

lemma butlast_path: "distinct (h # xs) \<Longrightarrow> q \<in> set (butlast (h # xs)) \<Longrightarrow> q \<in> set (h # xs) \<and> q \<noteq> left_of h xs"
  unfolding left_of_def by (rule in_butlast_distinct)

section \<open>Laws\<close>

definition right_nodes :: "ptr list \<Rightarrow> ptr set" where
  "right_nodes ys = set (take 1 ys)"

lemma right_nodes_simps [simp]: "right_nodes [] = {}" "right_nodes (y # ys) = {y}"
  by (simp_all add: right_nodes_def)

text \<open>
  One step for all: writing \<open>v\<close>, the address of the nodes \<open>ys\<close>, into the pointer at the end
  of \<open>xs\<close>, and that pointer's address into the first of \<open>ys\<close>, joins the two.
\<close>

lemma hlist_relink:
  assumes "hpath m h xs" and "hseg m w ys" and "distinct (h # xs @ ys)" and "h \<noteq> NULL"
    and m1: "hw m1 (left_of h xs) = hw m w" "\<And>q. q \<in> set (h # xs @ ys) \<Longrightarrow> q \<noteq> left_of h xs \<Longrightarrow> hw m1 q = hw m q"
    and m2: "\<And>y. y \<in> right_nodes ys \<Longrightarrow> hp m1 y = Some (left_of h xs)"
      "\<And>q. q \<in> set (xs @ ys) \<Longrightarrow> q \<notin> right_nodes ys \<Longrightarrow> hp m1 q = hp m q"
  shows "hlist m1 h (xs @ ys)"
proof (rule hlist_join [OF assms(3,4)])
  have "q \<notin> right_nodes ys" if "q \<in> set xs" for q using assms(3) that by (cases ys) auto
  then have "hp m1 q = hp m q" if "q \<in> set xs" for q using that m2(2) by simp
  moreover have "hw m1 q = hw m q" if "q \<in> set (butlast (h # xs))" for q
    using butlast_path [OF _ that] assms(3) m1(2) by auto
  ultimately show "hpath m1 h xs" using assms(1) hpath_cong [of h xs m1 m] by blast
  show "hseg m1 (left_of h xs) ys"
  proof (cases ys)
    case Nil
    with assms(2) m1(1) show ?thesis by simp
  next
    case (Cons y zs)
    have "left_of h xs \<notin> set (y # zs)" using assms(3) left_of_cases [of h xs] Cons by auto
    then have "hseg m1 y zs = hseg m y zs"
      using m1(2) m2(2) assms(3) Cons by (intro hseg_cong) auto
    with assms(2) m1(1) m2(1) Cons show ?thesis by simp
  qed
qed

lemma hlist_del_raw_law:
  assumes "hlist m h (xs @ n # ys)"
  shows "\<exists>m'. hlist_del_raw m n = Inr m' \<and> hlist m' h (xs @ ys) \<and> hw m' n = hw m n \<and> hp m' n = hp m n \<and>
    (\<forall>q. q \<notin> insert (left_of h xs) (right_nodes ys) \<longrightarrow> hw m' q = hw m q \<and> hp m' q = hp m q)"
proof -
  note s = hlist_split [OF assms]
  let ?l = "left_of h xs"
  from s(2) have n: "n \<noteq> NULL" "hw m ?l = Some n" "hp m n = Some ?l" "hseg m n ys" by simp_all
  have l: "?l \<noteq> n" "?l \<notin> set ys" using s(3) left_of_cases [of h xs] by auto
  define v where "v = (case ys of [] \<Rightarrow> NULL | y # _ \<Rightarrow> y)"
  have v: "hw m n = Some v" "v \<noteq> NULL \<longrightarrow> v \<in> right_nodes ys \<and> hp m v = Some n" "v = NULL \<longrightarrow> ys = []"
    using n(4) by (auto simp: v_def split: list.splits)
  define m' where "m' = m\<lparr>hw := (hw m)(?l \<mapsto> v), hp := (if v \<noteq> NULL then (hp m)(v \<mapsto> ?l) else hp m)\<rparr>"
  have r: "hlist_del_raw m n = Inr m'"
    using n v by (simp add: hlist_del_raw_def hmem_defs m'_def)
  have right: "right_nodes ys = (if v = NULL then {} else {v})"
    using v(2,3) by (cases ys) (auto simp: v_def)
  have "hlist m' h (xs @ ys)"
    by (rule hlist_relink [OF s(1) n(4)]) (use s(3,4) v l right in \<open>auto simp: m'_def\<close>)
  moreover have "n \<notin> right_nodes ys" using s(3) by (cases ys) auto
  ultimately show ?thesis using r l(1) right by (intro exI [of _ m']) (auto simp: m'_def)
qed

lemma hlist_del_law:
  assumes "hlist m h (xs @ n # ys)"
  shows "\<exists>m'. hlist_del m n = Inr m' \<and> hlist m' h (xs @ ys) \<and>
    hw m' n = Some LIST_POISON1 \<and> hp m' n = Some LIST_POISON2 \<and>
    (\<forall>q. q \<notin> insert (left_of h xs) (insert n (right_nodes ys)) \<longrightarrow> hw m' q = hw m q \<and> hp m' q = hp m q)"
proof -
  from hlist_del_raw_law [OF assms] obtain m1 where m1: "hlist_del_raw m n = Inr m1" "hlist m1 h (xs @ ys)"
    "hw m1 n = hw m n" "hp m1 n = hp m n"
    "\<forall>q. q \<notin> insert (left_of h xs) (right_nodes ys) \<longrightarrow> hw m1 q = hw m q \<and> hp m1 q = hp m q" by blast
  have "hw m n \<noteq> None" "hp m n \<noteq> None" using hlist_split(2) [OF assms] by (cases ys; simp)+
  with m1(3,4) obtain a b where ab: "hw m1 n = Some a" "hp m1 n = Some b" by auto
  define m' where "m' = m1\<lparr>hw := (hw m1)(n \<mapsto> LIST_POISON1), hp := (hp m1)(n \<mapsto> LIST_POISON2)\<rparr>"
  have "hlist_del m n = Inr m'" using m1(1) ab by (simp add: hlist_del_def hmem_defs m'_def)
  moreover have "n \<notin> insert h (set (xs @ ys))" using assms by (auto simp: hlist_def)
  then have "hlist m' h (xs @ ys)" by (intro hlist_frame [OF m1(2)]) (auto simp: m'_def)
  ultimately show ?thesis using m1(5) by (intro exI [of _ m']) (auto simp: m'_def)
qed

lemma hpath_left: "hpath m h xs \<Longrightarrow> h \<noteq> NULL \<Longrightarrow> left_of h xs \<noteq> NULL"
  by (induction xs arbitrary: h) (auto simp: left_of_def)

lemma hlist_del_init_law:
  assumes "hlist m h (xs @ n # ys)"
  shows "\<exists>m'. hlist_del_init m n = Inr m' \<and> hlist m' h (xs @ ys) \<and> hlist_unhashed m' n = Inr True \<and>
    hlist_del_init m' n = Inr m'"
proof -
  from hlist_del_raw_law [OF assms] obtain m1 where m1: "hlist_del_raw m n = Inr m1" "hlist m1 h (xs @ ys)"
    "hw m1 n = hw m n" "hp m1 n = hp m n" by blast
  have n: "hp m n = Some (left_of h xs)" "hw m n \<noteq> None" using hlist_split(2) [OF assms] by (cases ys; simp)+
  have "left_of h xs \<noteq> NULL" by (rule hpath_left [OF hlist_split(1,4) [OF assms]])
  then have u: "hlist_unhashed m n = Inr False" using n(1) by (simp add: hlist_unhashed_def hmem_defs)
  from n m1(3,4) obtain a b where ab: "hw m1 n = Some a" "hp m1 n = Some b" by auto
  define m' where "m' = m1\<lparr>hw := (hw m1)(n \<mapsto> NULL), hp := (hp m1)(n \<mapsto> NULL)\<rparr>"
  have "hlist_del_init m n = Inr m'" using m1(1) ab u by (simp add: hlist_del_init_def INIT_HLIST_NODE_def hmem_defs m'_def)
  moreover have "n \<notin> insert h (set (xs @ ys))" using assms by (auto simp: hlist_def)
  then have "hlist m' h (xs @ ys)" by (intro hlist_frame [OF m1(2)]) (auto simp: m'_def)
  moreover have "hlist_unhashed m' n = Inr True" by (simp add: hlist_unhashed_def hmem_defs m'_def)
  moreover from this have "hlist_del_init m' n = Inr m'" by (simp add: hlist_del_init_def)
  ultimately show ?thesis by blast
qed

text \<open>A node with both its fields, which is on no list.\<close>

definition free_node :: "hmem \<Rightarrow> ptr \<Rightarrow> bool" where
  "free_node m n \<longleftrightarrow> n \<noteq> NULL \<and> hw m n \<noteq> None \<and> hp m n \<noteq> None"

lemma hlist_insert:
  assumes "hpath m h xs" and "hseg m (left_of h xs) ys" and "distinct (h # xs @ ys)" and "h \<noteq> NULL"
    and "n \<noteq> NULL" and "n \<notin> set (h # xs @ ys)"
    and "m' = m\<lparr>hw := (hw m)(left_of h xs \<mapsto> n, n \<mapsto> v),
      hp := (if v \<noteq> NULL then (hp m)(n \<mapsto> left_of h xs, v \<mapsto> n) else (hp m)(n \<mapsto> left_of h xs))\<rparr>"
    and "v = (case ys of [] \<Rightarrow> NULL | y # _ \<Rightarrow> y)"
  shows "hlist m' h (xs @ n # ys)"
proof -
  let ?l = "left_of h xs"
  have l: "?l \<noteq> n" "?l \<notin> set ys" using assms(3,6) left_of_cases [of h xs] by auto
  have "hpath m' h xs"
  proof -
    have "hw m' q = hw m q" if "q \<in> set (butlast (h # xs))" for q
      using butlast_path [OF _ that] assms(3,6,7) by auto
    moreover have "hp m' q = hp m q" if "q \<in> set xs" for q
    proof -
      have "q \<noteq> v \<or> v = NULL" using assms(3,8) that by (cases ys) auto
      then show ?thesis using assms(6,7) that by auto
    qed
    ultimately show ?thesis using assms(1) hpath_cong [of h xs m' m] by blast
  qed
  moreover have "hseg m' n ys"
  proof (cases ys)
    case Nil
    with assms(7,8) l show ?thesis by simp
  next
    case (Cons y zs)
    have "hseg m' y zs = hseg m y zs"
      using assms(3,6,7,8) l Cons by (intro hseg_cong) auto
    with assms(2,7,8) l Cons show ?thesis by simp
  qed
  moreover have "hw m' ?l = Some n" "hp m' n = Some ?l"
    using l(1) assms(6,7,8) by (cases ys; auto)+
  ultimately show ?thesis using assms(3-6) by (intro hlist_join) auto
qed

text \<open>The list after the node \<open>n\<close> was put between \<open>xs\<close> and \<open>ys\<close>.\<close>

definition hlist_inserts :: "hmem res \<Rightarrow> ptr \<Rightarrow> ptr list \<Rightarrow> ptr \<Rightarrow> ptr list \<Rightarrow> bool" where
  "hlist_inserts r h xs n ys \<longleftrightarrow> (\<exists>m'. r = Inr m' \<and> hlist m' h (xs @ n # ys))"

lemma hlist_add_head_law:
  assumes "hlist m h xs" and "free_node m n" and "n \<notin> set (h # xs)"
  shows "hlist_inserts (hlist_add_head m n h) h [] n xs"
proof -
  from assms(1) have s: "hseg m h xs" "distinct (h # xs)" "h \<noteq> NULL" by (simp_all add: hlist_def)
  define v where "v = (case xs of [] \<Rightarrow> NULL | y # _ \<Rightarrow> y)"
  have v: "hw m h = Some v" "v \<noteq> NULL \<longrightarrow> hp m v = Some h \<and> v \<in> set xs"
    using s(1) by (auto simp: v_def split: list.splits)
  have n: "n \<noteq> NULL" "n \<noteq> h" "n \<notin> set xs" "hw m n \<noteq> None" "hp m n \<noteq> None" using assms(2,3) by (auto simp: free_node_def)
  define m' where "m' = m\<lparr>hw := (hw m)(left_of h [] \<mapsto> n, n \<mapsto> v),
      hp := (if v \<noteq> NULL then (hp m)(n \<mapsto> left_of h [], v \<mapsto> n) else (hp m)(n \<mapsto> left_of h []))\<rparr>"
  have "hlist m' h ([] @ n # xs)"
    by (rule hlist_insert [of m h "[]" xs n m' v]) (use s n in \<open>simp_all add: left_of_def m'_def v_def\<close>)
  moreover have "hlist_add_head m n h = Inr m'"
    using n v by (auto simp: hlist_add_head_def hmem_defs m'_def left_of_def fun_upd_twist)
  ultimately show ?thesis by (simp add: hlist_inserts_def)
qed

lemma hlist_add_before_law:
  assumes "hlist m h (xs @ x # ys)" and "free_node m n" and "n \<notin> set (h # xs @ x # ys)"
  shows "hlist_inserts (hlist_add_before m n x) h xs n (x # ys)"
proof -
  note s = hlist_split [OF assms(1)]
  let ?l = "left_of h xs"
  have n: "n \<noteq> NULL" "n \<noteq> x" "n \<noteq> ?l" "hw m n \<noteq> None" "hp m n \<noteq> None"
    using assms(2,3) left_of_cases [of h xs] by (auto simp: free_node_def)
  from s(2) have x: "x \<noteq> NULL" "hw m ?l = Some x" "hp m x = Some ?l" by simp_all
  define m' where "m' = m\<lparr>hw := (hw m)(?l \<mapsto> n, n \<mapsto> x),
      hp := (if x \<noteq> NULL then (hp m)(n \<mapsto> ?l, x \<mapsto> n) else (hp m)(n \<mapsto> ?l))\<rparr>"
  have "hlist m' h (xs @ n # x # ys)"
    by (rule hlist_insert [OF s n(1) assms(3), of m' x]) (simp_all add: m'_def)
  moreover have "hlist_add_before m n x = Inr m'"
    using n x by (auto simp: hlist_add_before_def hmem_defs m'_def fun_upd_twist)
  ultimately show ?thesis by (simp add: hlist_inserts_def)
qed

lemma left_of_snoc: "left_of h (xs @ [x]) = x"
  by (simp add: left_of_def)

lemma hlist_add_after_law:
  assumes "hlist m h (xs @ x # ys)" and "free_node m n" and "n \<notin> set (h # xs @ x # ys)"
  shows "hlist_inserts (hlist_add_after m x n) h (xs @ [x]) n ys"
proof -
  have "hlist m h ((xs @ [x]) @ ys)" using assms(1) by simp
  note s = hlist_split [OF this, unfolded left_of_snoc]
  define v where "v = (case ys of [] \<Rightarrow> NULL | y # _ \<Rightarrow> y)"
  have v: "hw m x = Some v" "v \<noteq> NULL \<longrightarrow> hp m v = Some x \<and> v \<in> set ys"
    using s(2) by (auto simp: v_def split: list.splits)
  have n: "n \<noteq> NULL" "n \<noteq> x" "n \<notin> set ys" "hw m n \<noteq> None" "hp m n \<noteq> None" using assms(2,3) by (auto simp: free_node_def)
  define m' where "m' = m\<lparr>hw := (hw m)(left_of h (xs @ [x]) \<mapsto> n, n \<mapsto> v),
      hp := (if v \<noteq> NULL then (hp m)(n \<mapsto> left_of h (xs @ [x]), v \<mapsto> n) else (hp m)(n \<mapsto> left_of h (xs @ [x])))\<rparr>"
  have "hlist m' h ((xs @ [x]) @ n # ys)"
    by (rule hlist_insert [of m h "xs @ [x]" ys n m' v])
      (use s n assms(3) in \<open>simp_all add: left_of_snoc m'_def v_def\<close>)
  moreover have "hlist_add_after m x n = Inr m'"
    using n v by (auto simp: hlist_add_after_def hmem_defs m'_def left_of_snoc fun_upd_twist)
  ultimately show ?thesis by (simp add: hlist_inserts_def)
qed

lemma hlist_move_list_law:
  assumes "hlist m old xs" and "hw m a \<noteq> None" and "a \<noteq> NULL" and "a \<notin> set (old # xs)"
  shows "\<exists>m'. hlist_move_list m old a = Inr m' \<and> hlist m' a xs \<and> hlist m' old [] \<and> hlist_empty m' old = Inr True"
proof -
  from assms(1) have s: "hseg m old xs" "distinct (old # xs)" "old \<noteq> NULL" by (simp_all add: hlist_def)
  define v where "v = (case xs of [] \<Rightarrow> NULL | y # _ \<Rightarrow> y)"
  have v: "hw m old = Some v" "v \<noteq> NULL \<longrightarrow> hp m v = Some old"
    using s(1) by (auto simp: v_def split: list.splits)
  define m1 where "m1 = m\<lparr>hw := (hw m)(a \<mapsto> v), hp := (if v \<noteq> NULL then (hp m)(v \<mapsto> a) else hp m)\<rparr>"
  define m' where "m' = m1\<lparr>hw := (hw m1)(old \<mapsto> NULL)\<rparr>"
  have "hlist_move_list m old a = Inr m'"
    using assms(2,4) v by (auto simp: hlist_move_list_def hmem_defs m'_def m1_def)
  moreover have "hlist m1 a xs"
  proof (cases xs)
    case Nil
    then have "v = NULL" by (simp add: v_def)
    with Nil assms(3) show ?thesis by (simp add: hlist_def m1_def)
  next
    case (Cons y zs)
    with s have y: "v = y" "y \<noteq> NULL" "y \<noteq> a" "y \<notin> set zs" "a \<notin> set zs" "hseg m y zs" using assms(4) by (auto simp: v_def)
    have "hseg m1 y zs = hseg m y zs" by (rule hseg_cong) (use y in \<open>auto simp: m1_def\<close>)
    with y assms(3) s(2) Cons show ?thesis by (simp add: hlist_def m1_def)
  qed
  then have "hlist m' a xs" 
    by (rule hlist_frame) (use s(2) assms(4) in \<open>auto simp: m'_def\<close>)
  moreover have "hlist m' old []" using s(3) by (simp add: hlist_def m'_def)
  ultimately show ?thesis by (auto simp: hlist_empty_def hmem_defs m'_def)
qed

lemma hlist_add_fake_del:
  assumes "free_node m n" and "hw m n = Some NULL"
  shows "\<exists>m1 m2. hlist_add_fake m n = Inr m1 \<and> hlist_unhashed m1 n = Inr False \<and> hlist_del m1 n = Inr m2"
  using assms by (auto simp: free_node_def hlist_add_fake_def hlist_unhashed_def hlist_del_def hlist_del_raw_def hmem_defs)

lemma hlist_for_each_loop_run:
  "hseg m w xs \<Longrightarrow> \<exists>p. hw m w = Some p \<and> hlist_for_each_loop m p seen = Some (Inr (seen @ xs))"
proof (induction xs arbitrary: w seen)
  case Nil
  then show ?case by (auto intro: exI [of _ NULL] simp: hlist_for_each_loop.simps [of m NULL])
next
  case (Cons x xs)
  from Cons.prems have "hseg m x xs" by simp
  from Cons.IH [OF this, of "seen @ [x]"] obtain p
    where "hw m x = Some p" "hlist_for_each_loop m p (seen @ [x]) = Some (Inr (seen @ x # xs))" by auto
  with Cons.prems show ?case by (subst hlist_for_each_loop.simps) (simp add: get_word_def)
qed

lemma hlist_for_each_visits: "hlist m h xs \<Longrightarrow> hlist_for_each m h = Some (Inr xs)"
  using hlist_for_each_loop_run [of m h xs "[]"] by (auto simp: hlist_def hlist_for_each_def get_word_def)

lemma hlist_for_each_safe_loop_del:
  "hlist m h xs \<Longrightarrow> hw m h = Some p \<Longrightarrow>
    \<exists>m'. hlist_for_each_safe_loop hlist_del m p = Some (Inr m') \<and> hlist m' h []"
proof (induction xs arbitrary: m p)
  case Nil
  then have "p = NULL" by (simp add: hlist_def)
  with Nil show ?case by (auto simp: hlist_for_each_safe_loop.simps)
next
  case (Cons x xs)
  then have p: "p = x" "x \<noteq> NULL" "hseg m x xs" by (auto simp: hlist_def)
  from p(3) obtain q where q: "hw m x = Some q" by (cases xs) auto
  from hlist_del_law [of m h "[]" x xs] Cons.prems(1) obtain m1
    where m1: "hlist_del m x = Inr m1" "hlist m1 h xs" by auto
  have "hw m1 h = Some q" using m1(2) p(3) q by (cases xs) (auto simp: hlist_def)
  from Cons.IH [OF m1(2) this] p(1,2) q m1(1) show ?case
    by (subst hlist_for_each_safe_loop.simps) (simp add: get_word_def)
qed

lemma hlist_for_each_safe_del_empties:
  assumes "hlist m h xs"
  shows "\<exists>m'. hlist_for_each_safe hlist_del m h = Some (Inr m') \<and> hlist m' h []"
proof -
  from assms obtain p where "hw m h = Some p" by (cases xs) (auto simp: hlist_def)
  with hlist_for_each_safe_loop_del [OF assms this] show ?thesis by (simp add: hlist_for_each_safe_def get_word_def)
qed

section \<open>Properties\<close>

text \<open>A memory with the list 10: [11, 12, 13] and a free node 30.\<close>

definition ex_hmem :: hmem where
  "ex_hmem = \<lparr>hw = [10 \<mapsto> 11, 11 \<mapsto> 12, 12 \<mapsto> 13, 13 \<mapsto> 0, 30 \<mapsto> 7], hp = [11 \<mapsto> 10, 12 \<mapsto> 11, 13 \<mapsto> 12, 30 \<mapsto> 7]\<rparr>"

lemma ex_hmem_list: "hlist ex_hmem 10 ([11] @ 12 # [13])" "free_node ex_hmem 30" "30 \<notin> set (10 # [11] @ 12 # [13 :: nat])"
  by (simp_all add: hlist_def ex_hmem_def free_node_def)

lemma hlist_inserts_del:
  assumes "hlist_inserts r h xs n ys"
  shows "\<exists>m1 m2. r = Inr m1 \<and> hlist m1 h (xs @ n # ys) \<and> hlist_for_each m1 h = Some (Inr (xs @ n # ys)) \<and>
    hlist_del_init m1 n = Inr m2 \<and> hlist m2 h (xs @ ys) \<and> hlist_unhashed m2 n = Inr True"
  using assms hlist_del_init_law hlist_for_each_visits unfolding hlist_inserts_def by blast

text \<open>C35: the hash lists: a node that is on no list is put by hlist_add_head at the front of a list, by hlist_add_before
  and hlist_add_after next to one of its nodes, and the iteration meets the nodes in the new order; hlist_del_init then
  takes it out wherever it stands, without being told the head, and leaves it unhashed and the list as it was.\<close>
theorem hlist_add_del:
  assumes "hlist m h (xs @ x # ys)" and "free_node m n" and "n \<notin> set (h # xs @ x # ys)"
  shows "\<forall>(r, us, vs) \<in> {(hlist_add_head m n h, [], xs @ x # ys), (hlist_add_before m n x, xs, x # ys),
      (hlist_add_after m x n, xs @ [x], ys)}.
    \<exists>m1 m2. r = Inr m1 \<and> hlist m1 h (us @ n # vs) \<and> hlist_for_each m1 h = Some (Inr (us @ n # vs)) \<and>
      hlist_del_init m1 n = Inr m2 \<and> hlist m2 h (xs @ x # ys) \<and> hlist_unhashed m2 n = Inr True"
  using hlist_inserts_del [OF hlist_add_head_law [OF assms]] hlist_inserts_del [OF hlist_add_before_law [OF assms]]
    hlist_inserts_del [OF hlist_add_after_law [OF assms]]
  by simp

theorem hlist_add_del_witness:
  "\<exists>m1 m2. hlist_add_after ex_hmem 12 30 = Inr m1 \<and> hlist_for_each m1 10 = Some (Inr [11, 12, 30, 13]) \<and>
    hlist_del_init m1 30 = Inr m2 \<and> hlist m2 10 [11, 12, 13]"
  using hlist_add_del [OF ex_hmem_list] by auto

end
