(* ===== verification/ListEntry.thy ===== *)
theory ListEntry
  imports HList ListHead
begin

text \<open>
  The macros of \<^verbatim>\<open>src/src/list.h\<close> that go from a list to the structures its
  entries are embedded in: \<^verbatim>\<open>container_of\<close> and everything that walks a list
  with a cursor of the containing type, plain, continued from a point, backwards, and
  safe against the removal of the entry the cursor is on.
\<close>

section \<open>Containers\<close>

text \<open>
  The address of a container is the address of its \<^verbatim>\<open>list_head\<close> less the offset of
  that member. The macros also form the container of the list head itself, which is no
  object and may lie below address 0, so a container address is an integer;
  \<open>member_of off pos\<close> is \<^verbatim>\<open>&pos->member\<close>.
\<close>

type_synonym cptr = int

definition container_of :: "ptr \<Rightarrow> nat \<Rightarrow> cptr" where
  "container_of p off = int p - int off"

definition list_entry :: "ptr \<Rightarrow> nat \<Rightarrow> cptr" where
  "list_entry p off = container_of p off"

definition member_of :: "cptr \<Rightarrow> nat \<Rightarrow> ptr" where
  "member_of pos off = nat (pos + int off)"

lemma member_of_entry [simp]: "member_of (list_entry p off) off = p"
  by (simp add: member_of_def list_entry_def container_of_def)

lemma list_entry_inj [simp]: "list_entry p off = list_entry q off \<longleftrightarrow> p = q"
  by (simp add: list_entry_def container_of_def)

definition LIST_HEAD_INIT :: "ptr \<Rightarrow> list_head" where
  "LIST_HEAD_INIT name = \<lparr>lh_next = name, lh_prev = name\<rparr>"

definition PE_LIST_HEAD :: "lheap \<Rightarrow> ptr \<Rightarrow> lheap" where
  "PE_LIST_HEAD h name = h(name \<mapsto> LIST_HEAD_INIT name)"

definition list_first_entry :: "lheap \<Rightarrow> ptr \<Rightarrow> nat \<Rightarrow> cptr res" where
  "list_first_entry h p off =
     bindR (get_next h p) (\<lambda>n.
     Inr (list_entry n off))"

definition list_first_entry_or_null :: "lheap \<Rightarrow> ptr \<Rightarrow> nat \<Rightarrow> cptr res" where
  "list_first_entry_or_null h p off =
     bindR (list_empty h p) (\<lambda>e.
     if \<not> e then list_first_entry h p off else Inr 0)"

definition list_prepare_entry :: "cptr \<Rightarrow> ptr \<Rightarrow> nat \<Rightarrow> cptr" where
  "list_prepare_entry pos head off = (if pos \<noteq> 0 then pos else list_entry head off)"

section \<open>The plain loops\<close>

text \<open>
  \<^verbatim>\<open>list_entry(pos->member.next, typeof(*pos), member)\<close>, or \<^verbatim>\<open>.prev\<close>: \<open>step\<close>
  is \<open>get_next\<close> or \<open>get_prev\<close>.
\<close>

definition step_entry :: "(lheap \<Rightarrow> ptr \<Rightarrow> ptr res) \<Rightarrow> nat \<Rightarrow> lheap \<Rightarrow> cptr \<Rightarrow> cptr res" where
  "step_entry step off h pos =
     bindR (step h (member_of pos off)) (\<lambda>p.
     Inr (list_entry p off))"

text \<open>
  What the plain macros have in common: test, body, step. The result is the sequence of
  containers the body is run on; \<open>None\<close> is a loop that never meets the head.
\<close>

partial_function (option) entry_loop ::
    "(lheap \<Rightarrow> ptr \<Rightarrow> ptr res) \<Rightarrow> nat \<Rightarrow> lheap \<Rightarrow> ptr \<Rightarrow> cptr \<Rightarrow> cptr list \<Rightarrow> cptr list res option" where
  "entry_loop step off h head pos seen =
     (if member_of pos off \<noteq> head
      then case step_entry step off h pos of
             Inl e \<Rightarrow> Some (Inl e)
           | Inr n \<Rightarrow> entry_loop step off h head n (seen @ [pos])
      else Some (Inr seen))"

definition entry_loop_at ::
    "(lheap \<Rightarrow> ptr \<Rightarrow> ptr res) \<Rightarrow> nat \<Rightarrow> lheap \<Rightarrow> ptr \<Rightarrow> cptr res \<Rightarrow> cptr list res option" where
  "entry_loop_at step off h head start =
     (case start of Inl e \<Rightarrow> Some (Inl e) | Inr pos \<Rightarrow> entry_loop step off h head pos [])"

definition list_for_each_entry :: "nat \<Rightarrow> lheap \<Rightarrow> ptr \<Rightarrow> cptr list res option" where
  "list_for_each_entry off h head =
     entry_loop_at get_next off h head (bindR (get_next h head) (\<lambda>p. Inr (list_entry p off)))"

definition list_for_each_entry_reverse :: "nat \<Rightarrow> lheap \<Rightarrow> ptr \<Rightarrow> cptr list res option" where
  "list_for_each_entry_reverse off h head =
     entry_loop_at get_prev off h head (bindR (get_prev h head) (\<lambda>p. Inr (list_entry p off)))"

definition list_for_each_entry_continue :: "nat \<Rightarrow> lheap \<Rightarrow> cptr \<Rightarrow> ptr \<Rightarrow> cptr list res option" where
  "list_for_each_entry_continue off h pos head =
     entry_loop_at get_next off h head (step_entry get_next off h pos)"

definition list_for_each_entry_continue_reverse ::
    "nat \<Rightarrow> lheap \<Rightarrow> cptr \<Rightarrow> ptr \<Rightarrow> cptr list res option" where
  "list_for_each_entry_continue_reverse off h pos head =
     entry_loop_at get_prev off h head (step_entry get_prev off h pos)"

definition list_for_each_entry_from :: "nat \<Rightarrow> lheap \<Rightarrow> cptr \<Rightarrow> ptr \<Rightarrow> cptr list res option" where
  "list_for_each_entry_from off h pos head = entry_loop_at get_next off h head (Inr pos)"

section \<open>The loops that are safe against removal\<close>

text \<open>
  The body of a safe loop may change the store; it threads whatever else it keeps
  beside it. The next cursor \<open>n\<close> is read before the body runs.
\<close>

type_synonym 'a body = "lheap \<times> 'a \<Rightarrow> cptr \<Rightarrow> (lheap \<times> 'a) res"

partial_function (option) entry_safe_loop ::
    "(lheap \<Rightarrow> ptr \<Rightarrow> ptr res) \<Rightarrow> nat \<Rightarrow> 'a body \<Rightarrow> lheap \<times> 'a \<Rightarrow> ptr \<Rightarrow> cptr \<Rightarrow> cptr \<Rightarrow>
     (lheap \<times> 'a) res option" where
  "entry_safe_loop step off body s head pos n =
     (if member_of pos off \<noteq> head
      then case body s pos of
             Inl e \<Rightarrow> Some (Inl e)
           | Inr s \<Rightarrow> (case step_entry step off (fst s) n of
                         Inl e \<Rightarrow> Some (Inl e)
                       | Inr n' \<Rightarrow> entry_safe_loop step off body s head n n')
      else Some (Inr s))"

text \<open>The second part of the initialisation: \<open>n\<close> is the entry after \<open>pos\<close>.\<close>

definition entry_safe_at ::
    "(lheap \<Rightarrow> ptr \<Rightarrow> ptr res) \<Rightarrow> nat \<Rightarrow> 'a body \<Rightarrow> lheap \<times> 'a \<Rightarrow> ptr \<Rightarrow> cptr res \<Rightarrow>
     (lheap \<times> 'a) res option" where
  "entry_safe_at step off body s head start =
     (case bindR start (\<lambda>pos. bindR (step_entry step off (fst s) pos) (\<lambda>n. Inr (pos, n))) of
        Inl e \<Rightarrow> Some (Inl e)
      | Inr (pos, n) \<Rightarrow> entry_safe_loop step off body s head pos n)"

definition list_for_each_entry_safe ::
    "nat \<Rightarrow> 'a body \<Rightarrow> lheap \<times> 'a \<Rightarrow> ptr \<Rightarrow> (lheap \<times> 'a) res option" where
  "list_for_each_entry_safe off body s head =
     entry_safe_at get_next off body s head
       (bindR (get_next (fst s) head) (\<lambda>p. Inr (list_entry p off)))"

definition list_for_each_entry_safe_continue ::
    "nat \<Rightarrow> 'a body \<Rightarrow> lheap \<times> 'a \<Rightarrow> cptr \<Rightarrow> ptr \<Rightarrow> (lheap \<times> 'a) res option" where
  "list_for_each_entry_safe_continue off body s pos head =
     entry_safe_at get_next off body s head (step_entry get_next off (fst s) pos)"

definition list_for_each_entry_safe_from ::
    "nat \<Rightarrow> 'a body \<Rightarrow> lheap \<times> 'a \<Rightarrow> cptr \<Rightarrow> ptr \<Rightarrow> (lheap \<times> 'a) res option" where
  "list_for_each_entry_safe_from off body s pos head =
     entry_safe_at get_next off body s head (Inr pos)"

definition list_for_each_entry_safe_reverse ::
    "nat \<Rightarrow> 'a body \<Rightarrow> lheap \<times> 'a \<Rightarrow> ptr \<Rightarrow> (lheap \<times> 'a) res option" where
  "list_for_each_entry_safe_reverse off body s head =
     entry_safe_at get_prev off body s head
       (bindR (get_prev (fst s) head) (\<lambda>p. Inr (list_entry p off)))"

definition list_safe_reset_next :: "nat \<Rightarrow> lheap \<Rightarrow> cptr \<Rightarrow> cptr res" where
  "list_safe_reset_next off h pos = step_entry get_next off h pos"

text \<open>\<^verbatim>\<open>list_for_each_prev_safe\<close> walks the \<^verbatim>\<open>list_head\<close>s themselves.\<close>

partial_function (option) list_for_each_prev_safe_loop ::
    "(lheap \<Rightarrow> ptr \<Rightarrow> lheap res) \<Rightarrow> lheap \<Rightarrow> ptr \<Rightarrow> ptr \<Rightarrow> ptr \<Rightarrow> lheap res option" where
  "list_for_each_prev_safe_loop body h head pos n =
     (if pos \<noteq> head
      then case body h pos of
             Inl e \<Rightarrow> Some (Inl e)
           | Inr h \<Rightarrow> (case get_prev h n of
                         Inl e \<Rightarrow> Some (Inl e)
                       | Inr n' \<Rightarrow> list_for_each_prev_safe_loop body h head n n')
      else Some (Inr h))"

definition list_for_each_prev_safe ::
    "(lheap \<Rightarrow> ptr \<Rightarrow> lheap res) \<Rightarrow> lheap \<Rightarrow> ptr \<Rightarrow> lheap res option" where
  "list_for_each_prev_safe body h head =
     (case bindR (get_prev h head) (\<lambda>pos. bindR (get_prev h pos) (\<lambda>n. Inr (pos, n))) of
        Inl e \<Rightarrow> Some (Inl e)
      | Inr (pos, n) \<Rightarrow> list_for_each_prev_safe_loop body h head pos n)"

section \<open>Walking in one direction\<close>

text \<open>
  A body that records the container it is given and unlinks it unless it is to be kept.
\<close>

definition del_unless :: "(cptr \<Rightarrow> bool) \<Rightarrow> nat \<Rightarrow> cptr list body" where
  "del_unless keep off = (\<lambda>(h, seen) pos.
     if keep pos then Inr (h, seen @ [pos])
     else bindR (list_del h (member_of pos off)) (\<lambda>h. Inr (h, seen @ [pos])))"

text \<open>
  What the loops need of a direction: \<open>dl h l xs\<close>, the entries of the list in the order
  in which \<open>step\<close> meets them; unlinking one keeps the others in that order.
\<close>

locale directed_list =
  fixes step :: "lheap \<Rightarrow> ptr \<Rightarrow> ptr res"
    and dl :: "lheap \<Rightarrow> ptr \<Rightarrow> ptr list \<Rightarrow> bool"
  assumes dl_distinct: "dl h l xs \<Longrightarrow> distinct (l # xs)"
    and step_head: "dl h l xs \<Longrightarrow> step h l = Inr (right_of l xs)"
    and step_next: "dl h l (xs @ x # ys) \<Longrightarrow> step h x = Inr (right_of l ys)"
    and dl_del: "dl h l (xs @ x # ys) \<Longrightarrow>
      \<exists>h'. list_del h x = Inr h' \<and> dom h' = dom h \<and> dl h' l (xs @ ys)"
begin

lemma step_entry_head: "dl h l xs \<Longrightarrow> step_entry step off h (list_entry l off) = Inr (list_entry (right_of l xs) off)"
  by (simp add: step_entry_def step_head)

lemma step_entry_next:
  "dl h l (xs @ x # ys) \<Longrightarrow> step_entry step off h (list_entry x off) = Inr (list_entry (right_of l ys) off)"
  by (simp add: step_entry_def step_next)

lemma step_entry_right:
  "dl h l (us @ xs) \<Longrightarrow> \<exists>n. step_entry step off h (list_entry (right_of l xs) off) = Inr n \<and>
     (xs \<noteq> [] \<longrightarrow> n = list_entry (right_of l (tl xs)) off)"
  using step_entry_head [of h l "us @ xs"] step_entry_next [of h l us "hd xs" "tl xs"] by (cases xs) auto

lemma entry_loop_visits:
  "dl h l (us @ xs) \<Longrightarrow>
   entry_loop step off h l (list_entry (right_of l xs) off) seen = Some (Inr (seen @ map (\<lambda>x. list_entry x off) xs))"
proof (induction xs arbitrary: us seen)
  case Nil
  then show ?case by (simp add: entry_loop.simps)
next
  case (Cons x xs)
  have "entry_loop step off h l (list_entry (right_of l xs) off) (seen @ [list_entry x off])
      = Some (Inr (seen @ map (\<lambda>x. list_entry x off) (x # xs)))"
    using Cons.IH [of "us @ [x]"] Cons.prems by simp
  then show ?case
    using dl_distinct [OF Cons.prems] step_entry_next [OF Cons.prems]
    by (subst entry_loop.simps) auto
qed

lemma entry_loop_at_visits:
  "dl h l (us @ xs) \<Longrightarrow> start = Inr (list_entry (right_of l xs) off) \<Longrightarrow>
   entry_loop_at step off h l start = Some (Inr (map (\<lambda>x. list_entry x off) xs))"
  by (simp add: entry_loop_at_def entry_loop_visits)

lemma entry_safe_loop_deletes:
  "dl h l (us @ xs) \<Longrightarrow> (xs \<noteq> [] \<Longrightarrow> n = list_entry (right_of l (tl xs)) off) \<Longrightarrow>
   \<exists>h'. entry_safe_loop step off (del_unless keep off) (h, seen) l (list_entry (right_of l xs) off) n
        = Some (Inr (h', seen @ map (\<lambda>x. list_entry x off) xs)) \<and>
     dom h' = dom h \<and> dl h' l (us @ filter (\<lambda>x. keep (list_entry x off)) xs)"
proof (induction xs arbitrary: h us seen n)
  case Nil
  then show ?case by (simp add: entry_safe_loop.simps)
next
  case (Cons x xs)
  define vs where "vs = us @ filter (\<lambda>x. keep (list_entry x off)) [x]"
  obtain h1 where h1: "del_unless keep off (h, seen) (list_entry x off) = Inr (h1, seen @ [list_entry x off])"
    "dom h1 = dom h" "dl h1 l (vs @ xs)"
    using dl_del [OF Cons.prems(1)] Cons.prems(1)
    by (cases "keep (list_entry x off)") (auto simp: del_unless_def vs_def)
  from step_entry_right [OF h1(3), of off] obtain n1
    where n1: "step_entry step off h1 (list_entry (right_of l xs) off) = Inr n1"
      "xs \<noteq> [] \<longrightarrow> n1 = list_entry (right_of l (tl xs)) off" by blast
  have "x \<noteq> l" using dl_distinct [OF Cons.prems(1)] by auto
  then show ?case
    using Cons.IH [OF h1(3) n1(2) [rule_format], of "seen @ [list_entry x off]"] Cons.prems(2) h1(1,2) n1(1)
    by (subst entry_safe_loop.simps) (auto simp: vs_def)
qed

lemma entry_safe_at_deletes:
  assumes "dl h l (us @ xs)" and "start = Inr (list_entry (right_of l xs) off)"
  shows "\<exists>h'. entry_safe_at step off (del_unless keep off) (h, seen) l start
        = Some (Inr (h', seen @ map (\<lambda>x. list_entry x off) xs)) \<and>
     dom h' = dom h \<and> dl h' l (us @ filter (\<lambda>x. keep (list_entry x off)) xs)"
proof -
  from step_entry_right [OF assms(1), of off] obtain n
    where n: "step_entry step off h (list_entry (right_of l xs) off) = Inr n"
      "xs \<noteq> [] \<longrightarrow> n = list_entry (right_of l (tl xs)) off" by blast
  with entry_safe_loop_deletes [OF assms(1) n(2) [rule_format]] assms(2)
  show ?thesis by (simp add: entry_safe_at_def)
qed

end

text \<open>The two directions of the lists of the model.\<close>

interpretation fwd: directed_list get_next dlist
proof unfold_locales
  fix h l xs x ys
  assume d: "dlist h l (xs @ x # ys)"
  show "\<exists>h'. list_del h x = Inr h' \<and> dom h' = dom h \<and> dlist h' l (xs @ ys)"
    using lh.del_ok [OF d] by blast
qed (auto intro: get_next_eq dlist_head_next dlist_entry_neighbours dest: dlist_distinct)

lemma right_of_rev: "right_of l (rev xs) = left_of l xs"
  by (cases xs rule: rev_cases) auto

interpretation bwd: directed_list get_prev "\<lambda>h l xs. dlist h l (rev xs)"
proof unfold_locales
  fix h l xs x ys
  assume d: "dlist h l (rev (xs @ x # ys))"
  then show "\<exists>h'. list_del h x = Inr h' \<and> dom h' = dom h \<and> dlist h' l (rev (xs @ ys))"
    using lh.del_ok [of h l "rev ys" x "rev xs"] by auto
  show "get_prev h x = Inr (right_of l ys)"
    using d dlist_entry_neighbours(2) [of h l "rev ys" x "rev xs"] right_of_rev [of l "rev ys"]
    by (simp add: get_prev_eq)
next
  fix h l xs
  assume "dlist h l (rev xs)"
  then show "distinct (l # xs)" "get_prev h l = Inr (right_of l xs)"
    using dlist_distinct [of h l "rev xs"] dlist_head_prev [of h l "rev xs"] right_of_rev [of l "rev xs"]
    by (simp_all add: get_prev_eq)
qed

text \<open>The loop over the \<^verbatim>\<open>list_head\<close>s backwards, with \<open>list_del\<close> as its body.\<close>

lemma list_for_each_prev_safe_loop_del:
  "dlist h l xs \<Longrightarrow> (xs \<noteq> [] \<Longrightarrow> n = left_of l (butlast xs)) \<Longrightarrow>
   \<exists>h'. list_for_each_prev_safe_loop list_del h l (left_of l xs) n = Some (Inr h') \<and> dlist h' l []"
proof (induction xs arbitrary: h n rule: rev_induct)
  case Nil
  then show ?case by (simp add: list_for_each_prev_safe_loop.simps)
next
  case (snoc x xs)
  from lh.del_ok [of h l xs x "[]"] snoc.prems(1) obtain h1 where
    h1: "list_del h x = Inr h1" "dlist h1 l xs" by auto
  obtain n1 where n1: "get_prev h1 (left_of l xs) = Inr n1" "xs \<noteq> [] \<longrightarrow> n1 = left_of l (butlast xs)"
    using h1(2) dlist_head_prev [OF h1(2)] dlist_entry_neighbours(2) [of h1 l "butlast xs" "last xs" "[]"]
    by (cases xs rule: rev_cases) (auto simp: get_prev_eq)
  have "x \<noteq> l" using dlist_distinct [OF snoc.prems(1)] by auto
  then show ?case
    using snoc.IH [OF h1(2) n1(2) [rule_format]] snoc.prems(2) h1(1) n1(1)
    by (subst list_for_each_prev_safe_loop.simps) simp
qed

lemma list_for_each_prev_safe_del_empties:
  assumes "dlist h l xs"
  shows "\<exists>h'. list_for_each_prev_safe list_del h l = Some (Inr h') \<and> dlist h' l []"
proof -
  obtain n where "get_prev h (left_of l xs) = Inr n" "xs \<noteq> [] \<longrightarrow> n = left_of l (butlast xs)"
    using assms dlist_head_prev [OF assms] dlist_entry_neighbours(2) [of h l "butlast xs" "last xs" "[]"]
    by (cases xs rule: rev_cases) (auto simp: get_prev_eq)
  with list_for_each_prev_safe_loop_del [OF assms] get_prev_eq [OF dlist_head_prev [OF assms]]
  show ?thesis by (simp add: list_for_each_prev_safe_def)
qed

section \<open>The hash list\<close>

definition hlist_entry :: "ptr \<Rightarrow> nat \<Rightarrow> cptr" where
  "hlist_entry p off = container_of p off"

definition hlist_entry_safe :: "ptr \<Rightarrow> nat \<Rightarrow> cptr" where
  "hlist_entry_safe p off = (if p \<noteq> NULL then hlist_entry p off else 0)"

text \<open>\<^verbatim>\<open>hlist_entry_safe((pos)->member.next, ...)\<close>\<close>

definition hlist_step_entry :: "nat \<Rightarrow> hmem \<Rightarrow> cptr \<Rightarrow> cptr res" where
  "hlist_step_entry off m pos =
     bindR (get_word m (member_of pos off)) (\<lambda>p.
     Inr (hlist_entry_safe p off))"

partial_function (option) hlist_entry_loop :: "nat \<Rightarrow> hmem \<Rightarrow> cptr \<Rightarrow> cptr list \<Rightarrow> cptr list res option" where
  "hlist_entry_loop off m pos seen =
     (if pos \<noteq> 0
      then case hlist_step_entry off m pos of
             Inl e \<Rightarrow> Some (Inl e)
           | Inr n \<Rightarrow> hlist_entry_loop off m n (seen @ [pos])
      else Some (Inr seen))"

definition hlist_for_each_entry :: "nat \<Rightarrow> hmem \<Rightarrow> ptr \<Rightarrow> cptr list res option" where
  "hlist_for_each_entry off m head =
     (case get_word m head of
        Inl e \<Rightarrow> Some (Inl e)
      | Inr p \<Rightarrow> hlist_entry_loop off m (hlist_entry_safe p off) [])"

definition hlist_for_each_entry_continue :: "nat \<Rightarrow> hmem \<Rightarrow> cptr \<Rightarrow> cptr list res option" where
  "hlist_for_each_entry_continue off m pos =
     (case hlist_step_entry off m pos of
        Inl e \<Rightarrow> Some (Inl e)
      | Inr n \<Rightarrow> hlist_entry_loop off m n [])"

definition hlist_for_each_entry_from :: "nat \<Rightarrow> hmem \<Rightarrow> cptr \<Rightarrow> cptr list res option" where
  "hlist_for_each_entry_from off m pos = hlist_entry_loop off m pos []"

text \<open>The safe loop keeps the node \<open>n\<close>, read after the test and before the body.\<close>

partial_function (option) hlist_entry_safe_loop ::
    "nat \<Rightarrow> (hmem \<times> 'a \<Rightarrow> cptr \<Rightarrow> (hmem \<times> 'a) res) \<Rightarrow> hmem \<times> 'a \<Rightarrow> cptr \<Rightarrow> (hmem \<times> 'a) res option" where
  "hlist_entry_safe_loop off body s pos =
     (if pos \<noteq> 0
      then case get_word (fst s) (member_of pos off) of
             Inl e \<Rightarrow> Some (Inl e)
           | Inr n \<Rightarrow> (case body s pos of
                         Inl e \<Rightarrow> Some (Inl e)
                       | Inr s \<Rightarrow> hlist_entry_safe_loop off body s (hlist_entry_safe n off))
      else Some (Inr s))"

definition hlist_for_each_entry_safe ::
    "nat \<Rightarrow> (hmem \<times> 'a \<Rightarrow> cptr \<Rightarrow> (hmem \<times> 'a) res) \<Rightarrow> hmem \<times> 'a \<Rightarrow> ptr \<Rightarrow> (hmem \<times> 'a) res option" where
  "hlist_for_each_entry_safe off body s head =
     (case get_word (fst s) head of
        Inl e \<Rightarrow> Some (Inl e)
      | Inr p \<Rightarrow> hlist_entry_safe_loop off body s (hlist_entry_safe p off))"

text \<open>A node whose container would be at address 0 ends these loops; objects are not there.\<close>

lemma hlist_entry_safe_node: "off < x \<Longrightarrow> hlist_entry_safe x off = list_entry x off \<and> list_entry x off \<noteq> 0"
  by (simp add: hlist_entry_safe_def hlist_entry_def list_entry_def container_of_def)

lemma hseg_word: "hseg m w xs \<Longrightarrow> \<exists>p. get_word m w = Inr p \<and> p = (case xs of [] \<Rightarrow> NULL | x # _ \<Rightarrow> x)"
  by (cases xs) (auto simp: get_word_def)

lemma hlist_entry_loop_visits:
  "hseg m w xs \<Longrightarrow> \<forall>x \<in> set xs. off < x \<Longrightarrow> get_word m w = Inr p \<Longrightarrow>
   hlist_entry_loop off m (hlist_entry_safe p off) seen = Some (Inr (seen @ map (\<lambda>x. list_entry x off) xs))"
proof (induction xs arbitrary: w p seen)
  case Nil
  then have "p = NULL" by (simp add: get_word_def)
  then show ?case by (simp add: hlist_entry_loop.simps hlist_entry_safe_def)
next
  case (Cons x xs)
  then have p: "p = x" "off < x" "hseg m x xs" by (simp_all add: get_word_def)
  from hseg_word [OF p(3)] obtain q where q: "get_word m x = Inr q" by blast
  from Cons.IH [OF p(3) _ q, of "seen @ [list_entry x off]"] Cons.prems(2) p(1) q hlist_entry_safe_node [OF p(2)]
  show ?case by (subst hlist_entry_loop.simps) (simp add: hlist_step_entry_def)
qed

lemma hlist_for_each_entry_visits:
  "hlist m h xs \<Longrightarrow> \<forall>x \<in> set xs. off < x \<Longrightarrow>
   hlist_for_each_entry off m h = Some (Inr (map (\<lambda>x. list_entry x off) xs))"
  using hseg_word [of m h xs] hlist_entry_loop_visits [of m h xs off _ "[]"]
  by (auto simp: hlist_for_each_entry_def hlist_def)

lemma hseg_suffix: "hseg m w (us @ xs) \<Longrightarrow> hseg m (last (w # us)) xs"
  by (induction us arbitrary: w) auto

lemma hlist_for_each_entry_continue_visits:
  "hlist m h (us @ x # xs) \<Longrightarrow> \<forall>x \<in> set xs. off < x \<Longrightarrow>
   hlist_for_each_entry_continue off m (list_entry x off) = Some (Inr (map (\<lambda>x. list_entry x off) xs))"
  using hseg_suffix [of m h "us @ [x]" xs] hseg_word [of m x xs] hlist_entry_loop_visits [of m x xs off _ "[]"]
  by (auto simp: hlist_for_each_entry_continue_def hlist_def hlist_step_entry_def)

lemma hlist_for_each_entry_from_visits:
  assumes "hlist m h (us @ x # xs)" and "\<forall>x \<in> set (x # xs). off < x"
  shows "hlist_for_each_entry_from off m (list_entry x off) = Some (Inr (map (\<lambda>x. list_entry x off) (x # xs)))"
proof -
  have "hseg m (last (h # us)) (x # xs)" using assms(1) hseg_suffix [of m h us "x # xs"] by (simp add: hlist_def)
  from hlist_entry_loop_visits [OF this assms(2), of x "[]"] this hlist_entry_safe_node [of off x] assms(2)
  show ?thesis by (simp add: hlist_for_each_entry_from_def get_word_def)
qed

text \<open>The safe loop with a body that unlinks what is not to be kept.\<close>

definition hdel_unless :: "(cptr \<Rightarrow> bool) \<Rightarrow> nat \<Rightarrow> hmem \<times> cptr list \<Rightarrow> cptr \<Rightarrow> (hmem \<times> cptr list) res" where
  "hdel_unless keep off = (\<lambda>(m, seen) pos.
     if keep pos then Inr (m, seen @ [pos])
     else bindR (hlist_del m (member_of pos off)) (\<lambda>m. Inr (m, seen @ [pos])))"

lemma hlist_entry_safe_loop_deletes:
  "hlist m h (us @ xs) \<Longrightarrow> \<forall>x \<in> set xs. off < x \<Longrightarrow> p = (case xs of [] \<Rightarrow> NULL | x # _ \<Rightarrow> x) \<Longrightarrow>
   \<exists>m'. hlist_entry_safe_loop off (hdel_unless keep off) (m, seen) (hlist_entry_safe p off)
        = Some (Inr (m', seen @ map (\<lambda>x. list_entry x off) xs)) \<and>
     hlist m' h (us @ filter (\<lambda>x. keep (list_entry x off)) xs)"
proof (induction xs arbitrary: m us seen p)
  case Nil
  then show ?case by (simp add: hlist_entry_safe_loop.simps hlist_entry_safe_def)
next
  case (Cons x xs)
  then have p: "p = x" "off < x" by simp_all
  have "hseg m x xs" using Cons.prems(1) hseg_suffix [of m h "us @ [x]" xs] by (simp add: hlist_def)
  from hseg_word [OF this] obtain q where q: "get_word m x = Inr q" "q = (case xs of [] \<Rightarrow> NULL | x # _ \<Rightarrow> x)"
    by blast
  define vs where "vs = us @ filter (\<lambda>x. keep (list_entry x off)) [x]"
  obtain m1 where m1: "hdel_unless keep off (m, seen) (list_entry x off) = Inr (m1, seen @ [list_entry x off])"
    "hlist m1 h (vs @ xs)"
    using hlist_del_law [of m h us x xs] Cons.prems(1)
    by (cases "keep (list_entry x off)") (auto simp: hdel_unless_def vs_def)
  from Cons.IH [OF m1(2) _ q(2), of "seen @ [list_entry x off]"] Cons.prems(2) p(1) q(1) m1(1)
    hlist_entry_safe_node [OF p(2)]
  show ?case by (subst hlist_entry_safe_loop.simps) (auto simp: vs_def)
qed

lemma hlist_for_each_entry_safe_deletes:
  assumes "hlist m h xs" and "\<forall>x \<in> set xs. off < x"
  shows "\<exists>m'. hlist_for_each_entry_safe off (hdel_unless keep off) (m, []) h
      = Some (Inr (m', map (\<lambda>x. list_entry x off) xs)) \<and>
    hlist m' h (filter (\<lambda>x. keep (list_entry x off)) xs)"
  using hseg_word [of m h xs] hlist_entry_safe_loop_deletes [of m h "[]" xs off _ keep "[]"] assms
  by (auto simp: hlist_for_each_entry_safe_def hlist_def)

section \<open>Properties\<close>

text \<open>
  What the macros without a loop give: the first container, or NULL on an empty list; a
  start point that is the head when there is none yet; an initialised head is an empty
  list.
\<close>

lemma list_first_entry_or_null_law:
  "dlist h l xs \<Longrightarrow> list_first_entry_or_null h l off = Inr (case xs of [] \<Rightarrow> 0 | x # _ \<Rightarrow> list_entry x off)"
  by (cases xs)
    (simp_all add: list_first_entry_or_null_def list_first_entry_def list_empty_law get_next_eq [OF dlist_head_next])

lemma PE_LIST_HEAD_empty: "dlist (PE_LIST_HEAD h l) l []"
  by (simp add: dlist_def PE_LIST_HEAD_def LIST_HEAD_INIT_def lnk_def nx_def pv_def)

lemma list_safe_reset_next_law:
  "dlist h l (xs @ x # ys) \<Longrightarrow> list_safe_reset_next off h (list_entry x off) = Inr (list_entry (right_of l ys) off)"
  by (simp add: list_safe_reset_next_def fwd.step_entry_next)

lemma list_entry_macros:
  assumes "dlist h l (xs @ x # ys)"
  shows "list_for_each_entry off h l = Some (Inr (map (\<lambda>p. list_entry p off) (xs @ x # ys)))"
    and "list_for_each_entry_reverse off h l = Some (Inr (map (\<lambda>p. list_entry p off) (rev (xs @ x # ys))))"
    and "list_for_each_entry_continue off h (list_entry x off) l = Some (Inr (map (\<lambda>p. list_entry p off) ys))"
    and "list_for_each_entry_continue_reverse off h (list_entry x off) l
      = Some (Inr (map (\<lambda>p. list_entry p off) (rev xs)))"
    and "list_for_each_entry_from off h (list_entry x off) l = Some (Inr (map (\<lambda>p. list_entry p off) (x # ys)))"
    and "list_for_each_entry_continue off h (list_prepare_entry 0 l off) l = list_for_each_entry off h l"
    and "list_first_entry_or_null h l off = Inr (hd (map (\<lambda>p. list_entry p off) (xs @ [x])))"
proof -
  have b: "dlist h l (rev (rev ys @ x # rev xs))" "dlist h l (rev ([] @ rev (xs @ x # ys)))"
      "dlist h l (rev ((rev ys @ [x]) @ rev xs))"
    using assms by simp_all
  show e: "list_for_each_entry off h l = Some (Inr (map (\<lambda>p. list_entry p off) (xs @ x # ys)))"
    unfolding list_for_each_entry_def
    by (rule fwd.entry_loop_at_visits [of h l "[]"]) (simp_all add: assms fwd.step_head [OF assms])
  show "list_for_each_entry_reverse off h l = Some (Inr (map (\<lambda>p. list_entry p off) (rev (xs @ x # ys))))"
    unfolding list_for_each_entry_reverse_def
    by (rule bwd.entry_loop_at_visits [OF b(2)]) (use bwd.step_head [OF b(2)] in simp)
  show "list_for_each_entry_continue off h (list_entry x off) l = Some (Inr (map (\<lambda>p. list_entry p off) ys))"
    unfolding list_for_each_entry_continue_def
    by (rule fwd.entry_loop_at_visits [of h l "xs @ [x]"]) (simp_all add: assms fwd.step_entry_next [OF assms])
  show "list_for_each_entry_continue_reverse off h (list_entry x off) l
      = Some (Inr (map (\<lambda>p. list_entry p off) (rev xs)))"
    unfolding list_for_each_entry_continue_reverse_def
    by (rule bwd.entry_loop_at_visits [OF b(3)]) (rule bwd.step_entry_next [OF b(1)])
  show "list_for_each_entry_from off h (list_entry x off) l = Some (Inr (map (\<lambda>p. list_entry p off) (x # ys)))"
    unfolding list_for_each_entry_from_def
    by (rule fwd.entry_loop_at_visits [OF assms]) simp
  show "list_for_each_entry_continue off h (list_prepare_entry 0 l off) l = list_for_each_entry off h l"
    unfolding e list_for_each_entry_continue_def list_prepare_entry_def
    by (rule fwd.entry_loop_at_visits [of h l "[]"]) (simp_all add: assms fwd.step_entry_head [OF assms])
  show "list_first_entry_or_null h l off = Inr (hd (map (\<lambda>p. list_entry p off) (xs @ [x])))"
    by (cases xs) (simp_all add: list_first_entry_or_null_law [OF assms])
qed

text \<open>The macros that walk the containers of a list stop on every list and meet each container exactly once: from the
  first on, from the last back, after a given one in either direction, from a given one on, and from the start when
  list_prepare_entry had no entry to continue from; list_first_entry_or_null gives the first one of them or NULL.\<close>
theorem list_entry_macros_visit:
  assumes "dlist h l (xs @ x # ys)"
  shows "(list_for_each_entry off h l = Some (Inr (map (\<lambda>p. list_entry p off) (xs @ x # ys)))) \<and>
    (list_for_each_entry_reverse off h l = Some (Inr (map (\<lambda>p. list_entry p off) (rev (xs @ x # ys))))) \<and>
    (list_for_each_entry_continue off h (list_entry x off) l = Some (Inr (map (\<lambda>p. list_entry p off) ys))) \<and>
    (list_for_each_entry_continue_reverse off h (list_entry x off) l
      = Some (Inr (map (\<lambda>p. list_entry p off) (rev xs)))) \<and>
    (list_for_each_entry_from off h (list_entry x off) l = Some (Inr (map (\<lambda>p. list_entry p off) (x # ys)))) \<and>
    (list_for_each_entry_continue off h (list_prepare_entry 0 l off) l = list_for_each_entry off h l) \<and>
    (list_first_entry_or_null h l off = Inr (hd (map (\<lambda>p. list_entry p off) (xs @ [x]))))"
  by (intro conjI list_entry_macros [OF assms])

theorem list_entry_macros_visit_witness:
  "list_for_each_entry_continue_reverse 4 ex_lists 9 10 = Some (Inr [8, 7])"
  using list_entry_macros_visit [of ex_lists 10 "[11, 12]" 13 "[]" 4] ex_lists_dlist(1)
  by (simp add: list_entry_def container_of_def)

lemma list_entry_safe_macros:
  assumes "dlist h l (xs @ x # ys)"
  shows "\<exists>h'. list_for_each_entry_safe off (del_unless keep off) (h, []) l
      = Some (Inr (h', map (\<lambda>p. list_entry p off) (xs @ x # ys))) \<and>
      dlist h' l (filter (\<lambda>p. keep (list_entry p off)) (xs @ x # ys))"
    and "\<exists>h'. list_for_each_entry_safe_reverse off (del_unless keep off) (h, []) l
      = Some (Inr (h', map (\<lambda>p. list_entry p off) (rev (xs @ x # ys)))) \<and>
      dlist h' l (filter (\<lambda>p. keep (list_entry p off)) (xs @ x # ys))"
    and "\<exists>h'. list_for_each_entry_safe_continue off (del_unless keep off) (h, []) (list_entry x off) l
      = Some (Inr (h', map (\<lambda>p. list_entry p off) ys)) \<and>
      dlist h' l (xs @ x # filter (\<lambda>p. keep (list_entry p off)) ys)"
    and "\<exists>h'. list_for_each_entry_safe_from off (del_unless keep off) (h, []) (list_entry x off) l
      = Some (Inr (h', map (\<lambda>p. list_entry p off) (x # ys))) \<and>
      dlist h' l (xs @ filter (\<lambda>p. keep (list_entry p off)) (x # ys))"
    and "\<exists>h'. list_for_each_prev_safe list_del h l = Some (Inr h') \<and> dlist h' l []"
proof -
  have all: "dlist h l ([] @ (xs @ x # ys))" and tail: "dlist h l ((xs @ [x]) @ ys)"
    and b: "dlist h l (rev ([] @ rev (xs @ x # ys)))" using assms by simp_all
  show "\<exists>h'. list_for_each_entry_safe off (del_unless keep off) (h, []) l
      = Some (Inr (h', map (\<lambda>p. list_entry p off) (xs @ x # ys))) \<and>
      dlist h' l (filter (\<lambda>p. keep (list_entry p off)) (xs @ x # ys))"
    using fwd.entry_safe_at_deletes [OF all, of "bindR (get_next h l) (\<lambda>p. Inr (list_entry p off))" off keep "[]"]
      fwd.step_head [OF assms] by (auto simp: list_for_each_entry_safe_def)
  show "\<exists>h'. list_for_each_entry_safe_reverse off (del_unless keep off) (h, []) l
      = Some (Inr (h', map (\<lambda>p. list_entry p off) (rev (xs @ x # ys)))) \<and>
      dlist h' l (filter (\<lambda>p. keep (list_entry p off)) (xs @ x # ys))"
    using bwd.entry_safe_at_deletes [OF b, of "bindR (get_prev h l) (\<lambda>p. Inr (list_entry p off))" off keep "[]"]
      bwd.step_head [OF b] by (auto simp: list_for_each_entry_safe_reverse_def rev_filter)
  show "\<exists>h'. list_for_each_entry_safe_continue off (del_unless keep off) (h, []) (list_entry x off) l
      = Some (Inr (h', map (\<lambda>p. list_entry p off) ys)) \<and>
      dlist h' l (xs @ x # filter (\<lambda>p. keep (list_entry p off)) ys)"
    using fwd.entry_safe_at_deletes [OF tail fwd.step_entry_next [OF assms, of off], where keep = keep and seen = "[]"]
    by (auto simp: list_for_each_entry_safe_continue_def)
  show "\<exists>h'. list_for_each_entry_safe_from off (del_unless keep off) (h, []) (list_entry x off) l
      = Some (Inr (h', map (\<lambda>p. list_entry p off) (x # ys))) \<and>
      dlist h' l (xs @ filter (\<lambda>p. keep (list_entry p off)) (x # ys))"
    using fwd.entry_safe_at_deletes [OF assms, of "Inr (list_entry x off)" off keep "[]"]
    by (auto simp: list_for_each_entry_safe_from_def)
qed (rule list_for_each_prev_safe_del_empties [OF assms])

text \<open>C24: The safe macros survive the removal of the entry the cursor is on: with a body that unlinks an arbitrary choice
  of the containers, list_for_each_entry_safe meets all of them in order, its reverse form meets them backwards, and the
  forms that start at or after a given entry meet those from there on; each stops, and the list that is left holds
  exactly the entries that were kept, in their order. list_for_each_prev_safe with list_del empties the list.\<close>
theorem list_entry_safe_macros_delete:
  assumes "dlist h l (xs @ x # ys)"
  shows "(\<exists>h'. list_for_each_entry_safe off (del_unless keep off) (h, []) l
      = Some (Inr (h', map (\<lambda>p. list_entry p off) (xs @ x # ys))) \<and>
      dlist h' l (filter (\<lambda>p. keep (list_entry p off)) (xs @ x # ys))) \<and>
    (\<exists>h'. list_for_each_entry_safe_reverse off (del_unless keep off) (h, []) l
      = Some (Inr (h', map (\<lambda>p. list_entry p off) (rev (xs @ x # ys)))) \<and>
      dlist h' l (filter (\<lambda>p. keep (list_entry p off)) (xs @ x # ys))) \<and>
    (\<exists>h'. list_for_each_entry_safe_continue off (del_unless keep off) (h, []) (list_entry x off) l
      = Some (Inr (h', map (\<lambda>p. list_entry p off) ys)) \<and>
      dlist h' l (xs @ x # filter (\<lambda>p. keep (list_entry p off)) ys)) \<and>
    (\<exists>h'. list_for_each_entry_safe_from off (del_unless keep off) (h, []) (list_entry x off) l
      = Some (Inr (h', map (\<lambda>p. list_entry p off) (x # ys))) \<and>
      dlist h' l (xs @ filter (\<lambda>p. keep (list_entry p off)) (x # ys))) \<and>
    (\<exists>h'. list_for_each_prev_safe list_del h l = Some (Inr h') \<and> dlist h' l [])"
  by (intro conjI list_entry_safe_macros [OF assms])

theorem list_entry_safe_macros_delete_witness:
  "\<exists>h'. list_for_each_entry_safe 4 (del_unless even 4) (ex_lists, []) 10 = Some (Inr (h', [7, 8, 9])) \<and> dlist h' 10 [12]"
  using list_entry_safe_macros_delete [of ex_lists 10 "[11]" 12 "[13]" 4 even] ex_lists_dlist(1)
  by (simp add: list_entry_def container_of_def)

end
