(* ===== verification/Common.thy ===== *)
theory Common
  imports Network ListEntry HList RingQueue
begin

text \<open>
  The rest of \<^verbatim>\<open>src/src/common.h\<close> that is code: the signed and the alternative integer names, the
  truth values and return codes, the macros, and the TCP header, whose fields the packet
  filter reads one by one. Also two names of \<^verbatim>\<open>src/src/list.h\<close> for what is modelled elsewhere.
\<close>

section \<open>Names of the integer types\<close>

text \<open>A signed type is the word that \<^verbatim>\<open>sint\<close> of the library reads.\<close>

type_synonym s8 = "8 word"
type_synonym s16 = "16 word"
type_synonym s32 = "32 word"
type_synonym s64 = "64 word"
type_synonym schar = "8 word"
type_synonym uchar = "8 word"
type_synonym sshort = "16 word"
type_synonym ushort = "16 word"
type_synonym signed_int = "32 word"
type_synonym unsigned_int = "32 word"
type_synonym slonglong = "64 word"
type_synonym ulonglong = "64 word"

section \<open>Truth values and codes\<close>

text \<open>\<^verbatim>\<open>!\<close> of C, with \<^verbatim>\<open>TRUE\<close> defined through it.\<close>

definition c_not :: "int \<Rightarrow> int" where "c_not x = (if x = 0 then 1 else 0)"

datatype BOOL = FALSE | TRUE

primrec bool_value :: "BOOL \<Rightarrow> int" where
  "bool_value FALSE = 0"
| "bool_value TRUE = c_not 0"

datatype rc = RC_ERR | RC_OK | RC_CODE

primrec rc_value :: "rc \<Rightarrow> int" where
  "rc_value RC_ERR = -1"
| "rc_value RC_OK = 0"
| "rc_value RC_CODE = 8"

section \<open>Macros\<close>

definition MAX_macro :: "int \<Rightarrow> int \<Rightarrow> int" where "MAX_macro a b = (if a > b then a else b)"
definition MAX3 :: "int \<Rightarrow> int \<Rightarrow> int \<Rightarrow> int" where "MAX3 a b c = MAX_macro (MAX_macro a b) c"
definition MIN3 :: "int \<Rightarrow> int \<Rightarrow> int \<Rightarrow> int" where "MIN3 a b c = MIN_macro (MIN_macro a b) c"

lemma MAX3_Max: "MAX3 a b c = Max {a, b, c}"
  by (auto simp: MAX3_def MAX_macro_def max_def)

lemma MIN3_Min: "MIN3 a b c = Min {a, b, c}"
  by (auto simp: MIN3_def MIN_macro_def min_def)

text \<open>\<^verbatim>\<open>htons\<close> and \<^verbatim>\<open>ntohl\<close> on a little-endian host: the bytes in the other order.\<close>

definition ntohl :: "u32 \<Rightarrow> u32" where
  "ntohl w = word_cat (ntohs (ucast w)) (ntohs (ucast (drop_bit 16 w)))"

definition NTOHS :: "u16 \<Rightarrow> u16" where "NTOHS val = ntohs val"
definition HTONS :: "u16 \<Rightarrow> u16" where "HTONS val = ntohs val"
definition NTOHL :: "u32 \<Rightarrow> u32" where "NTOHL val = ntohl val"
definition HTONL :: "u32 \<Rightarrow> u32" where "HTONL val = ntohl val"

lemma NTOHS_HTONS: "NTOHS (HTONS w) = w"
  by (simp add: NTOHS_def HTONS_def ntohs_ntohs)

lemma ntohl_halves: "ntohl (word_cat (a :: u16) (b :: u16)) = word_cat (ntohs b) (ntohs a)"
proof -
  have "ucast (word_cat a b :: u32) = b"
    by (rule bit_word_eqI) (simp add: bit_word_cat_iff bit_ucast_iff)
  moreover have "ucast (drop_bit 16 (word_cat a b :: u32)) = a"
    by (rule bit_word_eqI) (auto simp: bit_word_cat_iff bit_ucast_iff bit_drop_bit_eq dest: bit_imp_le_length)
  ultimately show ?thesis by (simp add: ntohl_def)
qed

lemma word_halves: "\<exists>(a :: u16) (b :: u16). w = (word_cat a b :: u32)"
proof -
  have "w = word_cat (ucast (drop_bit 16 w) :: u16) (ucast w :: u16)"
    by (rule bit_word_eqI) (auto simp: bit_word_cat_iff bit_ucast_iff bit_drop_bit_eq not_less)
  then show ?thesis by blast
qed

lemma NTOHL_HTONL: "NTOHL (HTONL w) = w"
  using word_halves [of w] by (auto simp: NTOHL_def HTONL_def ntohl_halves ntohs_ntohs)

section \<open>The TCP header\<close>

text \<open>
  The packed structure: the offset of a field is the sum of the sizes before it. The fields
  hold the bytes in network order, as they are in memory.
\<close>

record tcp_hdr =
  src_port :: u16
  dst_port :: u16
  sent_seq :: u32
  recv_ack :: u32
  data_off :: u8
  tcp_flags :: u8
  rx_win :: u16
  cksum :: u16
  tcp_urp :: u16

definition SIZEOF_TCP_HDR :: nat where "SIZEOF_TCP_HDR = 20"

definition rd_tcp_hdr :: "u8 list \<Rightarrow> nat \<Rightarrow> tcp_hdr res" where
  "rd_tcp_hdr m p =
     bindR (rd16 m p) (\<lambda>src.
     bindR (rd16 m (p + 2)) (\<lambda>dst.
     bindR (rd32 m (p + 4)) (\<lambda>seq.
     bindR (rd32 m (p + 8)) (\<lambda>ack.
     bindR (rd8 m (p + 12)) (\<lambda>off.
     bindR (rd8 m (p + 13)) (\<lambda>fl.
     bindR (rd16 m (p + 14)) (\<lambda>win.
     bindR (rd16 m (p + 16)) (\<lambda>ck.
     bindR (rd16 m (p + 18)) (\<lambda>urp.
     Inr \<lparr>src_port = src, dst_port = dst, sent_seq = seq, recv_ack = ack, data_off = off, tcp_flags = fl,
       rx_win = win, cksum = ck, tcp_urp = urp\<rparr>)))))))))"

lemma rd_tcp_hdr_defined: "(\<exists>h. rd_tcp_hdr m p = Inr h) \<longleftrightarrow> p + SIZEOF_TCP_HDR \<le> length m"
proof
  assume "\<exists>h. rd_tcp_hdr m p = Inr h"
  then show "p + SIZEOF_TCP_HDR \<le> length m"
    using rd16_out [of m "p + 18"] by (cases "length m \<le> p + 19") (auto simp: rd_tcp_hdr_def bindR_Inr_iff SIZEOF_TCP_HDR_def)
next
  assume "p + SIZEOF_TCP_HDR \<le> length m"
  then show "\<exists>h. rd_tcp_hdr m p = Inr h"
    by (simp add: rd_tcp_hdr_def SIZEOF_TCP_HDR_def rd16_ok rd32_ok)
qed

text \<open>The two fields the packet filter reads are those of the header.\<close>

lemma tcp_ports_of_header:
  "rd_tcp_hdr m p = Inr h \<Longrightarrow> tcp_source m p = Inr (src_port h) \<and> tcp_dest m p = Inr (dst_port h)"
  by (auto simp: rd_tcp_hdr_def bindR_Inr_iff tcp_source_def tcp_dest_def)

text \<open>Of \<^verbatim>\<open>queue.h\<close>: the size of one packet buffer, as \<^verbatim>\<open>common.h\<close> has it.\<close>

definition RING_BUF_SIZE :: nat where "RING_BUF_SIZE = 1500"

lemma RING_BUF_SIZE_packet: "RING_BUF_SIZE = MAX_PACKET_SIZE"
  by (simp add: RING_BUF_SIZE_def MAX_PACKET_SIZE_def)

section \<open>Lists\<close>

text \<open>\<^verbatim>\<open>__list_for_each\<close> is \<^verbatim>\<open>list_for_each\<close> under its old name.\<close>

definition old_list_for_each :: "lheap \<Rightarrow> ptr \<Rightarrow> ptr list res option" where
  "old_list_for_each h head =
     (case get_next h head of Inl e \<Rightarrow> Some (Inl e) | Inr p \<Rightarrow> list_for_each_loop h head p [])"

lemma old_list_for_each_visits: "dlist h l xs \<Longrightarrow> old_list_for_each h l = Some (Inr xs)"
  using list_for_each_visits by (simp add: old_list_for_each_def list_for_each_def)

text \<open>The one word of an empty \<^verbatim>\<open>hlist_head\<close>, and its definition as a variable at \<open>h\<close>.\<close>

definition HLIST_HEAD_INIT :: ptr where "HLIST_HEAD_INIT = NULL"

definition HLIST_HEAD :: "hmem \<Rightarrow> ptr \<Rightarrow> hmem" where
  "HLIST_HEAD m h = m\<lparr>hw := (hw m)(h \<mapsto> HLIST_HEAD_INIT)\<rparr>"

lemma HLIST_HEAD_empty: "INIT_HLIST_HEAD (HLIST_HEAD m h) h = Inr (HLIST_HEAD m h)"
  by (simp add: INIT_HLIST_HEAD_def HLIST_HEAD_def HLIST_HEAD_INIT_def set_word_def fun_upd_idem)

end
